(* ===== verification/Nimbus_Prelude.thy ===== *)
theory Nimbus_Prelude
  imports Main "HOL-Library.Word" "HOL-Library.AList"
begin

text \<open>
  Shared ground of the development: how the Go program's basic types are read in HOL, and the
  generic facts the component theories rest on.

  \<^item> \<open>uint64\<close> is \<open>64 word\<close> (\<open>+\<close> wraps); a Go \<open>int\<close> or \<open>int64\<close> is an \<open>int\<close> whose results
    pass through \<open>i64\<close>, the two's complement wrap-around, wherever the code can overflow it.
  \<^item> \<open>time.Time\<close> is its number of nanoseconds since the Unix epoch, an \<open>int\<close> (the 64-bit seconds
    of Go's representation do not overflow on any instant this program can build); a
    \<open>time.Duration\<close> is its \<open>int64\<close> number of nanoseconds, an \<open>int\<close>.
  \<^item> an \<open>error\<close> is a value of \<open>go_error\<close>, \<open>nil\<close> is \<open>None\<close>; \<open>errors.Is\<close> unwraps.
  \<^item> a Go \<open>map\<close> whose size or iteration matters is an association list with distinct keys,
    read by \<open>map_of\<close> and written by \<open>AList.update\<close> and \<open>AList.delete\<close>.
  \<^item> Go's zero value of a type parameter \<open>V\<close> is \<open>0\<close> of a type of class \<open>zero\<close>.
\<close>

named_theorems go_defs "unfolding rules of the modelled operations"
named_theorems inv_intros "every operation keeps its component's invariant"

type_synonym u64 = "64 word"
type_synonym time = int
type_synonym duration = int
type_synonym gokey = string

section \<open>Errors\<close>

text \<open>
  The sentinel errors of the module (errors.go, store/store.go), an error made by
  \<open>errors.New\<close> or \<open>fmt.Errorf\<close> or by code outside the module, and \<open>%w\<close> wrapping.
\<close>

datatype go_error =
    ErrNotFound
  | ErrClosed
  | ErrVersionConflict
  | ErrMsg string
  | ErrWrap string go_error

fun errors_is :: "go_error \<Rightarrow> go_error \<Rightarrow> bool" where
  "errors_is (ErrWrap m e) t \<longleftrightarrow> ErrWrap m e = t \<or> errors_is e t"
| "errors_is e t \<longleftrightarrow> e = t"

lemma errors_is_refl [simp]: "errors_is e e"
  by (cases e) auto

lemma errors_is_sentinel [simp]:
  "errors_is ErrNotFound t \<longleftrightarrow> ErrNotFound = t"
  "errors_is ErrClosed t \<longleftrightarrow> ErrClosed = t"
  "errors_is ErrVersionConflict t \<longleftrightarrow> ErrVersionConflict = t"
  by simp_all

section \<open>Signed 64-bit integers and durations\<close>

definition i64 :: "int \<Rightarrow> int" where
  "i64 x = (x + 2 ^ 63) mod 2 ^ 64 - 2 ^ 63"

definition i32 :: "int \<Rightarrow> int" where
  "i32 x = (x + 2 ^ 31) mod 2 ^ 32 - 2 ^ 31"

text \<open>Go's \<open>/\<close> truncates towards zero.\<close>

definition go_div :: "int \<Rightarrow> int \<Rightarrow> int" where
  "go_div a b = sgn a * sgn b * (\<bar>a\<bar> div \<bar>b\<bar>)"

definition Millisecond :: duration where "Millisecond = 1000000"
definition Second :: duration where "Second = 1000 * Millisecond"
definition Minute :: duration where "Minute = 60 * Second"
definition Hour :: duration where "Hour = 60 * Minute"

lemmas duration_defs = Millisecond_def Second_def Minute_def Hour_def

lemma i64_id: "- (2 ^ 63) \<le> x \<Longrightarrow> x < 2 ^ 63 \<Longrightarrow> i64 x = x"
  by (simp add: i64_def)

lemma i64_range: "- (2 ^ 63) \<le> i64 x" "i64 x < 2 ^ 63"
  using pos_mod_bound [of "2 ^ 64" "x + 2 ^ 63"] by (simp_all add: i64_def)

lemma i32_id: "- (2 ^ 31) \<le> x \<Longrightarrow> x < 2 ^ 31 \<Longrightarrow> i32 x = x"
  by (simp add: i32_def)

lemma go_div_nonneg: "0 \<le> a \<Longrightarrow> 0 < b \<Longrightarrow> go_div a b = a div b"
  by (cases "a = 0") (simp_all add: go_div_def)

section \<open>Go maps as association lists\<close>

text \<open>
  \<open>AList.update\<close> keeps the keys distinct and \<open>AList.delete\<close> removes the one binding of a key, so
  \<open>length\<close> is Go's \<open>len\<close>.
\<close>

definition gomap_ok :: "('k \<times> 'a) list \<Rightarrow> bool" where
  "gomap_ok m \<longleftrightarrow> distinct (map fst m)"

lemma gomap_ok_Nil [simp, intro]: "gomap_ok []"
  by (simp add: gomap_ok_def)

lemma gomap_ok_update [simp, intro]: "gomap_ok m \<Longrightarrow> gomap_ok (AList.update k v m)"
  by (simp add: gomap_ok_def distinct_update)

lemma gomap_ok_delete [simp, intro]: "gomap_ok m \<Longrightarrow> gomap_ok (AList.delete k m)"
  by (simp add: gomap_ok_def distinct_delete)

lemma gomap_update [simp]: "map_of (AList.update k v m) = (map_of m)(k \<mapsto> v)"
  by (rule update_conv')

lemma gomap_delete [simp]: "map_of (AList.delete k m) = (map_of m)(k := None)"
  by (rule delete_conv')

lemma length_update_fresh:
  "map_of m k = None \<Longrightarrow> length (AList.update k v m) = Suc (length m)"
  by (induction m) (auto split: if_splits)

lemma length_update_old:
  "map_of m k = Some w \<Longrightarrow> length (AList.update k v m) = length m"
  by (induction m) (auto split: if_splits)

lemma delete_fresh: "map_of m k = None \<Longrightarrow> AList.delete k m = m"
  by (induction m) (auto simp: AList.delete_eq split: if_splits)

lemma length_delete_old:
  "gomap_ok m \<Longrightarrow> map_of m k = Some v \<Longrightarrow> Suc (length (AList.delete k m)) = length m"
proof (induction m)
  case (Cons p m)
  show ?case
  proof (cases "fst p = k")
    case True
    with Cons.prems have "map_of m k = None"
      by (auto simp: gomap_ok_def map_of_eq_None_iff)
    with True show ?thesis using delete_fresh [of m k]
      by (cases p) (simp add: AList.delete_eq)
  next
    case False
    with Cons show ?thesis by (cases p) (auto simp: gomap_ok_def AList.delete_eq)
  qed
qed simp

lemma length_gomap: "gomap_ok m \<Longrightarrow> length m = card (dom (map_of m))"
  unfolding gomap_ok_def dom_map_of_conv_image_fst
  using distinct_card [of "map fst m"] by simp

text \<open>The next index of a ring buffer.\<close>

lemma ring_succ_less: "i < n \<Longrightarrow> Suc i mod n < (n::nat)"
  by (cases n) simp_all

section \<open>Slicing into chunks\<close>

text \<open>
  The loop \<open>for start := 0; start < len(xs); start += size\<close> over \<open>xs[start:min(start+size, len(xs))]\<close>,
  with a positive constant size.
\<close>

function chunks :: "nat \<Rightarrow> nat \<Rightarrow> 'x list \<Rightarrow> 'x list list" where
  "chunks sz start xs =
     (if 0 < sz \<and> start < length xs
      then let en = min (start + sz) (length xs)
           in take (en - start) (drop start xs) # chunks sz (start + sz) xs
      else [])"
  by pat_completeness auto
termination
  by (relation "measure (\<lambda>(sz, start, xs). length xs - start)") auto

declare chunks.simps [simp del]

lemma ceil_step:
  assumes "0 < sz" "0 < m"
  shows "Suc ((m - sz + (sz - 1)) div sz) = (m + (sz - 1)) div (sz :: nat)"
proof (cases "sz \<le> m")
  case True
  then obtain d where "m = d + sz" by (metis le_add_diff_inverse2)
  then show ?thesis using assms(1) div_add_self2 [of sz "d + (sz - 1)"] by (simp add: add.commute add.left_commute)
next
  case False
  then have "(m + (sz - 1)) div sz = 1" using assms by (intro div_nat_eqI) simp_all
  then show ?thesis using False assms(1) by simp
qed

lemma chunks_spec:
  "0 < sz \<Longrightarrow>
     concat (chunks sz start xs) = drop start xs
     \<and> (\<forall>ch \<in> set (chunks sz start xs). 0 < length ch \<and> length ch \<le> sz)
     \<and> length (chunks sz start xs) = (length xs - start + (sz - 1)) div sz"
proof (induction sz start xs rule: chunks.induct)
  case (1 sz start xs)
  show ?case
  proof (cases "start < length xs")
    case False
    then show ?thesis using 1(2) by (simp add: chunks.simps [of sz start])
  next
    case True
    let ?en = "min (start + sz) (length xs)"
    have st: "chunks sz start xs = take (?en - start) (drop start xs) # chunks sz (start + sz) xs"
      using True 1(2) by (subst chunks.simps) (simp add: Let_def)
    have "drop (start + sz) xs = drop ?en xs" by (simp add: min_def)
    then have "take (?en - start) (drop start xs) @ drop (start + sz) xs = drop start xs"
      using append_take_drop_id [of "?en - start" "drop start xs"] True by simp
    moreover have "Suc ((length xs - (start + sz) + (sz - 1)) div sz) = (length xs - start + (sz - 1)) div sz"
      using ceil_step [of sz "length xs - start"] True 1(2) by simp
    ultimately show ?thesis using 1(1) [OF conjI [OF 1(2) True] refl 1(2)] True 1(2) by (auto simp: st min_def)
  qed
qed

end
