(* ===== verification/Go_Monad.thy ===== *)
theory Go_Monad
  imports Nimbus_Prelude "HOL-Library.State_Monad"
begin

text \<open>
  Programs that thread a state through many calls are values of the library's state monad, so a
  modelled method reads like its Go body. This theory has the two primitive steps the component
  theories use and the program logic their invariants are proved with: \<open>hoare P m Q\<close> says that \<open>m\<close>,
  run where \<open>P\<close> holds, returns a value and a state that satisfy \<open>Q\<close> (every program of this monad
  returns, so this is total correctness).
\<close>

definition reading :: "('s \<Rightarrow> 'a) \<Rightarrow> ('s, 'a) state" where
  "reading f = State (\<lambda>s. (f s, s))"

definition updating :: "('s \<Rightarrow> 's) \<Rightarrow> ('s, unit) state" where
  "updating f = State (\<lambda>s. ((), f s))"

text \<open>A loop over a slice whose body only has effects.\<close>

primrec for_each :: "'a list \<Rightarrow> ('a \<Rightarrow> ('s, unit) state) \<Rightarrow> ('s, unit) state" where
  "for_each [] f = State_Monad.return ()"
| "for_each (x # xs) f = do { f x; for_each xs f }"

lemma run_reading [simp]: "run_state (reading f) s = (f s, s)"
  by (simp add: reading_def)

lemma run_updating [simp]: "run_state (updating f) s = ((), f s)"
  by (simp add: updating_def)

section \<open>The program logic\<close>

definition hoare :: "('s \<Rightarrow> bool) \<Rightarrow> ('s, 'a) state \<Rightarrow> ('a \<Rightarrow> 's \<Rightarrow> bool) \<Rightarrow> bool" where
  "hoare P m Q \<longleftrightarrow> (\<forall>s. P s \<longrightarrow> Q (fst (run_state m s)) (snd (run_state m s)))"

abbreviation keeps :: "('s \<Rightarrow> bool) \<Rightarrow> ('s, 'a) state \<Rightarrow> bool" where
  "keeps I m \<equiv> hoare I m (\<lambda>_. I)"

named_theorems hoare_rules "rules of the program logic, for every construct and every modelled call"

lemma hoareI: "(\<And>s. P s \<Longrightarrow> Q (fst (run_state m s)) (snd (run_state m s))) \<Longrightarrow> hoare P m Q"
  by (simp add: hoare_def)

lemma hoareD: "hoare P m Q \<Longrightarrow> P s \<Longrightarrow> run_state m s = (a, s') \<Longrightarrow> Q a s'"
  by (force simp: hoare_def)

lemma hoare_run: "hoare P m Q \<Longrightarrow> P s \<Longrightarrow> Q (fst (run_state m s)) (snd (run_state m s))"
  by (simp add: hoare_def)

lemma hoare_return: "(\<And>s. P s \<Longrightarrow> Q x s) \<Longrightarrow> hoare P (State_Monad.return x) Q"
  by (simp add: hoare_def)

lemma hoare_bind:
  "hoare P m R \<Longrightarrow> (\<And>a. hoare (R a) (f a) Q) \<Longrightarrow> hoare P (m \<bind> f) Q"
  by (simp add: hoare_def split_beta)

lemma hoare_weaken: "hoare P' m Q' \<Longrightarrow> (\<And>s. P s \<Longrightarrow> P' s) \<Longrightarrow> (\<And>a s. Q' a s \<Longrightarrow> Q a s) \<Longrightarrow> hoare P m Q"
  by (simp add: hoare_def)

lemma hoare_pre: "hoare P' m Q \<Longrightarrow> (\<And>s. P s \<Longrightarrow> P' s) \<Longrightarrow> hoare P m Q"
  by (simp add: hoare_def)

lemma hoare_if: "(b \<Longrightarrow> hoare P m Q) \<Longrightarrow> (\<not> b \<Longrightarrow> hoare P n Q) \<Longrightarrow> hoare P (if b then m else n) Q"
  by simp

lemma hoare_prod: "(\<And>a b. x = (a, b) \<Longrightarrow> hoare P (f a b) Q) \<Longrightarrow> hoare P (case x of (a, b) \<Rightarrow> f a b) Q"
  by (cases x) simp

lemma hoare_option:
  "(x = None \<Longrightarrow> hoare P m Q) \<Longrightarrow> (\<And>a. x = Some a \<Longrightarrow> hoare P (f a) Q) \<Longrightarrow>
    hoare P (case x of None \<Rightarrow> m | Some a \<Rightarrow> f a) Q"
  by (cases x) auto

lemma hoare_sum:
  "(\<And>a. x = Inl a \<Longrightarrow> hoare P (f a) Q) \<Longrightarrow> (\<And>b. x = Inr b \<Longrightarrow> hoare P (g b) Q) \<Longrightarrow>
    hoare P (case x of Inl a \<Rightarrow> f a | Inr b \<Rightarrow> g b) Q"
  by (cases x) auto

lemma hoare_let: "hoare P (f x) Q \<Longrightarrow> hoare P (Let x f) Q"
  by simp

lemma hoare_reading: "(\<And>s. P s \<Longrightarrow> Q (f s) s) \<Longrightarrow> hoare P (reading f) Q"
  by (simp add: hoare_def)

lemma hoare_updating: "(\<And>s. P s \<Longrightarrow> Q () (f s)) \<Longrightarrow> hoare P (updating f) Q"
  by (simp add: hoare_def)

lemma hoare_false: "hoare (\<lambda>_. False) m Q"
  by (simp add: hoare_def)

lemma hoare_pure: "(\<phi> \<Longrightarrow> hoare P m Q) \<Longrightarrow> hoare (\<lambda>s. P s \<and> \<phi>) m Q"
  by (auto simp: hoare_def)

lemma keeps_for_each: "(\<And>x. x \<in> set xs \<Longrightarrow> keeps I (f x)) \<Longrightarrow> keeps I (for_each xs f)"
  by (induction xs) (auto intro!: hoare_return hoare_bind)

end
