(* ===== verification/Go_Float.thy ===== *)
theory Go_Float
  imports Complex_Main "HOL-Library.Log_Nat" Nimbus_Prelude
begin

text \<open>
  IEEE double arithmetic, as Go's \<open>float64\<close> (the TTL jitter of cache.go) and Lua's numbers (the Redis
  scripts) have it. A finite double is its exact value, a \<open>rat\<close>; an operation is the exact operation
  followed by \<open>dbl\<close>, the rounding to 53 significant bits, to nearest and ties to even. Every value the
  program computes is 0 or has a magnitude between \<open>2 ^ - 1022\<close> and \<open>2 ^ 1024\<close>, where this is the
  whole of IEEE rounding.
\<close>

definition dexp :: "rat \<Rightarrow> int" where
  "dexp x = (let (a, b) = quotient_of \<bar>x\<bar>; e = bitlen a - bitlen b
             in if power_int 2 e \<le> \<bar>x\<bar> then e else e - 1)"

definition rne :: "rat \<Rightarrow> int" where
  "rne y = (let n = \<lfloor>y\<rfloor>; f = y - of_int n
            in if f < 1 / 2 then n else if 1 / 2 < f then n + 1 else if even n then n else n + 1)"

definition dbl :: "rat \<Rightarrow> rat" where
  "dbl x = (if x = 0 then 0
            else let s = power_int 2 (dexp x - 52) in of_int (rne (x / s)) * s)"

datatype float64 = Fin rat | Inf | NegInf | NaN

text \<open>Go's \<open><\<close> on \<open>float64\<close>: every comparison with a NaN is false.\<close>

fun f64_less :: "float64 \<Rightarrow> float64 \<Rightarrow> bool" where
  "f64_less NaN _ = False"
| "f64_less _ NaN = False"
| "f64_less (Fin x) (Fin y) = (x < y)"
| "f64_less NegInf y = (y \<noteq> NegInf)"
| "f64_less _ NegInf = False"
| "f64_less Inf _ = False"
| "f64_less _ Inf = True"

section \<open>Rounding to an integer\<close>

lemma rne_of_int [simp]: "rne (of_int n) = n"
  by (simp add: rne_def)

lemma rne_error: "\<bar>of_int (rne y) - y\<bar> \<le> 1 / 2"
proof -
  have "of_int \<lfloor>y\<rfloor> \<le> y" "y < of_int \<lfloor>y\<rfloor> + 1" by linarith+
  then show ?thesis unfolding rne_def Let_def by (auto simp: abs_if) linarith+
qed

lemma rne_mono: assumes "x \<le> y" shows "rne x \<le> rne y"
proof (cases "\<lfloor>x\<rfloor> = \<lfloor>y\<rfloor>")
  case True
  then show ?thesis using assms by (auto simp: rne_def Let_def)
next
  case False
  then have "\<lfloor>x\<rfloor> + 1 \<le> \<lfloor>y\<rfloor>" using floor_mono [OF assms] by linarith
  moreover have "rne x \<le> \<lfloor>x\<rfloor> + 1" "\<lfloor>y\<rfloor> \<le> rne y" by (simp_all add: rne_def Let_def)
  ultimately show ?thesis by linarith
qed

lemma rne_ge: "of_int n \<le> y \<Longrightarrow> n \<le> rne y"
  using rne_mono [of "of_int n" y] by simp

lemma rne_le: "y \<le> of_int n \<Longrightarrow> rne y \<le> n"
  using rne_mono [of y "of_int n"] by simp

section \<open>The exponent\<close>

lemma bitlen_pow: "0 < a \<Longrightarrow> power_int 2 (bitlen a - 1) \<le> (of_int a :: rat) \<and> of_int a < (power_int 2 (bitlen a) :: rat)"
proof -
  assume "0 < a"
  then have b: "2 ^ nat (bitlen a - 1) \<le> a" "a < 2 ^ nat (bitlen a)" "1 \<le> bitlen a"
    using bitlen_bounds [of a] bitlen_nonneg [of a] bitlen_eq_zero_iff [of a] by auto
  have "power_int 2 (bitlen a - 1) = (of_int (2 ^ nat (bitlen a - 1)) :: rat)"
    using b(3) by (simp add: power_int_def)
  moreover have "power_int 2 (bitlen a) = (of_int (2 ^ nat (bitlen a)) :: rat)"
    using b(3) by (simp add: power_int_def)
  ultimately show ?thesis using b(1,2) by (simp only: of_int_le_iff of_int_less_iff)
qed

lemma dexp_bounds:
  assumes "x \<noteq> 0"
  shows "power_int 2 (dexp x) \<le> \<bar>x\<bar>" and "\<bar>x\<bar> < power_int 2 (dexp x + 1)"
proof -
  obtain a b where q: "quotient_of \<bar>x\<bar> = (a, b)" by force
  have b: "0 < b" and x: "\<bar>x\<bar> = of_int a / of_int b"
    using quotient_of_denom_pos [OF q] quotient_of_div [OF q] by auto
  have "0 < (of_int a / of_int b :: rat)" using assms by (simp flip: x)
  then have a: "0 < a" using b by (simp add: zero_less_divide_iff)
  let ?e = "bitlen a - bitlen b"
  have up: "\<bar>x\<bar> < power_int 2 (?e + 1)"
  proof -
    have "power_int 2 (?e + 1) * (power_int 2 (bitlen b - 1) :: rat) = power_int 2 (bitlen a)"
      by (simp flip: power_int_add)
    moreover have "(power_int 2 (?e + 1) :: rat) * power_int 2 (bitlen b - 1) \<le> power_int 2 (?e + 1) * of_int b"
      using bitlen_pow [OF b] by (intro mult_left_mono) auto
    ultimately have "of_int a < power_int 2 (?e + 1) * (of_int b :: rat)"
      using bitlen_pow [OF a] by linarith
    then show ?thesis using b by (simp add: x divide_less_eq)
  qed
  have lo: "power_int 2 (?e - 1) \<le> \<bar>x\<bar>"
  proof -
    have "(power_int 2 (?e - 1) :: rat) * of_int b \<le> power_int 2 (?e - 1) * power_int 2 (bitlen b)"
      using bitlen_pow [OF b] by (intro mult_left_mono) auto
    also have "\<dots> = power_int 2 (bitlen a - 1)" by (simp flip: power_int_add)
    also have "\<dots> \<le> of_int a" using bitlen_pow [OF a] by simp
    finally show ?thesis using b by (simp add: x le_divide_eq)
  qed
  show "power_int 2 (dexp x) \<le> \<bar>x\<bar>" "\<bar>x\<bar> < power_int 2 (dexp x + 1)"
    using up lo by (auto simp: dexp_def q Let_def)
qed

lemma dexp_minus [simp]: "dexp (- x) = dexp x"
  by (simp add: dexp_def)

lemma dexp_le:
  assumes "0 < x" "x \<le> y" shows "dexp x \<le> dexp y"
proof (rule ccontr)
  assume "\<not> dexp x \<le> dexp y"
  then have "dexp y + 1 \<le> dexp x" by linarith
  then have "(power_int 2 (dexp y + 1) :: rat) \<le> power_int 2 (dexp x)"
    by (rule power_int_increasing) simp
  then show False using dexp_bounds [of x] dexp_bounds [of y] assms by simp
qed

section \<open>Rounding to a double\<close>

lemma rne_minus: "rne (- y) = - rne y"
proof -
  have c: "\<lfloor>- y\<rfloor> = (if y = of_int \<lfloor>y\<rfloor> then - \<lfloor>y\<rfloor> else - \<lfloor>y\<rfloor> - 1)"
    by (split if_split, intro conjI impI; linarith)
  show ?thesis
  proof (cases "y = of_int \<lfloor>y\<rfloor>")
    case True
    then obtain n where "y = of_int n" by blast
    then show ?thesis using rne_of_int [of n] rne_of_int [of "- n"] by simp
  next
    case False
    let ?f = "y - of_int \<lfloor>y\<rfloor>"
    have "- y - of_int \<lfloor>- y\<rfloor> = 1 - ?f" using False by (simp add: c)
    then have "rne (- y) = (if 1 - ?f < 1 / 2 then - \<lfloor>y\<rfloor> - 1 else if 1 / 2 < 1 - ?f then - \<lfloor>y\<rfloor>
        else if even (- \<lfloor>y\<rfloor> - 1) then - \<lfloor>y\<rfloor> - 1 else - \<lfloor>y\<rfloor>)"
      using False by (simp add: rne_def Let_def c)
    also have "\<dots> = - rne y" by (simp add: rne_def Let_def)
    finally show ?thesis .
  qed
qed

lemma dbl_0 [simp]: "dbl 0 = 0"
  by (simp add: dbl_def)

lemma dbl_minus: "dbl (- x) = - dbl x"
  by (simp add: dbl_def Let_def rne_minus)

lemma dbl_eq: "x \<noteq> 0 \<Longrightarrow> dbl x = of_int (rne (x / power_int 2 (dexp x - 52))) * power_int 2 (dexp x - 52)"
  by (simp add: dbl_def Let_def)

lemma scale_pow: "(2 ^ n :: rat) * power_int 2 (e - 52) = power_int 2 (e - 52 + int n)"
  by (simp add: power_int_add)

lemma dbl_binade:
  assumes "0 < x"
  shows "power_int 2 (dexp x) \<le> dbl x" and "dbl x \<le> power_int 2 (dexp x + 1)"
proof -
  let ?s = "power_int 2 (dexp x - 52) :: rat"
  have s: "0 < ?s" by simp
  have lo: "of_int (2 ^ 52) * ?s = power_int 2 (dexp x)" and hi: "of_int (2 ^ 53) * ?s = power_int 2 (dexp x + 1)"
    using scale_pow [of 52 "dexp x"] scale_pow [of 53 "dexp x"] by (simp_all add: add.commute)
  have "of_int (2 ^ 52) \<le> x / ?s" using dexp_bounds(1) [of x] assms s lo by (simp add: le_divide_eq)
  then have "2 ^ 52 \<le> rne (x / ?s)" by (rule rne_ge)
  then have "of_int (2 ^ 52) * ?s \<le> of_int (rne (x / ?s)) * ?s"
    using s by (intro mult_right_mono of_int_le_iff [THEN iffD2]) simp_all
  then show "power_int 2 (dexp x) \<le> dbl x" unfolding lo using assms dbl_eq [of x] by simp
  have "x / ?s \<le> of_int (2 ^ 53)" using dexp_bounds(2) [of x] assms s hi by (simp add: divide_le_eq)
  then have "rne (x / ?s) \<le> 2 ^ 53" by (rule rne_le)
  then have "of_int (rne (x / ?s)) * ?s \<le> of_int (2 ^ 53) * ?s"
    using s by (intro mult_right_mono of_int_le_iff [THEN iffD2]) simp_all
  then show "dbl x \<le> power_int 2 (dexp x + 1)" unfolding hi using assms dbl_eq [of x] by simp
qed

lemma dbl_pos: "0 < x \<Longrightarrow> 0 < dbl x"
  using dbl_binade(1) [of x] by (meson less_le_trans zero_less_numeral zero_less_power_int)

lemma dbl_mono_pos:
  assumes "0 < x" "x \<le> y" shows "dbl x \<le> dbl y"
proof (cases "dexp x = dexp y")
  case True
  let ?s = "power_int 2 (dexp y - 52) :: rat"
  have "rne (x / ?s) \<le> rne (y / ?s)" using assms by (intro rne_mono divide_right_mono) simp_all
  then show ?thesis using assms True by (simp add: dbl_eq mult_right_mono)
next
  case False
  then have "dexp x + 1 \<le> dexp y" using dexp_le [OF assms] by linarith
  then have "(power_int 2 (dexp x + 1) :: rat) \<le> power_int 2 (dexp y)"
    by (rule power_int_increasing) simp
  then show ?thesis using dbl_binade [of x] dbl_binade [of y] assms by linarith
qed

lemma dbl_mono: assumes "x \<le> y" shows "dbl x \<le> dbl y"
proof -
  consider "0 < x" | "x \<le> 0" "0 \<le> y" | "y < 0" using assms by linarith
  then show ?thesis
  proof cases
    case 1
    then show ?thesis using dbl_mono_pos assms by blast
  next
    case 2
    have "dbl x \<le> 0" using dbl_pos [of "- x"] 2(1) by (cases "x = 0") (auto simp: dbl_minus)
    moreover have "0 \<le> dbl y" using dbl_pos [of y] 2(2) by (cases "y = 0") auto
    ultimately show ?thesis by linarith
  next
    case 3
    then show ?thesis using dbl_mono_pos [of "- y" "- x"] assms by (simp add: dbl_minus)
  qed
qed

lemma dbl_error: "\<bar>dbl x - x\<bar> \<le> \<bar>x\<bar> / 2 ^ 53"
proof (cases "x = 0")
  case False
  let ?s = "power_int 2 (dexp x - 52) :: rat"
  have s: "0 < ?s" by simp
  have "dbl x - x = (of_int (rne (x / ?s)) - x / ?s) * ?s" using False s by (simp add: dbl_eq left_diff_distrib)
  then have "\<bar>dbl x - x\<bar> = \<bar>of_int (rne (x / ?s)) - x / ?s\<bar> * ?s" by (simp add: abs_mult)
  also have "\<dots> \<le> 1 / 2 * ?s" using rne_error s by (intro mult_right_mono) auto
  also have "\<dots> = power_int 2 (dexp x) / 2 ^ 53"
    using scale_pow [of 52 "dexp x"] by (simp add: field_simps)
  also have "\<dots> \<le> \<bar>x\<bar> / 2 ^ 53" using dexp_bounds(1) [OF False] by (intro divide_right_mono) auto
  finally show ?thesis .
qed simp

lemma dbl_of_int:
  assumes "\<bar>n\<bar> \<le> 2 ^ 53" shows "dbl (of_int n) = of_int n"
proof (cases "n = 0")
  case False
  let ?x = "of_int n :: rat"
  have x: "?x \<noteq> 0" using False by simp
  show ?thesis
  proof (cases "dexp ?x \<le> 52")
    case True
    define k where "k = nat (52 - dexp ?x)"
    have k: "dexp ?x - 52 = - int k" using True by (simp add: k_def)
    have "x / power_int 2 (- int k) = x * 2 ^ k" for x :: rat
      by (simp add: power_int_minus divide_inverse)
    then have "dbl ?x = of_int (rne (of_int (n * 2 ^ k))) * power_int 2 (- int k)"
      using dbl_eq [OF x] unfolding k by simp
    then show ?thesis unfolding rne_of_int by (simp add: power_int_minus)
  next
    case False
    then have "(power_int 2 53 :: rat) \<le> power_int 2 (dexp ?x)" by (intro power_int_increasing) auto
    then have "(2 ^ 53 :: rat) \<le> \<bar>?x\<bar>" using dexp_bounds(1) [OF x] by (simp add: power_int_def)
    then have ge: "of_int (2 ^ 53) \<le> (of_int \<bar>n\<bar> :: rat)" by simp
    then have n: "\<bar>n\<bar> = 2 ^ 53" using assms by (simp only: of_int_le_iff)
    have "dexp ?x = 53"
    proof -
      have "\<bar>?x\<bar> = of_int (2 ^ 53)" using n by (metis of_int_abs)
      then have "(power_int 2 (dexp ?x) :: rat) \<le> power_int 2 53"
        using dexp_bounds(1) [OF x] by (simp add: power_int_def)
      then have "dexp ?x \<le> 53" using power_int_strict_increasing [of 53 "dexp ?x" "2 :: rat"] by linarith
      then show ?thesis using False by linarith
    qed
    moreover obtain m where "n = 2 * m"
      using n by (cases "0 \<le> n") (auto intro: that [of "2 ^ 52"] that [of "- (2 ^ 52)"])
    ultimately show ?thesis using x by (simp add: dbl_eq)
  qed
qed simp

lemma dexp_unique:
  assumes "power_int 2 e \<le> \<bar>x\<bar>" "\<bar>x\<bar> < power_int 2 (e + 1)"
  shows "dexp x = e"
proof -
  have "(0 :: rat) < power_int 2 e" by simp
  then have "0 < \<bar>x\<bar>" using assms(1) by linarith
  then have x: "x \<noteq> 0" by simp
  have "power_int 2 (dexp x) < (power_int 2 (e + 1) :: rat)" "power_int 2 e < (power_int 2 (dexp x + 1) :: rat)"
    using assms dexp_bounds [OF x] by linarith+
  then have "dexp x < e + 1" "e < dexp x + 1"
    using power_int_increasing [of "e + 1" "dexp x" "2 :: rat"] power_int_increasing [of "dexp x + 1" e "2 :: rat"]
    by linarith+
  then show ?thesis by linarith
qed

lemma dbl_pow2: "dbl (power_int 2 e) = power_int 2 e"
proof -
  have "(power_int 2 e :: rat) < power_int 2 (e + 1)" by (rule power_int_strict_increasing) simp_all
  then have "dexp (power_int 2 e) = e" by (intro dexp_unique) simp_all
  moreover have "(power_int 2 e :: rat) = of_int (2 ^ 52) * power_int 2 (e - 52)"
    using scale_pow [of 52 e] by simp
  then have "(power_int 2 e :: rat) / power_int 2 (e - 52) = of_int (2 ^ 52)" by simp
  then have "rne (power_int 2 e / power_int 2 (e - 52)) = 2 ^ 52" by (simp only: rne_of_int)
  ultimately show ?thesis using scale_pow [of 52 e] by (simp add: dbl_eq)
qed

end
