(* ===== verification/Store_Entry.thy ===== *)
theory Store_Entry
  imports Nimbus_Prelude
begin

text \<open>
  The versioned envelope of every cache tier (store/entry.go), the sentinel expected version
  (store/store.go) and the injectable clock (internal/clock/clock.go).
\<close>

record 'v entry =
  Value :: 'v
  Version :: u64
  StoredAt :: time
  FreshUntil :: time
  StaleUntil :: time
  Negative :: bool

text \<open>Go's zero \<open>time.Time\<close>, 1 January of year 1, as nanoseconds from the Unix epoch.\<close>

definition zero_time :: time where
  "zero_time = - 62135596800 * Second"

text \<open>The composite literal \<open>Entry[V]{}\<close>: every field has its zero value.\<close>

definition zero_entry :: "('v::zero) entry" where
  "zero_entry = \<lparr>Value = 0, Version = 0, StoredAt = zero_time, FreshUntil = zero_time,
     StaleUntil = zero_time, Negative = False\<rparr>"

definition ForceVersion :: u64 where
  "ForceVersion = - 1"

definition Fresh :: "'v entry \<Rightarrow> time \<Rightarrow> bool" where
  "Fresh e now \<longleftrightarrow> now < FreshUntil e"

definition Stale :: "'v entry \<Rightarrow> time \<Rightarrow> bool" where
  "Stale e now \<longleftrightarrow> \<not> Fresh e now \<and> now < StaleUntil e"

definition Expired :: "'v entry \<Rightarrow> time \<Rightarrow> bool" where
  "Expired e now \<longleftrightarrow> \<not> now < StaleUntil e"

lemmas entry_time_defs = Fresh_def Stale_def Expired_def

text \<open>The windows an entry is built with: it is never stale before it stops being fresh.\<close>

definition entry_ok :: "'v entry \<Rightarrow> bool" where
  "entry_ok e \<longleftrightarrow> FreshUntil e \<le> StaleUntil e"

section \<open>The clock\<close>

record mock =
  mock_now :: time

definition NewMock :: "time \<Rightarrow> mock" where
  "NewMock t = \<lparr>mock_now = t\<rparr>"

definition Mock_Now :: "mock \<Rightarrow> time" where
  "Mock_Now m = mock_now m"

definition Mock_Advance :: "duration \<Rightarrow> mock \<Rightarrow> mock" where
  "Mock_Advance d m = m\<lparr>mock_now := mock_now m + d\<rparr>"

section \<open>Facts\<close>

lemma ForceVersion_unat: "unat ForceVersion = 2 ^ 64 - 1"
  by (simp add: ForceVersion_def unsigned_minus_1_eq_mask mask_eq_exp_minus_1)

lemma version_le_Force [simp]: "v \<le> ForceVersion"
  by (simp add: ForceVersion_def)

lemma zero_entry_simps [simp]:
  "Version zero_entry = 0" "Negative zero_entry = False" "Value zero_entry = 0"
  "FreshUntil zero_entry = zero_time" "StaleUntil zero_entry = zero_time"
  by (simp_all add: zero_entry_def)

lemma fresh_not_expired: "entry_ok e \<Longrightarrow> Fresh e now \<Longrightarrow> \<not> Expired e now"
  by (auto simp: entry_ok_def entry_time_defs)

lemma expired_mono: "Expired e t \<Longrightarrow> t \<le> t' \<Longrightarrow> Expired e t'"
  by (auto simp: entry_time_defs)

lemma not_expired_cases: "\<not> Expired e now \<Longrightarrow> Fresh e now \<or> Stale e now"
  by (auto simp: entry_time_defs)

end
