(* ===== verification/Invalidation.thy ===== *)
theory Invalidation
  imports Store_Entry "HOL-Library.Sublist"
begin

text \<open>
  The cross-instance invalidation bus of invalidation/: the event (event.go), the bounded set of
  seen event IDs (dedupe.go), the in-process fan-out bus (mem.go) and the no-op bus (nop.go).

  \<open>Dedupe\<close> is refined to a plain list of the last IDs, oldest first. The \<open>Mem\<close> bus is one
  definition per critical section of mem.go; a run is a list of such sections, so every
  interleaving of publishers and subscribers is a run.
\<close>

section \<open>Events\<close>

type_synonym kind = string

definition KindKey :: kind where "KindKey = ''key''"
definition KindTag :: kind where "KindTag = ''tag''"

record event =
  ID :: string
  Kind :: kind
  Keys :: "gokey list"
  Tag :: string
  EVersion :: u64
  OriginID :: string
  EmittedAt :: time

section \<open>Dedupe\<close>

record dedupe =
  seen :: "string set"
  order :: "string list"
  idx :: nat
  filled :: nat

definition NewDedupe :: "int \<Rightarrow> dedupe" where
  "NewDedupe capacity =
     (let c = (if capacity < 1 then 1 else capacity)
      in \<lparr>seen = {}, order = replicate (nat c) '''', idx = 0, filled = 0\<rparr>)"

definition Seen :: "string \<Rightarrow> dedupe \<Rightarrow> bool \<times> dedupe" where
  "Seen i d =
     (if i \<in> seen d then (True, d)
      else
        let d1 = (if filled d = length (order d)
                  then d\<lparr>seen := seen d - {order d ! idx d}\<rparr>
                  else d\<lparr>filled := filled d + 1\<rparr>);
            d2 = d1\<lparr>order := (order d1)[idx d1 := i]\<rparr>;
            d3 = d2\<lparr>idx := (idx d2 + 1) mod length (order d2)\<rparr>;
            d4 = d3\<lparr>seen := insert i (seen d3)\<rparr>
        in (False, d4))"

text \<open>
  The specification: the remembered IDs as a list, oldest first. A new ID is appended, and the
  oldest is dropped when the list is full.
\<close>

definition seen_spec :: "nat \<Rightarrow> string \<Rightarrow> string list \<Rightarrow> bool \<times> string list" where
  "seen_spec cap i xs =
     (if i \<in> set xs then (True, xs)
      else (False, (if length xs = cap then tl xs else xs) @ [i]))"

definition recent :: "dedupe \<Rightarrow> string list" where
  "recent d = (if filled d < length (order d) then take (filled d) (order d)
     else drop (idx d) (order d) @ take (idx d) (order d))"

definition dedupe_inv :: "dedupe \<Rightarrow> bool" where
  "dedupe_inv d \<longleftrightarrow> idx d < length (order d) \<and> filled d \<le> length (order d)
     \<and> (filled d < length (order d) \<longrightarrow> idx d = filled d)
     \<and> seen d = set (recent d) \<and> distinct (recent d)"

text \<open>Handling a sequence of deliveries.\<close>

fun Seen_all :: "string list \<Rightarrow> dedupe \<Rightarrow> dedupe" where
  "Seen_all [] d = d"
| "Seen_all (i # is) d = Seen_all is (snd (Seen i d))"

fun Seen_answers :: "string list \<Rightarrow> dedupe \<Rightarrow> bool list" where
  "Seen_answers [] d = []"
| "Seen_answers (i # is) d = fst (Seen i d) # Seen_answers is (snd (Seen i d))"

fun spec_answers :: "nat \<Rightarrow> string list \<Rightarrow> string list \<Rightarrow> bool list" where
  "spec_answers cap [] xs = []"
| "spec_answers cap (i # is) xs =
     fst (seen_spec cap i xs) # spec_answers cap is (snd (seen_spec cap i xs))"

section \<open>The in-process bus\<close>

text \<open>
  A subscriber's channel is the list of its buffered events, at most \<open>mem_buffer\<close> of them.
  \<open>Mem_Subscribe\<close> is the registration of mem.go lines 44-53, \<open>Mem_Recv\<close> one turn of its \<open>select\<close>
  loop that takes an event and \<open>Mem_Cancel\<close> the deferred removal when its context is done.
\<close>

definition mem_buffer :: nat where "mem_buffer = 256"

record mem =
  subs :: "(nat \<times> event list) list"
  nextID :: nat
  mem_closed :: bool

definition NewMem :: mem where
  "NewMem = \<lparr>subs = [], nextID = 0, mem_closed = False\<rparr>"

definition mem_offer :: "event \<Rightarrow> event list \<Rightarrow> event list" where
  "mem_offer ev ch = (if length ch < mem_buffer then ch @ [ev] else ch)"

definition Mem_Publish :: "event \<Rightarrow> mem \<Rightarrow> mem" where
  "Mem_Publish ev m = m\<lparr>subs := map (\<lambda>(i, ch). (i, mem_offer ev ch)) (subs m)\<rparr>"

definition Mem_Subscribe :: "mem \<Rightarrow> nat option \<times> mem" where
  "Mem_Subscribe m =
     (if mem_closed m then (None, m)
      else (Some (nextID m),
            m\<lparr>nextID := nextID m + 1, subs := AList.update (nextID m) [] (subs m)\<rparr>))"

definition Mem_Recv :: "nat \<Rightarrow> mem \<Rightarrow> event option \<times> mem" where
  "Mem_Recv i m = (case map_of (subs m) i of
       Some (ev # ch) \<Rightarrow> (Some ev, m\<lparr>subs := AList.update i ch (subs m)\<rparr>)
     | _ \<Rightarrow> (None, m))"

definition Mem_Cancel :: "nat \<Rightarrow> mem \<Rightarrow> mem" where
  "Mem_Cancel i m = m\<lparr>subs := AList.delete i (subs m)\<rparr>"

definition Mem_Close :: "mem \<Rightarrow> mem" where
  "Mem_Close m = m\<lparr>mem_closed := True\<rparr>"

text \<open>
  The no-op bus drops every event and never delivers one: \<open>Subscribe\<close> waits until its context is cancelled
  and returns the error of the context, without a call of the handler.
\<close>

definition Nop_Publish :: "event \<Rightarrow> go_error option" where
  "Nop_Publish ev = None"

definition Nop_Subscribe :: "(event \<Rightarrow> 's \<Rightarrow> 's) \<Rightarrow> go_error \<Rightarrow> 's \<Rightarrow> go_error option \<times> 's" where
  "Nop_Subscribe handler ctxErr s = (Some ctxErr, s)"

definition Nop_Close :: "go_error option" where
  "Nop_Close = None"

datatype mem_act = MPublish event | MSubscribe | MRecv nat | MCancel nat | MClose

fun mem_step :: "mem_act \<Rightarrow> mem \<Rightarrow> mem" where
  "mem_step (MPublish ev) m = Mem_Publish ev m"
| "mem_step MSubscribe m = snd (Mem_Subscribe m)"
| "mem_step (MRecv i) m = snd (Mem_Recv i m)"
| "mem_step (MCancel i) m = Mem_Cancel i m"
| "mem_step MClose m = Mem_Close m"

fun mem_run :: "mem_act list \<Rightarrow> mem \<Rightarrow> mem" where
  "mem_run [] m = m"
| "mem_run (a # as) m = mem_run as (mem_step a m)"

text \<open>What a run hands to subscriber \<open>i\<close>'s handler, and what it publishes, in order.\<close>

fun handed :: "nat \<Rightarrow> mem_act \<Rightarrow> mem \<Rightarrow> event list" where
  "handed i (MRecv j) m = (if i = j then (case fst (Mem_Recv j m) of None \<Rightarrow> [] | Some ev \<Rightarrow> [ev]) else [])"
| "handed i a m = []"

fun delivered :: "nat \<Rightarrow> mem_act list \<Rightarrow> mem \<Rightarrow> event list" where
  "delivered i [] m = []"
| "delivered i (a # as) m = handed i a m @ delivered i as (mem_step a m)"

fun publication :: "mem_act \<Rightarrow> event list" where
  "publication (MPublish ev) = [ev]"
| "publication a = []"

definition published :: "mem_act list \<Rightarrow> event list" where
  "published as = concat (map publication as)"

definition mem_inv :: "mem \<Rightarrow> bool" where
  "mem_inv m \<longleftrightarrow> gomap_ok (subs m) \<and> 
     (\<forall>i ch. map_of (subs m) i = Some ch \<longrightarrow> i < nextID m \<and> length ch \<le> mem_buffer)"

section \<open>Dedupe refines its specification\<close>

lemma recent_length: "dedupe_inv d \<Longrightarrow> length (recent d) = filled d"
  by (auto simp: dedupe_inv_def recent_def)

lemma dedupe_inv_New [inv_intros]: "dedupe_inv (NewDedupe c)"
  by (auto simp: dedupe_inv_def NewDedupe_def recent_def Let_def)

lemma order_length_Seen [simp]: "length (order (snd (Seen i d))) = length (order d)"
  by (simp add: Seen_def Let_def)

text \<open>Writing the slot after the ring's last one, in the two ways the ring can stand.\<close>

lemma recent_fill:
  assumes "filled d < length (order d)" "idx d = filled d"
    and "order d' = (order d)[idx d := i]" "filled d' = Suc (filled d)"
    and "idx d' = (idx d + 1) mod length (order d)"
  shows "recent d' = recent d @ [i]"
proof -
  have "take (Suc (filled d)) ((order d)[filled d := i]) = take (filled d) (order d) @ [i]"
    using assms(1) by (simp add: take_Suc_conv_app_nth)
  moreover have "Suc (filled d) = length (order d) \<Longrightarrow>
      (order d)[filled d := i] = take (filled d) (order d) @ [i]"
    using calculation by simp
  ultimately show ?thesis
    using assms by (cases "Suc (filled d) = length (order d)") (auto simp: recent_def)
qed

lemma recent_full:
  assumes "filled d = length (order d)" "idx d < length (order d)"
    and "order d' = (order d)[idx d := i]" "filled d' = filled d"
    and "idx d' = (idx d + 1) mod length (order d)"
  shows "recent d' = tl (recent d) @ [i]" and "hd (recent d) = order d ! idx d"
proof -
  let ?o = "order d" and ?n = "idx d"
  have o: "?o = take ?n ?o @ ?o ! ?n # drop (Suc ?n) ?o"
    using assms(2) by (rule id_take_nth_drop)
  have o': "?o[?n := i] = take ?n ?o @ i # drop (Suc ?n) ?o"
    using assms(2) by (simp add: upd_conv_take_nth_drop)
  have r: "recent d = ?o ! ?n # drop (Suc ?n) ?o @ take ?n ?o"
    using assms(1,2) by (simp add: recent_def Cons_nth_drop_Suc)
  then show "hd (recent d) = ?o ! ?n" by simp
  have n: "length (take ?n ?o) = ?n" using assms(2) by simp
  show "recent d' = tl (recent d) @ [i]"
  proof (cases "Suc ?n = length ?o")
    case True
    then show ?thesis using assms o' r by (simp add: recent_def [of d'])
  next
    case False
    then have "idx d' = Suc ?n" using assms(2,5) by simp
    moreover have "drop (Suc ?n) (take ?n ?o @ i # drop (Suc ?n) ?o) = drop (Suc ?n) ?o"
      using n by simp
    moreover have "take (Suc ?n) (take ?n ?o @ i # drop (Suc ?n) ?o) = take ?n ?o @ [i]"
      using n by simp
    ultimately show ?thesis using assms r o' by (simp add: recent_def [of d'])
  qed
qed

lemma Seen_hit: "i \<in> seen d \<Longrightarrow> Seen i d = (True, d)"
  by (simp add: Seen_def)

lemma Seen_fields:
  assumes "i \<notin> seen d" "Seen i d = (b, d')"
  shows "\<not> b" "order d' = (order d)[idx d := i]" "idx d' = (idx d + 1) mod length (order d)"
    "filled d' = (if filled d = length (order d) then filled d else Suc (filled d))"
    "seen d' = insert i (if filled d = length (order d) then seen d - {order d ! idx d} else seen d)"
  using assms by (auto simp: Seen_def Let_def)

lemma Seen_refines:
  assumes inv: "dedupe_inv d" and run: "Seen i d = (b, d')"
  shows "dedupe_inv d' \<and> seen_spec (length (order d)) i (recent d) = (b, recent d')"
proof (cases "i \<in> seen d")
  case True
  with inv run show ?thesis by (auto simp: Seen_hit seen_spec_def dedupe_inv_def)
next
  case False
  note f = Seen_fields [OF False run]
  have i: "i \<notin> set (recent d)" "idx d < length (order d)" "distinct (recent d)"
      "seen d = set (recent d)"
    using inv False by (auto simp: dedupe_inv_def)
  show ?thesis
  proof (cases "filled d = length (order d)")
    case True
    note full = recent_full [OF True i(2) f(2) _ f(3)]
    have "filled d' = filled d" using f(4) True by simp
    note r = full(1) [OF this] and h = full(2) [OF this]
    have "recent d \<noteq> []" using recent_length [OF inv] True i(2) by auto
    then obtain x xs where x: "recent d = x # xs" by (cases "recent d") auto
    have "x = order d ! idx d" using h x by simp
    then have "seen d' = set (recent d')" using f(5) True r x i by auto
    moreover have "idx d' < length (order d')"
      using f(2,3) i(2) by (simp add: ring_succ_less)
    ultimately show ?thesis
      using f r x i True recent_length [OF inv] by (auto simp: dedupe_inv_def seen_spec_def)
  next
    case nf: False
    then have lt: "filled d < length (order d)" "idx d = filled d"
      using inv by (auto simp: dedupe_inv_def)
    have r: "recent d' = recent d @ [i]"
      using lt f(2) f(4) f(3) nf by (intro recent_fill) auto
    have "idx d' < length (order d')" "filled d' < length (order d') \<longrightarrow> idx d' = filled d'"
      using f lt nf by (auto simp: ring_succ_less)
    then show ?thesis
      using f r i lt nf recent_length [OF inv]
      by (auto simp: dedupe_inv_def seen_spec_def ring_succ_less)
  qed
qed

lemma Seen_inv [inv_intros]: "dedupe_inv d \<Longrightarrow> dedupe_inv (snd (Seen i d))"
  using Seen_refines [of d i "fst (Seen i d)" "snd (Seen i d)"] by simp

lemma recent_Seen:
  "dedupe_inv d \<Longrightarrow> recent (snd (Seen i d)) = snd (seen_spec (length (order d)) i (recent d))"
  using Seen_refines [of d i "fst (Seen i d)" "snd (Seen i d)"] by simp

text \<open>An ID stays remembered at least \<open>cap - 1\<close> deliveries after it was first seen.\<close>

lemma remembered_after:
  assumes "dedupe_inv d" "recent d = xs @ i # ys" "length ys + length is < length (order d)"
  shows "i \<in> seen (Seen_all is d)"
  using assms
proof (induction "is" arbitrary: d xs ys)
  case Nil
  then show ?case by (auto simp: dedupe_inv_def)
next
  case (Cons j js)
  let ?d = "snd (Seen j d)"
  have inv: "dedupe_inv ?d" using Cons.prems(1) by (rule Seen_inv)
  show ?case
  proof (cases "j \<in> set (recent d)")
    case True
    then have "recent ?d = xs @ i # ys"
      using recent_Seen [OF Cons.prems(1), of j] Cons.prems(2) by (auto simp: seen_spec_def)
    then show ?thesis using Cons.IH [OF inv] Cons.prems by simp
  next
    case False
    show ?thesis
    proof (cases "length (recent d) = length (order d)")
      case True
      then have "xs \<noteq> []" using Cons.prems by auto
      then have "recent ?d = tl xs @ i # (ys @ [j])"
        using recent_Seen [OF Cons.prems(1), of j] False True Cons.prems(2)
        by (auto simp: seen_spec_def)
      from Cons.IH [OF inv this] show ?thesis using Cons.prems(3) by simp
    next
      case nf: False
      then have "recent ?d = xs @ i # (ys @ [j])"
        using recent_Seen [OF Cons.prems(1), of j] False Cons.prems(2)
        by (auto simp: seen_spec_def)
      from Cons.IH [OF inv this] show ?thesis using Cons.prems(3) by simp
    qed
  qed
qed

lemma Seen_answers_refine:
  "dedupe_inv d \<Longrightarrow> Seen_answers is d = spec_answers (length (order d)) is (recent d)"
proof (induction "is" arbitrary: d)
  case (Cons i js)
  let ?d = "snd (Seen i d)"
  have "seen_spec (length (order d)) i (recent d) = (fst (Seen i d), recent ?d)"
    using Seen_refines [OF Cons.prems, of i] by simp
  then show ?case using Cons.IH [OF Seen_inv [OF Cons.prems]] by simp
qed simp

text \<open>
  C28: the ring buffer of \<open>NewDedupe\<close> and \<open>Seen\<close> answers every sequence of deliveries exactly as a
  list of the last \<open>capacity\<close> (at least one) distinct IDs does: an ID counts as seen iff it is
  among the IDs recorded last, and the empty string is an ID like any other.
\<close>

theorem dedupe_is_window:
  "Seen_answers is (NewDedupe c) = spec_answers (nat (max 1 c)) is []"
proof -
  have "recent (NewDedupe c) = []" "length (order (NewDedupe c)) = nat (max 1 c)"
    by (auto simp: NewDedupe_def recent_def Let_def)
  then show ?thesis using Seen_answers_refine [OF dedupe_inv_New] by simp
qed

text \<open>
  An ID that \<open>Seen\<close> has just recorded is recognised when it is delivered again after fewer
  than \<open>capacity\<close> other deliveries, whatever these are, in every state of the ring.
\<close>

theorem redelivery_suppressed:
  assumes "dedupe_inv d" "\<not> fst (Seen i d)" "length is < length (order d)"
  shows "fst (Seen i (Seen_all is (snd (Seen i d))))"
proof -
  let ?d = "snd (Seen i d)"
  have inv: "dedupe_inv ?d" using assms(1) by (rule Seen_inv)
  have "i \<notin> seen d" using assms(2) by (auto simp: Seen_hit)
  then have "recent ?d = butlast (recent ?d) @ i # []"
    using recent_Seen [OF assms(1), of i] assms(1) by (auto simp: seen_spec_def dedupe_inv_def)
  from remembered_after [OF inv this] assms(3) have "i \<in> seen (Seen_all is ?d)" by simp
  then show ?thesis by (simp add: Seen_hit)
qed

theorem redelivery_suppressed_witness:
  "fst (Seen ''a'' (Seen_all [''b''] (snd (Seen ''a'' (NewDedupe 2)))))"
  by (rule redelivery_suppressed) (simp_all add: dedupe_inv_New, simp_all add: Seen_def NewDedupe_def)

section \<open>The in-process bus delivers in order\<close>

lemma map_of_publish:
  "map_of (subs (Mem_Publish ev m)) i = map_option (mem_offer ev) (map_of (subs m) i)"
  by (simp add: Mem_Publish_def map_of_map)

lemma mem_inv_New [inv_intros]: "mem_inv NewMem"
  by (simp add: mem_inv_def NewMem_def)

lemma mem_inv_publish: "mem_inv m \<Longrightarrow> mem_inv (Mem_Publish ev m)"
  using map_of_publish [of ev m]
  by (auto simp: mem_inv_def mem_offer_def gomap_ok_def Mem_Publish_def comp_def case_prod_beta)

lemma mem_inv_subscribe: "mem_inv m \<Longrightarrow> mem_inv (snd (Mem_Subscribe m))"
  by (auto simp: mem_inv_def Mem_Subscribe_def less_SucI split: if_splits)

lemma mem_inv_recv: "mem_inv m \<Longrightarrow> mem_inv (snd (Mem_Recv i m))"
  by (fastforce simp: mem_inv_def Mem_Recv_def split: option.splits list.splits if_splits)

lemma mem_inv_cancel: "mem_inv m \<Longrightarrow> mem_inv (Mem_Cancel i m)"
  by (auto simp: mem_inv_def Mem_Cancel_def)

lemmas mem_inv_ops = mem_inv_publish mem_inv_subscribe mem_inv_recv mem_inv_cancel

lemma mem_inv_close: "mem_inv m \<Longrightarrow> mem_inv (Mem_Close m)"
  by (simp add: mem_inv_def Mem_Close_def)

lemma mem_inv_step [inv_intros]: "mem_inv m \<Longrightarrow> mem_inv (mem_step a m)"
  by (cases a) (simp_all add: mem_inv_ops mem_inv_close)

lemma mem_inv_run: "mem_inv m \<Longrightarrow> mem_inv (mem_run as m)"
  by (induction as m rule: mem_run.induct) (simp_all add: mem_inv_step)

lemma mem_step_in_order:
  assumes "mem_inv m" "map_of (subs m) i = Some ch" "a \<noteq> MCancel i"
  shows "\<exists>ch'. map_of (subs (mem_step a m)) i = Some ch'
    \<and> subseq (handed i a m @ ch') (ch @ publication a)"
proof (cases a)
  case (MPublish ev)
  then show ?thesis using assms map_of_publish [of ev m i]
    by (simp add: mem_offer_def prefix_imp_subseq)
next
  case MSubscribe
  then show ?thesis using assms by (auto simp: Mem_Subscribe_def mem_inv_def)
next
  case (MRecv j)
  then show ?thesis using assms
    by (auto simp: Mem_Recv_def split: option.splits list.splits)
next
  case (MCancel j)
  then show ?thesis using assms by (simp add: Mem_Cancel_def)
next
  case MClose
  then show ?thesis using assms by (simp add: Mem_Close_def)
qed

lemma mem_run_in_order:
  assumes "mem_inv m" "map_of (subs m) i = Some ch" "MCancel i \<notin> set as"
  shows "\<exists>ch'. map_of (subs (mem_run as m)) i = Some ch'
    \<and> subseq (delivered i as m @ ch') (ch @ published as)"
  using assms
proof (induction as arbitrary: m ch)
  case Nil
  then show ?case by (simp add: published_def)
next
  case (Cons a as)
  obtain c where c: "map_of (subs (mem_step a m)) i = Some c"
    and s1: "subseq (handed i a m @ c) (ch @ publication a)"
    using mem_step_in_order [OF Cons.prems(1,2), of a] Cons.prems(3) by auto
  obtain ch' where ch': "map_of (subs (mem_run as (mem_step a m))) i = Some ch'"
    and s2: "subseq (delivered i as (mem_step a m) @ ch') (c @ published as)"
    using Cons.IH [OF mem_inv_step [OF Cons.prems(1)] c] Cons.prems(3) by auto
  have "subseq (handed i a m @ delivered i as (mem_step a m) @ ch')
      ((handed i a m @ c) @ published as)"
    using s2 by (simp add: subseq_append')
  also have "subseq \<dots> ((ch @ publication a) @ published as)"
    using s1 by (rule list_emb_append_mono) simp
  finally show ?case using ch' by (simp add: published_def)
qed

text \<open>
  C32: the in-process bus hands each subscriber an in-order selection of the events published
  while it is registered: nothing is duplicated, reordered or made up, whatever the other
  subscribers, publishers and \<open>Close\<close> do meanwhile, and at most 256 events wait for it.
\<close>

theorem mem_bus_in_order:
  assumes "Mem_Subscribe (mem_run as NewMem) = (Some i, m)" "MCancel i \<notin> set bs"
  shows "subseq (delivered i bs m) (published bs) \<and>
    (\<exists>ch. map_of (subs (mem_run bs m)) i = Some ch \<and> length ch \<le> mem_buffer)"
proof -
  have inv0: "mem_inv (mem_run as NewMem)" by (intro mem_inv_run mem_inv_New)
  have inv: "mem_inv m" using mem_inv_subscribe [OF inv0] assms(1) by simp
  have "map_of (subs m) i = Some []"
    using assms(1) by (auto simp: Mem_Subscribe_def split: if_splits)
  from mem_run_in_order [OF inv this assms(2)] obtain ch'
    where ch': "map_of (subs (mem_run bs m)) i = Some ch'"
      and s: "subseq (delivered i bs m @ ch') (published bs)" by auto
  have "subseq (delivered i bs m) (delivered i bs m @ ch')"
    by (simp add: prefix_imp_subseq)
  then have "subseq (delivered i bs m) (published bs)" using s by (rule subseq_order.trans)
  then show ?thesis using ch' mem_inv_run [OF inv, of bs] by (auto simp: mem_inv_def)
qed

definition demo_event :: "string \<Rightarrow> event" where
  "demo_event i = \<lparr>ID = i, Kind = KindKey, Keys = [''k''], Tag = [], EVersion = 1,
     OriginID = ''a'', EmittedAt = 0\<rparr>"

theorem mem_bus_in_order_witness:
  "Mem_Subscribe (mem_run [MPublish (demo_event ''0''), MSubscribe] NewMem)
     = (Some 1, \<lparr>subs = [(0, []), (1, [])], nextID = 2, mem_closed = False\<rparr>)
   \<and> subseq (delivered 1 [MPublish (demo_event ''1''), MRecv 1]
       \<lparr>subs = [(0, []), (1, [])], nextID = 2, mem_closed = False\<rparr>)
     (published [MPublish (demo_event ''1''), MRecv 1])
   \<and> delivered 1 [MPublish (demo_event ''1''), MRecv 1]
       \<lparr>subs = [(0, []), (1, [])], nextID = 2, mem_closed = False\<rparr> = [demo_event ''1'']"
proof -
  have "Mem_Subscribe (mem_run [MPublish (demo_event ''0''), MSubscribe] NewMem)
      = (Some 1, \<lparr>subs = [(0, []), (1, [])], nextID = 2, mem_closed = False\<rparr>)"
    by (simp add: Mem_Subscribe_def NewMem_def Mem_Publish_def)
  from mem_bus_in_order [OF this, of "[MPublish (demo_event ''1''), MRecv 1]"] this
  show ?thesis
    by (simp add: Mem_Publish_def Mem_Recv_def mem_offer_def mem_buffer_def)
qed

end
