(* ===== verification/Store_Interfaces.thy ===== *)
theory Store_Interfaces
  imports Store_Entry
begin

text \<open>
  The storage contracts of store/store.go. A Go interface value is a record of its methods over
  the state of the tier behind it; an optional interface (\<open>ConditionalStore\<close>, \<open>Metrics\<close>,
  \<open>TombstoneTTLer\<close>), which the cache finds by a type assertion, is an optional field. What a tier
  promises is a locale over such a record, and what the cache needs from these promises is proved
  in the locale. The memory store interprets it; the promises of the shared tier are the abstract store
  of theory \<open>Versioned_Spec\<close>.

  A method that reads the tier's clock takes the reading as its first argument.
\<close>

record ('s, 'v) l1_ops =
  l1_Get :: "time \<Rightarrow> gokey \<Rightarrow> 's \<Rightarrow> ('v entry \<times> bool \<times> go_error option) \<times> 's"
  l1_Set :: "time \<Rightarrow> gokey \<Rightarrow> 'v entry \<Rightarrow> 's \<Rightarrow> go_error option \<times> 's"
  l1_Delete :: "gokey \<Rightarrow> 's \<Rightarrow> go_error option \<times> 's"
  l1_SetIfNewer :: "(time \<Rightarrow> gokey \<Rightarrow> 'v entry \<Rightarrow> 's \<Rightarrow> (bool \<times> go_error option) \<times> 's) option"
  l1_Metrics :: "('s \<Rightarrow> u64 \<times> int) option"

record ('s, 'v) l2_ops =
  l2_Load :: "gokey \<Rightarrow> 's \<Rightarrow> ('v entry \<times> bool \<times> go_error option) \<times> 's"
  l2_SetCAS :: "gokey \<Rightarrow> 'v \<Rightarrow> u64 \<Rightarrow> time \<Rightarrow> time \<Rightarrow> string list \<Rightarrow> 's \<Rightarrow> (go_error + 'v entry) \<times> 's"
  l2_CompareAndDelete :: "gokey \<Rightarrow> u64 \<Rightarrow> 's \<Rightarrow> (u64 \<times> bool \<times> go_error option) \<times> 's"
  l2_DeleteByTag :: "string \<Rightarrow> 's \<Rightarrow> (gokey list \<times> go_error option) \<times> 's"
  l2_TombstoneTTL :: "duration option"

section \<open>The contract of an L1 tier\<close>

text \<open>
  \<open>held s k\<close> is what the tier stores for \<open>k\<close>. It is an accelerator: every operation may drop
  entries, none may invent one. \<open>Set\<close> and \<open>SetIfNewer\<close> leave the new entry in place, \<open>Delete\<close>
  removes exactly one key, and a refused \<open>SetIfNewer\<close> changes nothing.
\<close>

locale l1_tier =
  fixes T :: "('s, 'v::zero) l1_ops"
    and held :: "'s \<Rightarrow> gokey \<Rightarrow> 'v entry option"
    and ok :: "'s \<Rightarrow> bool"
  assumes get_law: "ok s \<Longrightarrow> l1_Get T now k s = ((e, found, err), s') \<Longrightarrow>
      ok s' \<and> held s' \<subseteq>\<^sub>m held s \<and> err = None
      \<and> (if found then held s k = Some e \<and> held s' k = Some e \<and> \<not> Expired e now
         else \<forall>d. held s k = Some d \<longrightarrow> Expired d now)"
    and set_law: "ok s \<Longrightarrow> l1_Set T now k e s = (err, s') \<Longrightarrow>
      ok s' \<and> held s' \<subseteq>\<^sub>m (held s)(k \<mapsto> e) \<and> held s' k = Some e \<and> err = None"
    and delete_law: "ok s \<Longrightarrow> l1_Delete T k s = (err, s') \<Longrightarrow>
      ok s' \<and> held s' = (held s)(k := None) \<and> err = None"
    and install_law: "ok s \<Longrightarrow> l1_SetIfNewer T = Some f \<Longrightarrow> f now k e s = ((b, err), s') \<Longrightarrow>
      ok s' \<and> err = None \<and>
      (if b then held s' \<subseteq>\<^sub>m (held s)(k \<mapsto> e) \<and> held s' k = Some e
         \<and> (\<forall>d. held s k = Some d \<longrightarrow> Expired d now \<or> Version d < Version e)
       else s' = s \<and> (\<exists>d. held s k = Some d \<and> \<not> Expired d now \<and> Version e \<le> Version d))"
begin

definition all_held :: "(gokey \<Rightarrow> 'v entry \<Rightarrow> bool) \<Rightarrow> 's \<Rightarrow> bool" where
  "all_held P s \<longleftrightarrow> (\<forall>k e. held s k = Some e \<longrightarrow> P k e)"

lemma all_held_le: "all_held P s \<Longrightarrow> held s' \<subseteq>\<^sub>m held s \<Longrightarrow> all_held P s'"
  by (metis (no_types) all_held_def domI map_le_def)

lemma all_held_upd:
  assumes "all_held P s" "held s' \<subseteq>\<^sub>m (held s)(k \<mapsto> e)" "P k e"
  shows "all_held P s'"
  unfolding all_held_def
proof (intro allI impI)
  fix j d assume j: "held s' j = Some d"
  then have "((held s)(k \<mapsto> e)) j = Some d" using assms(2) by (metis domI map_le_def)
  then show "P j d" using assms(1,3) by (auto simp: all_held_def split: if_splits)
qed

lemma get_all_held:
  "ok s \<Longrightarrow> all_held P s \<Longrightarrow> all_held P (snd (l1_Get T now k s))"
  using get_law [of s now k] all_held_le by (metis prod.collapse)

lemma set_all_held:
  "ok s \<Longrightarrow> all_held P s \<Longrightarrow> P k e \<Longrightarrow> all_held P (snd (l1_Set T now k e s))"
  using set_law [of s now k e] all_held_upd by (metis prod.collapse)

lemma delete_all_held:
  "ok s \<Longrightarrow> all_held P s \<Longrightarrow> all_held P (snd (l1_Delete T k s))"
  using delete_law [of s k] by (metis all_held_def fun_upd_apply option.distinct(1) prod.collapse)

lemma install_all_held:
  assumes "ok s" "l1_SetIfNewer T = Some f" "all_held P s" "P k e"
  shows "all_held P (snd (f now k e s))"
proof -
  obtain b err s' where "f now k e s = ((b, err), s')" by (metis prod.collapse)
  with install_law [OF assms(1,2) this] all_held_upd [of P s s' k e] assms(3,4)
  show ?thesis by (cases b) auto
qed

end

end
