(* ===== verification/Refresh.thy ===== *)
theory Refresh
  imports Nimbus_Prelude "HOL-Library.Multiset"
begin

text \<open>
  Scheduling of revalidations, refresh/: the interface (refresh.go), the worker pool fed by a bounded
  queue (background.go) and the detached goroutines bounded by a semaphore (request_bound.go).

  The goroutines are explicit: a worker or a task has a phase that says which of its statements is
  next, and one step of the system is one statement of one goroutine, or one critical section of a
  caller. A step relation with labels, so that every interleaving is a run, carries the invariants.
  A job is opaque, a value that stands for the closure; running it is not modelled here.
\<close>

record ('r, 'j) refresher_ops =
  ref_Schedule :: "gokey \<Rightarrow> 'j \<Rightarrow> 'r \<Rightarrow> bool \<times> 'r"
  ref_Close :: "'r \<Rightarrow> go_error option \<times> 'r"

section \<open>The contract of \<open>Schedule\<close>\<close>

text \<open>
  refresh.go: a refresh is launched only if none is in flight for the key; a suppressed one changes
  nothing; nothing is launched after closing; and an implementation has a bound on what is in flight.
\<close>

locale scheduler =
  fixes sched :: "gokey \<Rightarrow> 'j \<Rightarrow> 's \<Rightarrow> bool \<times> 's"
    and flying :: "'s \<Rightarrow> gokey set"
    and shut :: "'s \<Rightarrow> bool"
    and good :: "'s \<Rightarrow> bool"
    and limit :: "'s \<Rightarrow> nat"
  assumes launched: "good s \<Longrightarrow> sched k j s = (True, s') \<Longrightarrow>
      good s' \<and> k \<notin> flying s \<and> flying s' = insert k (flying s) \<and> \<not> shut s \<and> shut s' = shut s \<and> limit s' = limit s"
    and suppressed: "sched k j s = (False, s') \<Longrightarrow> s' = s"
    and bounded: "good s \<Longrightarrow> finite (flying s) \<and> card (flying s) \<le> limit s"
begin

fun batch :: "(gokey \<times> 'j) list \<Rightarrow> 's \<Rightarrow> gokey list \<times> 's" where
  "batch [] s = ([], s)"
| "batch ((k, j) # js) s =
     (let (b, s1) = sched k j s; (ks, s2) = batch js s1 in (if b then k # ks else ks, s2))"

text \<open>Of a burst of requests in which nothing finishes, no key is launched twice, and the bound holds.\<close>

lemma batch_launches:
  "good s \<Longrightarrow> batch js s = (ks, s') \<Longrightarrow>
    good s' \<and> distinct ks \<and> set ks \<inter> flying s = {} \<and> flying s' = set ks \<union> flying s
    \<and> limit s' = limit s \<and> (shut s \<longrightarrow> ks = [])"
proof (induction js arbitrary: s ks)
  case (Cons kj js)
  obtain k j b s1 ks1 where d: "kj = (k, j)" "sched k j s = (b, s1)" "batch js s1 = (ks1, s')"
      "ks = (if b then k # ks1 else ks1)"
    using Cons.prems(2) by (cases kj) (auto split: prod.splits)
  show ?case
  proof (cases b)
    case True
    have l: "good s1" "k \<notin> flying s" "flying s1 = insert k (flying s)" "\<not> shut s" "limit s1 = limit s"
      using launched [OF Cons.prems(1)] d(2) True by auto
    then show ?thesis using Cons.IH [OF l(1) d(3)] d(4) True by auto
  next
    case False
    then have "s1 = s" using suppressed [of k j s s1] d(2) by simp
    then show ?thesis using Cons.IH [of s ks1] Cons.prems(1) d False by simp
  qed
qed simp

lemma batch_bound:
  assumes "good s" "batch js s = (ks, s')"
  shows "length ks + card (flying s) \<le> limit s"
proof -
  note b = batch_launches [OF assms]
  have "card (flying s') = length ks + card (flying s)"
    using b bounded [OF assms(1)] by (simp add: card_Un_disjoint distinct_card)
  then show ?thesis using b bounded [of s'] by auto
qed

end

section \<open>Background\<close>

datatype 'j worker = Idle | Running gokey 'j | Ran gokey | Exited

record 'j background =
  jobs :: "(gokey \<times> 'j) list"
  queueSize :: nat
  bg_timeout :: duration
  bg_inflight :: "gokey list"
  closing :: bool
  pool :: "'j worker list"

definition NewBackground :: "int \<Rightarrow> int \<Rightarrow> duration \<Rightarrow> 'j background" where
  "NewBackground workers qsize timeout =
     (let workers = (if workers < 1 then 1 else workers);
          qsize = (if qsize < 1 then 1 else qsize)
      in \<lparr>jobs = [], queueSize = nat qsize, bg_timeout = timeout, bg_inflight = [], closing = False,
          pool = replicate (nat workers) Idle\<rparr>)"

text \<open>The deadline of the context a job runs under; without a timeout it has none.\<close>

definition Background_context :: "'j background \<Rightarrow> time \<Rightarrow> time option" where
  "Background_context b now = (if bg_timeout b \<le> 0 then None else Some (now + bg_timeout b))"

definition Background_Schedule :: "gokey \<Rightarrow> 'j \<Rightarrow> 'j background \<Rightarrow> bool \<times> 'j background" where
  "Background_Schedule key run b =
     (if closing b then (False, b)
      else if key \<in> set (bg_inflight b) then (False, b)
      else if length (jobs b) < queueSize b
      then (True, b\<lparr>jobs := jobs b @ [(key, run)], bg_inflight := key # bg_inflight b\<rparr>)
      else (False, b))"

text \<open>
  The statements of \<open>worker\<close>: receive, return of the run, deletion from the map, end of the range. A run
  returns in a step of its own, \<open>worker_ran\<close>, which a run of the pool need never take: a job may ignore
  its context, and without a timeout its context is never cancelled. A worker whose job never returns
  stays \<open>Running\<close> for ever.
\<close>

definition worker_recv :: "nat \<Rightarrow> 'j background \<Rightarrow> 'j background option" where
  "worker_recv i b = (case jobs b of
       (k, j) # js \<Rightarrow> if i < length (pool b) \<and> pool b ! i = Idle
         then Some (b\<lparr>jobs := js, pool := (pool b)[i := Running k j]\<rparr>) else None
     | [] \<Rightarrow> None)"

definition worker_ran :: "nat \<Rightarrow> 'j background \<Rightarrow> 'j background option" where
  "worker_ran i b = (if i < length (pool b) then (case pool b ! i of
       Running k j \<Rightarrow> Some (b\<lparr>pool := (pool b)[i := Ran k]\<rparr>) | _ \<Rightarrow> None) else None)"

definition worker_delete :: "nat \<Rightarrow> 'j background \<Rightarrow> 'j background option" where
  "worker_delete i b = (if i < length (pool b) then (case pool b ! i of
       Ran k \<Rightarrow> Some (b\<lparr>pool := (pool b)[i := Idle], bg_inflight := removeAll k (bg_inflight b)\<rparr>)
     | _ \<Rightarrow> None) else None)"

definition worker_exit :: "nat \<Rightarrow> 'j background \<Rightarrow> 'j background option" where
  "worker_exit i b = (if i < length (pool b) \<and> pool b ! i = Idle \<and> closing b \<and> jobs b = []
     then Some (b\<lparr>pool := (pool b)[i := Exited]\<rparr>) else None)"

text \<open>
  \<open>Close\<close> up to the wait; it returns (always nil) at once if closing, else when every worker exited.
\<close>

definition Background_Close :: "'j background \<Rightarrow> 'j background" where
  "Background_Close b = (if closing b then b else b\<lparr>closing := True\<rparr>)"

definition pool_done :: "'j background \<Rightarrow> bool" where
  "pool_done b \<longleftrightarrow> (\<forall>w \<in> set (pool b). w = Exited)"

datatype 'j bg_act = BSchedule gokey 'j bool | BRecv nat gokey 'j | BRan nat | BDelete nat | BExit nat | BClose

inductive bg_step :: "'j background \<Rightarrow> 'j bg_act \<Rightarrow> 'j background \<Rightarrow> bool" where
  bg_sched: "Background_Schedule k j b = (r, b') \<Longrightarrow> bg_step b (BSchedule k j r) b'"
| bg_recv: "worker_recv i b = Some b' \<Longrightarrow> jobs b = (k, j) # js \<Longrightarrow> bg_step b (BRecv i k j) b'"
| bg_ran: "worker_ran i b = Some b' \<Longrightarrow> bg_step b (BRan i) b'"
| bg_delete: "worker_delete i b = Some b' \<Longrightarrow> bg_step b (BDelete i) b'"
| bg_exit: "worker_exit i b = Some b' \<Longrightarrow> bg_step b (BExit i) b'"
| bg_close: "bg_step b BClose (Background_Close b)"

inductive bg_run :: "'j background \<Rightarrow> 'j bg_act list \<Rightarrow> 'j background \<Rightarrow> bool" where
  bg_run_Nil: "bg_run b [] b"
| bg_run_step: "bg_run b as b1 \<Longrightarrow> bg_step b1 a b2 \<Longrightarrow> bg_run b (as @ [a]) b2"

inductive_cases bg_stepE: "bg_step b a b'"

text \<open>The invariant: a key is in the map exactly when one queued job or one worker has it.\<close>

fun carries :: "gokey \<Rightarrow> 'j worker \<Rightarrow> nat" where
  "carries k (Running k' j) = (if k = k' then 1 else 0)"
| "carries k (Ran k') = (if k = k' then 1 else 0)"
| "carries k _ = 0"

definition occurs :: "gokey \<Rightarrow> 'j background \<Rightarrow> nat" where
  "occurs k b = count_list (map fst (jobs b)) k + sum_list (map (carries k) (pool b))"

definition bg_inv :: "'j background \<Rightarrow> bool" where
  "bg_inv b \<longleftrightarrow> (\<forall>k. occurs k b = (if k \<in> set (bg_inflight b) then 1 else 0))
     \<and> length (jobs b) \<le> queueSize b
     \<and> (Exited \<in> set (pool b) \<longrightarrow> closing b \<and> jobs b = [])"

lemma sum_list_map_update:
  "i < length ws \<Longrightarrow> sum_list (map f (ws[i := w])) + f (ws ! i) = sum_list (map f ws) + (f w :: nat)"
  by (induction ws arbitrary: i) (auto split: nat.splits simp: less_Suc_eq_0_disj)

lemma bg_inv_new: "bg_inv (NewBackground w q t)"
  by (auto simp: bg_inv_def NewBackground_def Let_def occurs_def sum_list_replicate)

lemma bg_inv_Schedule:
  assumes "bg_inv b" "Background_Schedule k j b = (r, b')" shows "bg_inv b'"
proof (cases r)
  case True
  then have b: "b' = b\<lparr>jobs := jobs b @ [(k, j)], bg_inflight := k # bg_inflight b\<rparr>" "\<not> closing b"
      "k \<notin> set (bg_inflight b)" "length (jobs b) < queueSize b"
    using assms(2) by (auto simp: Background_Schedule_def split: if_splits)
  have "occurs k' b' = occurs k' b + (if k' = k then 1 else 0)" for k'
    by (simp add: b(1) occurs_def)
  then show ?thesis using assms(1) b by (auto simp: bg_inv_def)
next
  case False
  then show ?thesis using assms by (auto simp: Background_Schedule_def split: if_splits)
qed

lemma occurs_update:
  assumes "i < length (pool b)"
  shows "occurs k (b\<lparr>pool := (pool b)[i := w]\<rparr>) + carries k (pool b ! i) = occurs k b + carries k w"
  using sum_list_map_update [OF assms, of "carries k" w] by (simp add: occurs_def)

lemma set_update_Exited:
  "Exited \<in> set (ws[i := w]) \<Longrightarrow> w = Exited \<or> Exited \<in> set ws"
  using set_update_subset_insert [of ws i w] by auto

lemma bg_inv_recv:
  assumes "bg_inv b" "worker_recv i b = Some b'" shows "bg_inv b'"
proof -
  obtain k j js where j: "jobs b = (k, j) # js" "i < length (pool b)" "pool b ! i = Idle"
      "b' = b\<lparr>jobs := js, pool := (pool b)[i := Running k j]\<rparr>"
    using assms(2) by (auto simp: worker_recv_def split: list.splits prod.splits if_splits)
  have "occurs k' b' = occurs k' b" for k'
    using sum_list_map_update [OF j(2), of "carries k'" "Running k j"] j by (simp add: occurs_def)
  moreover have "Exited \<notin> set (pool b')"
    using assms(1) j set_update_Exited [of "pool b" i "Running k j"] by (auto simp: bg_inv_def)
  ultimately show ?thesis using assms(1) j by (auto simp: bg_inv_def)
qed

lemma bg_inv_ran:
  assumes "bg_inv b" "worker_ran i b = Some b'" shows "bg_inv b'"
proof -
  obtain k j where j: "i < length (pool b)" "pool b ! i = Running k j" "b' = b\<lparr>pool := (pool b)[i := Ran k]\<rparr>"
    using assms(2) by (auto simp: worker_ran_def split: worker.splits if_splits)
  have "occurs k' b' = occurs k' b" for k'
    using occurs_update [OF j(1), of k' "Ran k"] j by simp
  then show ?thesis
    using assms(1) j set_update_Exited [of "pool b" i "Ran k"] by (auto simp: bg_inv_def)
qed

lemma bg_inv_delete:
  assumes "bg_inv b" "worker_delete i b = Some b'" shows "bg_inv b'"
proof -
  obtain k where j: "i < length (pool b)" "pool b ! i = Ran k"
      "b' = b\<lparr>pool := (pool b)[i := Idle], bg_inflight := removeAll k (bg_inflight b)\<rparr>"
    using assms(2) by (auto simp: worker_delete_def split: worker.splits if_splits)
  have o: "occurs k' b' + (if k' = k then 1 else 0) = occurs k' b" for k'
    using occurs_update [OF j(1), of k' Idle] j by (simp add: occurs_def)
  have "occurs k' b' = (if k' \<in> set (bg_inflight b') then 1 else 0)" for k'
    using o [of k'] assms(1) j(3) by (auto simp: bg_inv_def split: if_splits)
  then show ?thesis
    using assms(1) j set_update_Exited [of "pool b" i Idle] by (auto simp: bg_inv_def)
qed

lemma bg_inv_exit:
  assumes "bg_inv b" "worker_exit i b = Some b'" shows "bg_inv b'"
proof -
  have j: "i < length (pool b)" "pool b ! i = Idle" "closing b" "jobs b = []" "b' = b\<lparr>pool := (pool b)[i := Exited]\<rparr>"
    using assms(2) by (auto simp: worker_exit_def split: if_splits)
  have "occurs k' b' = occurs k' b" for k'
    using occurs_update [OF j(1), of k' Exited] j by simp
  then show ?thesis using assms(1) j by (auto simp: bg_inv_def)
qed

lemma bg_inv_close: "bg_inv b \<Longrightarrow> bg_inv (Background_Close b)"
  by (auto simp: bg_inv_def Background_Close_def occurs_def)

lemma bg_inv_step [inv_intros]: "bg_step b a b' \<Longrightarrow> bg_inv b \<Longrightarrow> bg_inv b'"
  by (induction rule: bg_step.induct)
    (blast intro: bg_inv_Schedule bg_inv_recv bg_inv_ran bg_inv_delete bg_inv_exit bg_inv_close)+

lemma bg_inv_run: "bg_run b as b' \<Longrightarrow> bg_inv b \<Longrightarrow> bg_inv b'"
  by (induction rule: bg_run.induct) (auto intro: bg_inv_step)

text \<open>The bounds that follow.\<close>

lemma count_keys: "finite K \<Longrightarrow> set xs \<subseteq> K \<Longrightarrow> (\<Sum>k \<in> K. count_list xs k) = length xs"
  by (rule sum_count_set)

lemma sum_carries: "finite K \<Longrightarrow> (\<Sum>k \<in> K. sum_list (map (carries k) ws)) \<le> length ws"
proof (induction ws)
  case (Cons w ws)
  have "(\<Sum>k \<in> K. carries k w) \<le> 1"
    using Cons.prems by (cases w) (simp_all add: sum.delta')
  then show ?case using Cons by (simp add: sum.distrib)
qed simp

lemma bg_inflight_bound:
  assumes "bg_inv b" shows "card (set (bg_inflight b)) \<le> queueSize b + length (pool b)"
proof -
  let ?K = "set (bg_inflight b)"
  have "k \<in> ?K" if "k \<in> set (map fst (jobs b))" for k
  proof (rule ccontr)
    assume "k \<notin> ?K"
    then have "occurs k b = 0" using assms by (simp add: bg_inv_def)
    then show False using that by (simp add: occurs_def count_list_0_iff)
  qed
  then have "(\<Sum>k \<in> ?K. count_list (map fst (jobs b)) k) = length (map fst (jobs b))"
    by (intro count_keys) auto
  moreover have "card ?K = (\<Sum>k \<in> ?K. occurs k b)" using assms by (simp add: bg_inv_def)
  moreover have "(\<Sum>k \<in> ?K. occurs k b) =
      (\<Sum>k \<in> ?K. count_list (map fst (jobs b)) k) + (\<Sum>k \<in> ?K. sum_list (map (carries k) (pool b)))"
    by (simp add: occurs_def sum.distrib)
  ultimately show ?thesis
    using sum_carries [of ?K "pool b"] assms by (simp add: bg_inv_def)
qed

interpretation background_scheduler: scheduler Background_Schedule "\<lambda>b. set (bg_inflight b)" closing bg_inv
  "\<lambda>b. queueSize b + length (pool b)"
proof unfold_locales
  fix s :: "'j background" and k j s'
  assume "bg_inv s" "Background_Schedule k j s = (True, s')"
  then show "bg_inv s' \<and> k \<notin> set (bg_inflight s) \<and> set (bg_inflight s') = insert k (set (bg_inflight s))
      \<and> \<not> closing s \<and> closing s' = closing s
      \<and> queueSize s' + length (pool s') = queueSize s + length (pool s)"
    using bg_inv_Schedule [of s k j True s'] by (auto simp: Background_Schedule_def split: if_splits)
next
  fix k and j :: 'j and s s' assume "Background_Schedule k j s = (False, s')"
  then show "s' = s" by (auto simp: Background_Schedule_def split: if_splits)
next
  fix s :: "'j background" assume "bg_inv s"
  then show "finite (set (bg_inflight s)) \<and> card (set (bg_inflight s)) \<le> queueSize s + length (pool s)"
    using bg_inflight_bound by blast
qed

text \<open>What a run launched and what its workers took from the queue, in order.\<close>

fun accepted :: "'j bg_act list \<Rightarrow> (gokey \<times> 'j) list" where
  "accepted [] = []"
| "accepted (BSchedule k j True # as) = (k, j) # accepted as"
| "accepted (_ # as) = accepted as"

fun taken :: "'j bg_act list \<Rightarrow> (gokey \<times> 'j) list" where
  "taken [] = []"
| "taken (BRecv i k j # as) = (k, j) # taken as"
| "taken (_ # as) = taken as"

lemma accepted_append [simp]: "accepted (xs @ ys) = accepted xs @ accepted ys"
  by (induction xs rule: accepted.induct) auto

lemma taken_append [simp]: "taken (xs @ ys) = taken xs @ taken ys"
  by (induction xs rule: taken.induct) auto

lemma queue_step: "bg_step b a b' \<Longrightarrow> jobs b @ accepted [a] = taken [a] @ jobs b'"
  by (erule bg_stepE)
    (auto simp: Background_Schedule_def worker_recv_def worker_ran_def worker_delete_def worker_exit_def
      Background_Close_def split: if_splits worker.splits)

lemma queue_fifo: "bg_run b as b' \<Longrightarrow> jobs b @ accepted as = taken as @ jobs b'"
proof (induction rule: bg_run.induct)
  case (bg_run_step b as b1 a b2)
  from bg_run_step.IH queue_step [OF bg_run_step.hyps(2)] show ?case
    by (metis accepted_append append_assoc taken_append)
qed simp

text \<open>What is left to do.\<close>

fun weight :: "'j worker \<Rightarrow> nat" where
  "weight Idle = 1"
| "weight (Running k j) = 3"
| "weight (Ran k) = 2"
| "weight Exited = 0"

definition work :: "'j background \<Rightarrow> nat" where
  "work b = 3 * length (jobs b) + sum_list (map weight (pool b))"

fun worker_act :: "'j bg_act \<Rightarrow> bool" where
  "worker_act (BSchedule k j r) = False"
| "worker_act BClose = False"
| "worker_act _ = True"

lemma work_decreases: "bg_step b a b' \<Longrightarrow> worker_act a \<Longrightarrow> Suc (work b') = work b"
proof (erule bg_stepE)
  fix i k j js assume a: "worker_recv i b = Some b'" "jobs b = (k, j) # js"
  then show ?thesis
    using sum_list_map_update [of i "pool b" weight "Running k j"]
    by (auto simp: worker_recv_def work_def split: if_splits)
next
  fix i assume a: "worker_ran i b = Some b'"
  then obtain k j where j: "i < length (pool b)" "pool b ! i = Running k j" "b' = b\<lparr>pool := (pool b)[i := Ran k]\<rparr>"
    by (auto simp: worker_ran_def split: worker.splits if_splits)
  then show ?thesis using sum_list_map_update [OF j(1), of weight "Ran k"] by (simp add: work_def)
next
  fix i assume a: "worker_delete i b = Some b'"
  then obtain k where j: "i < length (pool b)" "pool b ! i = Ran k"
      "b' = b\<lparr>pool := (pool b)[i := Idle], bg_inflight := removeAll k (bg_inflight b)\<rparr>"
    by (auto simp: worker_delete_def split: worker.splits if_splits)
  then show ?thesis using sum_list_map_update [OF j(1), of weight Idle] by (simp add: work_def)
next
  fix i assume a: "worker_exit i b = Some b'"
  then have j: "i < length (pool b)" "pool b ! i = Idle" "b' = b\<lparr>pool := (pool b)[i := Exited]\<rparr>"
    by (auto simp: worker_exit_def split: if_splits)
  then show ?thesis using sum_list_map_update [OF j(1), of weight Exited] by (simp add: work_def)
qed auto

text \<open>
  The moves a worker makes by itself are all but the return of its job, which is up to the job.
\<close>

fun returning :: "'j bg_act \<Rightarrow> bool" where
  "returning (BRan i) = True"
| "returning _ = False"

fun in_job :: "'j worker \<Rightarrow> bool" where
  "in_job (Running k j) = True"
| "in_job _ = False"

lemma worker_enabled:
  assumes "closing b" "w \<in> set (pool b)" "w \<noteq> Exited" "\<not> in_job w"
  shows "\<exists>a b'. worker_act a \<and> \<not> returning a \<and> bg_step b a b'"
proof -
  obtain i where i: "i < length (pool b)" "pool b ! i = w" using assms(2) by (auto simp: in_set_conv_nth)
  show ?thesis
  proof (cases w)
    case Idle
    show ?thesis
    proof (cases "jobs b")
      case Nil
      then show ?thesis
        using i Idle assms(1) by (intro exI [of _ "BExit i"]) (auto intro!: bg_exit simp: worker_exit_def)
    next
      case (Cons kj js)
      then show ?thesis
        using i Idle by (cases kj, intro exI [of _ "BRecv i (fst kj) (snd kj)"])
          (auto intro!: bg_recv simp: worker_recv_def)
    qed
  next
    case (Ran k)
    then show ?thesis
      using i by (intro exI [of _ "BDelete i"]) (auto intro!: bg_delete simp: worker_delete_def)
  qed (use assms in auto)
qed

lemma return_enabled: "in_job w \<Longrightarrow> i < length (pool b) \<Longrightarrow> pool b ! i = w \<Longrightarrow> \<exists>b'. bg_step b (BRan i) b'"
  by (cases w) (auto intro!: bg_ran simp: worker_ran_def)

lemma in_job_stays_step:
  assumes "bg_step b a b'" "a \<noteq> BRan i" "i < length (pool b)" "in_job (pool b ! i)"
  shows "pool b' ! i = pool b ! i \<and> length (pool b') = length (pool b)"
  using assms by (cases "pool b ! i") (auto elim!: bg_stepE simp: Background_Schedule_def worker_recv_def worker_ran_def
      worker_delete_def worker_exit_def Background_Close_def nth_list_update split: if_splits worker.splits list.splits)

lemma in_job_stays:
  assumes "bg_run b cs b'" "BRan i \<notin> set cs" "i < length (pool b)" "in_job (pool b ! i)"
  shows "pool b' ! i = pool b ! i \<and> length (pool b') = length (pool b)"
  using assms
proof (induction rule: bg_run.induct)
  case (bg_run_step b as b1 a b2)
  then have "pool b1 ! i = pool b ! i" "length (pool b1) = length (pool b)" "a \<noteq> BRan i" by auto
  then show ?case using in_job_stays_step [OF bg_run_step.hyps(2), of i] bg_run_step.prems by simp
qed simp

text \<open>Once the pool is closing, only the workers change it.\<close>

lemma closing_step:
  "bg_step b a b' \<Longrightarrow> closing b \<Longrightarrow> closing b' \<and> (\<not> worker_act a \<longrightarrow> b' = b)"
  by (erule bg_stepE) (auto simp: Background_Schedule_def worker_recv_def worker_ran_def worker_delete_def worker_exit_def
      Background_Close_def split: if_splits worker.splits list.splits)

lemma work_used:
  "bg_run b cs b' \<Longrightarrow> closing b \<Longrightarrow> closing b' \<and> length (filter worker_act cs) + work b' = work b"
proof (induction rule: bg_run.induct)
  case (bg_run_step b as b1 a b2)
  then show ?case using closing_step [of b1 a b2] work_decreases [of b1 a b2] by (cases "worker_act a") auto
qed simp

lemma weight_0_iff: "weight w = 0 \<longleftrightarrow> w = Exited"
  by (cases w) auto

lemma done_iff_no_work:
  assumes "bg_inv b" "pool b \<noteq> []" shows "pool_done b \<longleftrightarrow> work b = 0"
proof -
  have "jobs b = []" if "pool_done b"
    using that assms by (auto simp: pool_done_def bg_inv_def) (metis last_in_set)
  then show ?thesis by (auto simp: pool_done_def work_def sum_list_eq_0_iff weight_0_iff)
qed

text \<open>
  C10: the worker pool. In every reachable state of a new pool, under any interleaving: a key is in the
  in-flight map exactly when one queued job or one worker has it, and never two, so that no key is
  refreshed twice at a time; the queue never exceeds its size; and the jobs the workers have taken
  are the first of those launched, in launch order, the rest being in the queue: nothing that
  \<open>Schedule\<close> reported as launched is lost or run twice.
\<close>

theorem background_runs_once:
  assumes "bg_run (NewBackground w q t) as b"
  shows "(\<forall>k. occurs k b = (if k \<in> set (bg_inflight b) then 1 else 0))
    \<and> int (length (jobs b)) \<le> max 1 q
    \<and> accepted as = taken as @ jobs b"
proof -
  have "bg_inv b" by (rule bg_inv_run [OF assms bg_inv_new])
  moreover have "queueSize b' = queueSize b0" if "bg_run b0 as' b'" for b0 b' :: "'a background" and as'
    using that
    by (induction rule: bg_run.induct) (auto elim!: bg_stepE simp: Background_Schedule_def worker_recv_def
        worker_ran_def worker_delete_def worker_exit_def Background_Close_def
        split: if_splits worker.splits list.splits prod.splits)
  from this [OF assms] have "int (queueSize b) = max 1 q" by (simp add: NewBackground_def Let_def)
  moreover have "accepted as = taken as @ jobs b"
    using queue_fifo [OF assms] by (simp add: NewBackground_def Let_def)
  ultimately show ?thesis unfolding bg_inv_def by (metis of_nat_le_iff)
qed

lemma pool_size_run: "bg_run b as b' \<Longrightarrow> length (pool b') = length (pool b)"
  by (induction rule: bg_run.induct) (auto elim!: bg_stepE simp: Background_Schedule_def worker_recv_def
      worker_ran_def worker_delete_def worker_exit_def Background_Close_def
      split: if_splits worker.splits list.splits prod.splits)

lemma pool_nonempty: "bg_run (NewBackground w q t) as b \<Longrightarrow> pool b \<noteq> []"
  using pool_size_run [of "NewBackground w q t" as b] by (cases "w < 1") (auto simp: NewBackground_def Let_def)

lemma drained:
  assumes "bg_run (NewBackground w q t) as b" "pool_done b"
  shows "taken as = accepted as" "bg_inflight b = []"
proof -
  have inv: "bg_inv b" by (rule bg_inv_run [OF assms(1) bg_inv_new])
  then have j: "jobs b = []"
    using done_iff_no_work [OF inv pool_nonempty [OF assms(1)]] assms(2) by (simp add: work_def)
  then show "taken as = accepted as" using queue_fifo [OF assms(1)] by (simp add: NewBackground_def Let_def)
  have "carries k w = 0" if "w \<in> set (pool b)" for k w using assms(2) that by (auto simp: pool_done_def)
  then have "occurs k b = 0" for k using j by (simp add: occurs_def sum_list_eq_0_iff)
  then show "bg_inflight b = []"
    using inv unfolding bg_inv_def by (metis list.set_intros(1) neq_Nil_conv zero_neq_one)
qed

text \<open>
  C22: closing the worker pool drains it, provided the jobs return. Once closing, \<open>Schedule\<close> launches
  nothing more. The wait in \<open>Close\<close> ends exactly when no work is left, and whatever is interleaved with them
  the moves of the workers use up the work one unit at a time. While the wait lasts, a worker can move by
  itself, or every worker that is left is inside a job, and the wait goes on until one of these returns:
  whoever stays inside a job keeps \<open>Close\<close> waiting, whatever else happens, so that a job that never
  returns blocks it for ever. When the wait ends every job ever launched has been run, those still pending
  when \<open>Close\<close> was called too, and no key is in flight. (The comment of the interface promises that
  \<open>Close\<close> stops pending refreshes.)
\<close>

theorem background_close_drains:
  assumes "bg_run (NewBackground w q t) as b" "closing b"
  shows "fst (Background_Schedule k j b) = False
    \<and> (pool_done b \<longleftrightarrow> work b = 0)
    \<and> (\<forall>cs b'. bg_run b cs b' \<longrightarrow> length (filter worker_act cs) + work b' = work b)
    \<and> (\<not> pool_done b \<longrightarrow> (\<exists>a b'. worker_act a \<and> \<not> returning a \<and> bg_step b a b')
         \<or> (\<forall>i < length (pool b). pool b ! i \<noteq> Exited \<longrightarrow> in_job (pool b ! i) \<and> (\<exists>b'. bg_step b (BRan i) b')))
    \<and> (\<forall>i < length (pool b). in_job (pool b ! i) \<longrightarrow>
         (\<forall>cs b'. bg_run b cs b' \<and> BRan i \<notin> set cs \<longrightarrow> \<not> pool_done b'))
    \<and> (pool_done b \<longrightarrow> taken as = accepted as \<and> bg_inflight b = [])"
proof (intro conjI allI impI)
  have inv: "bg_inv b" by (rule bg_inv_run [OF assms(1) bg_inv_new])
  show "fst (Background_Schedule k j b) = False" using assms(2) by (simp add: Background_Schedule_def)
  show "pool_done b \<longleftrightarrow> work b = 0" by (rule done_iff_no_work [OF inv pool_nonempty [OF assms(1)]])
  show "length (filter worker_act cs) + work b' = work b" if "bg_run b cs b'" for cs b'
    using work_used [OF that assms(2)] by simp
  show "(\<exists>a b'. worker_act a \<and> \<not> returning a \<and> bg_step b a b')
      \<or> (\<forall>i < length (pool b). pool b ! i \<noteq> Exited \<longrightarrow> in_job (pool b ! i) \<and> (\<exists>b'. bg_step b (BRan i) b'))"
    using worker_enabled [OF assms(2)] return_enabled by (metis nth_mem)
  show "\<not> pool_done b'" if "i < length (pool b)" "in_job (pool b ! i)" "bg_run b cs b' \<and> BRan i \<notin> set cs" for i cs b'
  proof -
    have "i < length (pool b')" "in_job (pool b' ! i)" using in_job_stays [of b cs b' i] that by simp_all
    then have "pool b' ! i \<in> set (pool b')" "pool b' ! i \<noteq> Exited" by auto
    then show ?thesis unfolding pool_done_def by blast
  qed
  show "taken as = accepted as" "bg_inflight b = []" if "pool_done b" by (rule drained [OF assms(1) that])+
qed

text \<open>A pool of one worker: a job is launched, taken and run, and the pool is closed.\<close>

definition demo_bg :: "unit bg_act list \<Rightarrow> unit background \<Rightarrow> bool" where
  "demo_bg as b = bg_run (NewBackground 1 1 0) as b"

lemma demo_bg_run:
  "demo_bg [BSchedule ''k'' () True, BRecv 0 ''k'' (), BRan 0, BDelete 0, BClose, BExit 0]
     \<lparr>jobs = [], queueSize = 1, bg_timeout = 0, bg_inflight = [], closing = True, pool = [Exited]\<rparr>"
proof -
  let ?b = "\<lambda>js fl cl w. \<lparr>jobs = js, queueSize = 1, bg_timeout = 0, bg_inflight = fl, closing = cl, pool = [w]\<rparr>"
  have n: "NewBackground 1 1 0 = ?b [] [] False Idle" by (simp add: NewBackground_def)
  have r1: "bg_run (?b [] [] False Idle) ([] @ [BSchedule ''k'' () True]) (?b [(''k'', ())] [''k''] False Idle)"
    by (rule bg_run_step [OF bg_run_Nil bg_sched]) (simp add: Background_Schedule_def)
  have r2: "bg_run (?b [] [] False Idle) ([BSchedule ''k'' () True] @ [BRecv 0 ''k'' ()])
      (?b [] [''k''] False (Running ''k'' ()))"
    by (rule bg_run_step [OF r1 [unfolded append_Nil] bg_recv]) (simp_all add: worker_recv_def)
  have r3: "bg_run (?b [] [] False Idle) ([BSchedule ''k'' () True, BRecv 0 ''k'' ()] @ [BRan 0])
      (?b [] [''k''] False (Ran ''k''))"
    by (rule bg_run_step [OF r2 [unfolded append_Cons append_Nil] bg_ran]) (simp add: worker_ran_def)
  have r4: "bg_run (?b [] [] False Idle) ([BSchedule ''k'' () True, BRecv 0 ''k'' (), BRan 0] @ [BDelete 0])
      (?b [] [] False Idle)"
    by (rule bg_run_step [OF r3 [unfolded append_Cons append_Nil] bg_delete]) (simp add: worker_delete_def)
  have c: "bg_step (?b [] [] False Idle) BClose (?b [] [] True Idle)"
    using bg_close [of "?b [] [] False Idle"] by (simp add: Background_Close_def)
  note r5 = bg_run_step [OF r4 [unfolded append_Cons append_Nil] c]
  have "bg_step (?b [] [] True Idle) (BExit 0) (?b [] [] True Exited)"
    by (rule bg_exit) (simp add: worker_exit_def)
  from bg_run_step [OF r5 [unfolded append_Cons append_Nil] this] show ?thesis
    unfolding demo_bg_def n by simp
qed

theorem background_runs_once_witness:
  "accepted [BSchedule ''k'' () True, BRecv 0 ''k'' (), BRan 0, BDelete 0, BClose, BExit 0] = [(''k'', ())]
    \<and> accepted [BSchedule ''k'' () True, BRecv 0 ''k'' (), BRan 0, BDelete 0, BClose, BExit 0] =
      taken [BSchedule ''k'' () True, BRecv 0 ''k'' (), BRan 0, BDelete 0, BClose, BExit 0] @ []"
  using background_runs_once [OF demo_bg_run [unfolded demo_bg_def]] by simp

text \<open>The same pool closed while its worker is inside the job.\<close>

lemma demo_bg_blocked:
  "demo_bg [BSchedule ''k'' () True, BRecv 0 ''k'' (), BClose]
     \<lparr>jobs = [], queueSize = 1, bg_timeout = 0, bg_inflight = [''k''], closing = True, pool = [Running ''k'' ()]\<rparr>"
proof -
  let ?b = "\<lambda>js fl cl w. \<lparr>jobs = js, queueSize = 1, bg_timeout = 0, bg_inflight = fl, closing = cl, pool = [w]\<rparr>"
  have n: "NewBackground 1 1 0 = ?b [] [] False Idle" by (simp add: NewBackground_def)
  have r1: "bg_run (?b [] [] False Idle) ([] @ [BSchedule ''k'' () True]) (?b [(''k'', ())] [''k''] False Idle)"
    by (rule bg_run_step [OF bg_run_Nil bg_sched]) (simp add: Background_Schedule_def)
  have r2: "bg_run (?b [] [] False Idle) ([BSchedule ''k'' () True] @ [BRecv 0 ''k'' ()])
      (?b [] [''k''] False (Running ''k'' ()))"
    by (rule bg_run_step [OF r1 [unfolded append_Nil] bg_recv]) (simp_all add: worker_recv_def)
  from bg_run_step [OF r2 [unfolded append_Cons append_Nil] bg_close] show ?thesis
    unfolding demo_bg_def n by (simp add: Background_Close_def)
qed

theorem background_close_drains_witness:
  "(\<exists>b as. demo_bg as b \<and> closing b \<and> pool_done b \<and> taken as = accepted as \<and> accepted as \<noteq> [])
   \<and> (\<exists>b as. demo_bg as b \<and> closing b \<and> (\<forall>cs b'. bg_run b cs b' \<and> BRan 0 \<notin> set cs \<longrightarrow> \<not> pool_done b'))"
proof
  let ?b = "\<lparr>jobs = [], queueSize = 1, bg_timeout = 0, bg_inflight = [], closing = True, pool = [Exited]\<rparr> :: unit background"
  have "closing ?b" "pool_done ?b" by (simp_all add: pool_done_def)
  then show "\<exists>b as. demo_bg as b \<and> closing b \<and> pool_done b \<and> taken as = accepted as \<and> accepted as \<noteq> []"
    using background_close_drains [OF demo_bg_run [unfolded demo_bg_def]] demo_bg_run
    by (metis (no_types, lifting) accepted.simps(2) list.distinct(1))
next
  let ?b = "\<lparr>jobs = [], queueSize = 1, bg_timeout = 0, bg_inflight = [''k''], closing = True, pool = [Running ''k'' ()]\<rparr> :: unit background"
  have "\<forall>cs b'. bg_run ?b cs b' \<and> BRan 0 \<notin> set cs \<longrightarrow> \<not> pool_done b'"
    using background_close_drains [OF demo_bg_blocked [unfolded demo_bg_def]] by simp
  then show "\<exists>b as. demo_bg as b \<and> closing b \<and> (\<forall>cs b'. bg_run b cs b' \<and> BRan 0 \<notin> set cs \<longrightarrow> \<not> pool_done b')"
    using demo_bg_blocked by (intro exI [of _ ?b]) auto
qed

section \<open>RequestBound\<close>

definition defaultMaxConcurrentRefresh :: int where
  "defaultMaxConcurrentRefresh = 16"

text \<open>A launched goroutine is running, or has deleted its key and still holds its token.\<close>

datatype 'j task = Refreshing gokey 'j | Deleted gokey

record 'j request_bound =
  rb_timeout :: duration
  sem :: nat
  sem_cap :: nat
  rb_inflight :: "gokey list"
  rb_closed :: bool
  tasks :: "'j task list"

definition NewRequestBound :: "duration \<Rightarrow> int \<Rightarrow> 'j request_bound" where
  "NewRequestBound timeout maxConcurrent =
     (let m = (if maxConcurrent < 1 then defaultMaxConcurrentRefresh else maxConcurrent)
      in \<lparr>rb_timeout = timeout, sem = 0, sem_cap = nat m, rb_inflight = [], rb_closed = False, tasks = []\<rparr>)"

definition RequestBound_context :: "'j request_bound \<Rightarrow> time \<Rightarrow> time option" where
  "RequestBound_context r now = (if rb_timeout r \<le> 0 then None else Some (now + rb_timeout r))"

definition RequestBound_Schedule :: "gokey \<Rightarrow> 'j \<Rightarrow> 'j request_bound \<Rightarrow> bool \<times> 'j request_bound" where
  "RequestBound_Schedule key run r =
     (if rb_closed r then (False, r)
      else if key \<in> set (rb_inflight r) then (False, r)
      else if sem r < sem_cap r
      then (True, r\<lparr>sem := Suc (sem r), rb_inflight := key # rb_inflight r, tasks := tasks r @ [Refreshing key run]\<rparr>)
      else (False, r))"

text \<open>The deferred statements of the goroutine, in the order they run.\<close>

definition task_delete :: "nat \<Rightarrow> 'j request_bound \<Rightarrow> 'j request_bound option" where
  "task_delete i r = (if i < length (tasks r) then (case tasks r ! i of
       Refreshing k j \<Rightarrow> Some (r\<lparr>tasks := (tasks r)[i := Deleted k], rb_inflight := removeAll k (rb_inflight r)\<rparr>)
     | Deleted k \<Rightarrow> None) else None)"

definition task_release :: "nat \<Rightarrow> 'j request_bound \<Rightarrow> 'j request_bound option" where
  "task_release i r = (if i < length (tasks r) then (case tasks r ! i of
       Deleted k \<Rightarrow> Some (r\<lparr>tasks := take i (tasks r) @ drop (Suc i) (tasks r), sem := sem r - 1\<rparr>)
     | Refreshing k j \<Rightarrow> None) else None)"

text \<open>\<open>Close\<close> up to the wait for the group; it returns when no task is left.\<close>

definition RequestBound_Close :: "'j request_bound \<Rightarrow> 'j request_bound" where
  "RequestBound_Close r = r\<lparr>rb_closed := True\<rparr>"

inductive rb_step :: "'j request_bound \<Rightarrow> 'j request_bound \<Rightarrow> bool" where
  rb_sched: "RequestBound_Schedule k j r = (b, r') \<Longrightarrow> rb_step r r'"
| rb_delete: "task_delete i r = Some r' \<Longrightarrow> rb_step r r'"
| rb_release: "task_release i r = Some r' \<Longrightarrow> rb_step r r'"
| rb_close: "rb_step r (RequestBound_Close r)"

fun refreshes_key :: "gokey \<Rightarrow> 'j task \<Rightarrow> nat" where
  "refreshes_key k (Refreshing k' j) = (if k = k' then 1 else 0)"
| "refreshes_key k (Deleted k') = 0"

definition rb_inv :: "'j request_bound \<Rightarrow> bool" where
  "rb_inv r \<longleftrightarrow> sem r = length (tasks r) \<and> sem r \<le> sem_cap r
     \<and> (\<forall>k. sum_list (map (refreshes_key k) (tasks r)) = (if k \<in> set (rb_inflight r) then 1 else 0))"

lemma rb_inv_new: "rb_inv (NewRequestBound t m)"
  by (simp add: rb_inv_def NewRequestBound_def Let_def)

lemma rb_inv_Schedule:
  assumes "rb_inv r" "RequestBound_Schedule k j r = (b, r')" shows "rb_inv r'"
proof (cases b)
  case True
  then have r: "r' = r\<lparr>sem := Suc (sem r), rb_inflight := k # rb_inflight r, tasks := tasks r @ [Refreshing k j]\<rparr>"
      "k \<notin> set (rb_inflight r)" "sem r < sem_cap r"
    using assms(2) by (auto simp: RequestBound_Schedule_def split: if_splits)
  have "sum_list (map (refreshes_key k') (tasks r')) =
      sum_list (map (refreshes_key k') (tasks r)) + (if k' = k then 1 else 0)" for k'
    by (simp add: r(1))
  then show ?thesis using assms(1) r unfolding rb_inv_def by simp
next
  case False
  then show ?thesis using assms by (auto simp: RequestBound_Schedule_def split: if_splits)
qed

lemma rb_inv_delete:
  assumes "rb_inv r" "task_delete i r = Some r'" shows "rb_inv r'"
proof -
  obtain k j where j: "i < length (tasks r)" "tasks r ! i = Refreshing k j"
      "r' = r\<lparr>tasks := (tasks r)[i := Deleted k], rb_inflight := removeAll k (rb_inflight r)\<rparr>"
    using assms(2) by (auto simp: task_delete_def split: task.splits if_splits)
  let ?n = "\<lambda>k' ts. sum_list (map (refreshes_key k') ts)"
  have o: "?n k' (tasks r') + (if k' = k then 1 else 0) = ?n k' (tasks r)" for k'
    using sum_list_map_update [OF j(1), of "refreshes_key k'" "Deleted k"] j by simp
  have "?n k' (tasks r') = (if k' \<in> set (rb_inflight r') then 1 else 0)" for k'
    using o [of k'] assms(1) j(3) by (auto simp: rb_inv_def split: if_splits)
  then show ?thesis using assms(1) j by (simp add: rb_inv_def)
qed

lemma rb_inv_release:
  assumes "rb_inv r" "task_release i r = Some r'" shows "rb_inv r'"
proof -
  obtain k where j: "i < length (tasks r)" "tasks r ! i = Deleted k"
      "r' = r\<lparr>tasks := take i (tasks r) @ drop (Suc i) (tasks r), sem := sem r - 1\<rparr>"
    using assms(2) by (auto simp: task_release_def split: task.splits if_splits)
  have e: "tasks r = take i (tasks r) @ Deleted k # drop (Suc i) (tasks r)"
    using id_take_nth_drop [OF j(1)] j(2) by simp
  have "sum_list (map (refreshes_key k') (tasks r)) = sum_list (map (refreshes_key k') (tasks r'))" for k'
    by (subst e) (simp add: j(3))
  then show ?thesis using assms(1) j by (auto simp: rb_inv_def)
qed

lemma rb_inv_close: "rb_inv r \<Longrightarrow> rb_inv (RequestBound_Close r)"
  by (simp add: rb_inv_def RequestBound_Close_def)

lemma rb_inv_step [inv_intros]: "rb_step r r' \<Longrightarrow> rb_inv r \<Longrightarrow> rb_inv r'"
  by (induction rule: rb_step.induct)
    (blast intro: rb_inv_Schedule rb_inv_delete rb_inv_release rb_inv_close)+

lemma rb_sem_cap: "rb_step r r' \<Longrightarrow> sem_cap r' = sem_cap r"
  by (induction rule: rb_step.induct)
    (auto simp: RequestBound_Schedule_def task_delete_def task_release_def RequestBound_Close_def
      split: if_splits task.splits)

lemma rb_reachable:
  "rb_step\<^sup>*\<^sup>* r r' \<Longrightarrow> rb_inv r \<Longrightarrow> rb_inv r' \<and> sem_cap r' = sem_cap r"
  by (induction rule: rtranclp_induct) (auto dest: rb_inv_step rb_sem_cap)

lemma rb_cap_reachable:
  assumes "rb_step\<^sup>*\<^sup>* (NewRequestBound t m) r"
  shows "rb_inv r" "int (sem_cap r) = (if m < 1 then 16 else m)"
  using rb_reachable [OF assms rb_inv_new]
  by (simp_all add: NewRequestBound_def Let_def defaultMaxConcurrentRefresh_def)

lemma sum_refreshes:
  "finite K \<Longrightarrow> (\<Sum>k \<in> K. sum_list (map (refreshes_key k) ts)) \<le> length ts"
proof (induction ts)
  case (Cons t ts)
  have "(\<Sum>k \<in> K. refreshes_key k t) \<le> 1" using Cons.prems by (cases t) simp_all
  then show ?case using Cons by (simp add: sum.distrib)
qed simp

lemma rb_inflight_bound: "rb_inv r \<Longrightarrow> card (set (rb_inflight r)) \<le> sem_cap r"
  using sum_refreshes [of "set (rb_inflight r)" "tasks r"] by (simp add: rb_inv_def)

interpretation request_scheduler: scheduler RequestBound_Schedule "\<lambda>r. set (rb_inflight r)" rb_closed rb_inv sem_cap
proof unfold_locales
  fix s :: "'j request_bound" and k j s'
  assume "rb_inv s" "RequestBound_Schedule k j s = (True, s')"
  then show "rb_inv s' \<and> k \<notin> set (rb_inflight s) \<and> set (rb_inflight s') = insert k (set (rb_inflight s))
      \<and> \<not> rb_closed s \<and> rb_closed s' = rb_closed s \<and> sem_cap s' = sem_cap s"
    using rb_inv_Schedule [of s k j True s'] by (auto simp: RequestBound_Schedule_def split: if_splits)
next
  fix k and j :: 'j and s s' assume "RequestBound_Schedule k j s = (False, s')"
  then show "s' = s" by (auto simp: RequestBound_Schedule_def split: if_splits)
next
  fix s :: "'j request_bound" assume "rb_inv s"
  then show "finite (set (rb_inflight s)) \<and> card (set (rb_inflight s)) \<le> sem_cap s"
    using rb_inflight_bound by blast
qed

text \<open>
  C29: the request-bound refresher. In every reachable state the semaphore counts exactly the goroutines
  that have not released their token, at most the configured maximum (16 when it is below 1); a key
  is in flight exactly when one goroutine refreshes it, and never two; a token comes back with every
  goroutine that ends, so when none is left a refresh of any key is launched again unless closed;
  and while a goroutine is left it can take its next step, so that the wait in \<open>Close\<close> cannot be
  stuck on the refresher itself.
\<close>

theorem request_bound_capped:
  assumes "rb_step\<^sup>*\<^sup>* (NewRequestBound t m) r"
  shows "sem r = length (tasks r) \<and> int (sem r) \<le> (if m < 1 then 16 else m)
    \<and> (\<forall>k. sum_list (map (refreshes_key k) (tasks r)) = (if k \<in> set (rb_inflight r) then 1 else 0))
    \<and> (tasks r = [] \<longrightarrow> fst (RequestBound_Schedule k j r) = (\<not> rb_closed r))
    \<and> (\<forall>i < length (tasks r). task_delete i r \<noteq> None \<or> task_release i r \<noteq> None)"
proof -
  note i = rb_cap_reachable(1) [OF assms] and c = rb_cap_reachable(2) [OF assms]
  have "rb_inflight r = []" if "tasks r = []"
    using i that unfolding rb_inv_def by (metis list.set_intros(1) list.simps(8) neq_Nil_conv sum_list.Nil zero_neq_one)
  moreover have "0 < sem_cap r" using c by (auto split: if_splits)
  ultimately have "tasks r = [] \<longrightarrow> fst (RequestBound_Schedule k j r) = (\<not> rb_closed r)"
    using i by (auto simp: RequestBound_Schedule_def rb_inv_def)
  moreover have "task_delete j r \<noteq> None \<or> task_release j r \<noteq> None" if "j < length (tasks r)" for j
    using that by (cases "tasks r ! j") (simp_all add: task_delete_def task_release_def)
  moreover have "int (sem r) \<le> (if m < 1 then 16 else m)"
    unfolding c [symmetric] using i by (simp add: rb_inv_def)
  ultimately show ?thesis using i unfolding rb_inv_def by blast
qed

theorem request_bound_capped_witness:
  "sem (snd (RequestBound_Schedule ''k'' () (NewRequestBound 0 0))) = 1
    \<and> int (sem (snd (RequestBound_Schedule ''k'' () (NewRequestBound 0 0)))) \<le> 16"
proof -
  have "rb_step\<^sup>*\<^sup>* (NewRequestBound 0 0) (snd (RequestBound_Schedule ''k'' () (NewRequestBound 0 0)))"
    by (rule r_into_rtranclp, rule rb_sched, rule prod.collapse [symmetric])
  from request_bound_capped [OF this] show ?thesis
    by (simp add: RequestBound_Schedule_def NewRequestBound_def defaultMaxConcurrentRefresh_def)
qed

text \<open>
  A burst of stale keys cannot overrun the origin. Of any burst of \<open>Schedule\<close> calls on a
  request-bound refresher, made while nothing finishes, at most the free tokens launch, no key
  twice and no key already in flight, and none at all after \<open>Close\<close>.
\<close>

theorem burst_bounded:
  assumes "rb_step\<^sup>*\<^sup>* (NewRequestBound t m) r" "request_scheduler.batch burst r = (launched, r')"
  shows "int (length launched + card (set (rb_inflight r))) \<le> (if m < 1 then 16 else m)
    \<and> distinct launched \<and> set launched \<inter> set (rb_inflight r) = {} \<and> (rb_closed r \<longrightarrow> launched = [])"
proof -
  note i = rb_cap_reachable [OF assms(1)]
  have "int (length launched + card (set (rb_inflight r))) \<le> (if m < 1 then 16 else m)"
    unfolding i(2) [symmetric] using request_scheduler.batch_bound [OF i(1) assms(2)] by simp
  then show ?thesis using request_scheduler.batch_launches [OF i(1) assms(2)] by blast
qed

theorem burst_bounded_witness:
  "request_scheduler.batch [(''a'', ()), (''a'', ()), (''b'', ())] (NewRequestBound 0 1)
      = ([''a''], snd (RequestBound_Schedule ''a'' () (NewRequestBound 0 1)))
    \<and> int (length [''a''] + card {}) \<le> 1"
proof -
  have b: "request_scheduler.batch [(''a'', ()), (''a'', ()), (''b'', ())] (NewRequestBound 0 1)
      = ([''a''], snd (RequestBound_Schedule ''a'' () (NewRequestBound 0 1)))"
    by (simp add: RequestBound_Schedule_def NewRequestBound_def)
  from burst_bounded [OF rtranclp.rtrancl_refl b] b show ?thesis
    by (simp add: NewRequestBound_def)
qed

section \<open>The two refreshers as the cache sees them\<close>

text \<open>
  \<open>Close\<close> as one call that returns when its wait is over, if it does: the state it leaves is that of a
  drained refresher. The jobs that still run while it waits run outside this call, in the steps of
  \<open>bg_step\<close> and \<open>rb_step\<close>; what they do to the cache is, as all concurrent work is, part of the
  interference the cache runs under.
\<close>

definition background_ops :: "('j background, 'j) refresher_ops" where
  "background_ops = \<lparr>ref_Schedule = Background_Schedule,
     ref_Close = (\<lambda>b. (None, (Background_Close b)\<lparr>jobs := [], bg_inflight := [],
       pool := map (\<lambda>_. Exited) (pool b)\<rparr>))\<rparr>"

definition request_bound_ops :: "('j request_bound, 'j) refresher_ops" where
  "request_bound_ops = \<lparr>ref_Schedule = RequestBound_Schedule,
     ref_Close = (\<lambda>r. (None, (RequestBound_Close r)\<lparr>sem := 0, rb_inflight := [], tasks := []\<rparr>))\<rparr>"

end
