(* ===== verification/Cache_Core.thy ===== *)
theory Cache_Core
  imports Go_Monad Go_Float Invalidation Store_Interfaces Refresh
begin

text \<open>
  The cache itself, cache.go, over any L1 tier, any (or no) L2 tier, any bus and any refresher.

  The state \<open>cstate\<close> is what the methods share: the states behind the interfaces, the clock, the
  dedupe set, the local tag index, the counters, the closed flag, and the events handed to the bus.
  Every method is one program of the state monad, with the branches and the order of calls of its Go
  body.

  Other goroutines run between any two calls a method makes. This is the parameter \<open>env\<close>: before
  each call on the L1, the L2, the clock, the loader or the refresher the state is passed through
  \<open>env\<close>, numbered by a tick, and so may have been changed in any way by the rest of the system: other
  requests on this cache, other instances on the shared L2, time passing. With \<open>quiet\<close> in its place
  a method runs alone.

  Code outside the module is a parameter of the configuration: the loader (its result may be
  different at every tick), \<open>golang.org/x/sync/singleflight\<close>, the bytes of \<open>crypto/rand\<close>, the draws
  of \<open>math/rand\<close>, the iteration order of a Go map, and the result of a float to integer conversion
  that is out of range.
\<close>

section \<open>State\<close>

record counters =
  hits :: u64
  staleHits :: u64
  misses :: u64
  loads :: u64
  loadErrors :: u64
  negHits :: u64
  refreshes :: u64
  busEvicts :: u64
  l2Errors :: u64

definition zero_counters :: counters where
  "zero_counters = \<lparr>hits = 0, staleHits = 0, misses = 0, loads = 0, loadErrors = 0, negHits = 0,
     refreshes = 0, busEvicts = 0, l2Errors = 0\<rparr>"

text \<open>A job of the refresher is the key its closure refreshes.\<close>

record ('a, 'b, 'r) cstate =
  l1_st :: 'a
  l2_st :: 'b
  ref_st :: 'r
  clock_now :: time
  dedupe_st :: "dedupe option"
  tags :: "(string \<times> gokey list) list"
  closed :: bool
  closeDone :: bool
  closeErr :: "go_error option"
  subscribed :: bool
  stats :: counters
  outbox :: "event list"
  ticks :: nat
  id_draws :: nat
  jitter_draws :: nat

type_synonym ('v, 'a, 'b, 'r) flight = "(('a, 'b, 'r) cstate, go_error + 'v option) state"

record ('k, 'v, 'a, 'b, 'r) cache =
  loader :: "'k \<Rightarrow> nat \<Rightarrow> go_error + 'v"
  l1 :: "('a, 'v) l1_ops"
  l2 :: "('b, 'v) l2_ops option"
  bus :: bool
  refresher :: "('r, 'k) refresher_ops"
  keyString :: "'k \<Rightarrow> gokey"
  originID :: string
  fresh :: duration
  staleWindow :: duration
  negTTL :: duration
  maxTTL :: duration
  jitter :: float64
  env :: "nat \<Rightarrow> ('a, 'b, 'r) cstate \<Rightarrow> ('a, 'b, 'r) cstate"
  xsf_Do :: "gokey \<Rightarrow> ('v, 'a, 'b, 'r) flight \<Rightarrow>
    (('a, 'b, 'r) cstate, (go_error + 'v option) \<times> bool) state"
  is_nil :: "'v \<Rightarrow> bool"
  crand :: "nat \<Rightarrow> 8 word list"
  mrand :: "nat \<Rightarrow> rat"
  f64_ovf :: int
  range_order :: "gokey list \<Rightarrow> gokey list"

type_synonym ('a, 'b, 'r, 'x) prog = "(('a, 'b, 'r) cstate, 'x) state"

definition quiet :: "nat \<Rightarrow> 's \<Rightarrow> 's" where
  "quiet n s = s"

section \<open>Calls on the shared parts\<close>

definition yield :: "('k, 'v, 'a, 'b, 'r) cache \<Rightarrow> ('a, 'b, 'r, unit) prog" where
  "yield c = updating (\<lambda>s. env c (ticks s) s\<lparr>ticks := Suc (ticks s)\<rparr>)"

definition Now :: "('k, 'v, 'a, 'b, 'r) cache \<Rightarrow> ('a, 'b, 'r, time) prog" where
  "Now c = do { yield c; reading clock_now }"

definition l1_call ::
  "('k, 'v, 'a, 'b, 'r) cache \<Rightarrow> (time \<Rightarrow> 'a \<Rightarrow> 'x \<times> 'a) \<Rightarrow> ('a, 'b, 'r, 'x) prog" where
  "l1_call c f = do { yield c;
     State (\<lambda>s. let (x, a) = f (clock_now s) (l1_st s) in (x, s\<lparr>l1_st := a\<rparr>)) }"

definition l2_call ::
  "('k, 'v, 'a, 'b, 'r) cache \<Rightarrow> ('b \<Rightarrow> 'x \<times> 'b) \<Rightarrow> ('a, 'b, 'r, 'x) prog" where
  "l2_call c f = do { yield c;
     State (\<lambda>s. let (x, b) = f (l2_st s) in (x, s\<lparr>l2_st := b\<rparr>)) }"

definition ref_call ::
  "('k, 'v, 'a, 'b, 'r) cache \<Rightarrow> ('r \<Rightarrow> 'x \<times> 'r) \<Rightarrow> ('a, 'b, 'r, 'x) prog" where
  "ref_call c f = do { yield c;
     State (\<lambda>s. let (x, r) = f (ref_st s) in (x, s\<lparr>ref_st := r\<rparr>)) }"

definition load_origin ::
  "('k, 'v, 'a, 'b, 'r) cache \<Rightarrow> 'k \<Rightarrow> ('a, 'b, 'r, go_error + 'v) prog" where
  "load_origin c key = do { yield c; reading (\<lambda>s. loader c key (ticks s)) }"

definition is_closed :: "('k, 'v, 'a, 'b, 'r) cache \<Rightarrow> ('a, 'b, 'r, bool) prog" where
  "is_closed c = do { yield c; reading closed }"

definition count :: "(counters \<Rightarrow> counters) \<Rightarrow> ('a, 'b, 'r, unit) prog" where
  "count f = updating (\<lambda>s. s\<lparr>stats := f (stats s)\<rparr>)"

definition add1 :: "((u64 \<Rightarrow> u64) \<Rightarrow> counters \<Rightarrow> counters) \<Rightarrow> ('a, 'b, 'r, unit) prog" where
  "add1 upd = count (upd (\<lambda>n. n + 1))"

section \<open>Event IDs\<close>

definition hextable :: string where
  "hextable = ''0123456789abcdef''"

definition EncodeToString :: "8 word list \<Rightarrow> string" where
  "EncodeToString src = concat (map (\<lambda>b. [hextable ! unat (drop_bit 4 b), hextable ! unat (take_bit 4 b)]) src)"

text \<open>
  The bytes come from \<open>crypto/rand\<close>, outside the module: \<open>crand c n\<close> is the \<open>n\<close>-th draw. The code draws 16
  bytes; the length is left open here, so that the hypothesis that no draw repeats, under which some
  theorems speak of distinct IDs, can hold for all draws and not only for the \<open>2 ^ 128\<close> there are. It idealises
  that no run ever meets a collision.
\<close>

definition newID :: "('k, 'v, 'a, 'b, 'r) cache \<Rightarrow> ('a, 'b, 'r, string) prog" where
  "newID c = do {
     n \<leftarrow> reading id_draws;
     updating (\<lambda>s. s\<lparr>id_draws := Suc n\<rparr>);
     State_Monad.return (EncodeToString (crand c n)) }"

section \<open>Lifetimes of entries\<close>

definition noExpiry :: duration where
  "noExpiry = 100 * 365 * 24 * Hour"

text \<open>Go's conversion of a \<open>float64\<close> to an \<open>int64\<close> truncates; out of range it is the platform's.\<close>

definition f64_to_i64 :: "int \<Rightarrow> rat \<Rightarrow> int" where
  "f64_to_i64 ovf x =
     (let n = (if 0 \<le> x then \<lfloor>x\<rfloor> else \<lceil>x\<rceil>)
      in if - (2 ^ 63) \<le> n \<and> n < 2 ^ 63 then n else ovf)"

definition applyJitter :: "int \<Rightarrow> duration \<Rightarrow> rat \<Rightarrow> rat \<Rightarrow> duration" where
  "applyJitter ovf d fr r =
     (let delta = dbl (dbl (dbl (r * 2) - 1) * fr)
      in f64_to_i64 ovf (dbl (dbl (of_int d) * dbl (1 + delta))))"

definition window ::
  "('k, 'v, 'a, 'b, 'r) cache \<Rightarrow> time \<Rightarrow> ('a, 'b, 'r, time \<times> time) prog" where
  "window c now = do {
     f \<leftarrow> (if fresh c \<le> 0 then State_Monad.return noExpiry
          else if f64_less (Fin 0) (jitter c)
          then do {
            n \<leftarrow> reading jitter_draws;
            updating (\<lambda>s. s\<lparr>jitter_draws := Suc n\<rparr>);
            State_Monad.return (case jitter c of
                Fin fr \<Rightarrow> applyJitter (f64_ovf c) (fresh c) fr (mrand c n)
              | _ \<Rightarrow> f64_ovf c) }
          else State_Monad.return (fresh c));
     let freshUntil = now + f;
         staleUntil = freshUntil + staleWindow c;
         hardCap = now + maxTTL c
     in State_Monad.return
          (if 0 < maxTTL c
           then (if hardCap < freshUntil then hardCap else freshUntil,
                 if hardCap < staleUntil then hardCap else staleUntil)
           else (freshUntil, staleUntil)) }"

definition valueEntry ::
  "('k, 'v, 'a, 'b, 'r) cache \<Rightarrow> 'v \<Rightarrow> time \<Rightarrow> ('a, 'b, 'r, 'v entry) prog" where
  "valueEntry c val now = do {
     (fresh, stale) \<leftarrow> window c now;
     State_Monad.return \<lparr>Value = val, Version = 0, StoredAt = now, FreshUntil = fresh,
       StaleUntil = stale, Negative = False\<rparr> }"

definition negativeEntry ::
  "('k, 'v::zero, 'a, 'b, 'r) cache \<Rightarrow> time \<Rightarrow> u64 \<Rightarrow> 'v entry" where
  "negativeEntry c now version =
     (let d = negTTL c;
          d = (if d \<le> 0 then fresh c else d);
          d = (if d \<le> 0 then noExpiry else d);
          til = now + d
      in \<lparr>Value = 0, Version = version, StoredAt = now, FreshUntil = til, StaleUntil = til,
          Negative = True\<rparr>)"

section \<open>Events\<close>

definition publish :: "('k, 'v, 'a, 'b, 'r) cache \<Rightarrow> event \<Rightarrow> ('a, 'b, 'r, unit) prog" where
  "publish c ev =
     (if bus c then do { yield c; updating (\<lambda>s. s\<lparr>outbox := outbox s @ [ev]\<rparr>) }
      else State_Monad.return ())"

definition bus_evict :: "('k, 'v, 'a, 'b, 'r) cache \<Rightarrow> gokey \<Rightarrow> ('a, 'b, 'r, unit) prog" where
  "bus_evict c ks = do { _ \<leftarrow> l1_call c (\<lambda>_. l1_Delete (l1 c) ks); add1 busEvicts_update }"

definition dedupe_Seen :: "string \<Rightarrow> ('a, 'b, 'r, bool) prog" where
  "dedupe_Seen i = State (\<lambda>s. case dedupe_st s of
       None \<Rightarrow> (False, s)
     | Some d \<Rightarrow> let (b, d') = Seen i d in (b, s\<lparr>dedupe_st := Some d'\<rparr>))"

definition onEvent :: "('k, 'v, 'a, 'b, 'r) cache \<Rightarrow> event \<Rightarrow> ('a, 'b, 'r, unit) prog" where
  "onEvent c ev = do {
     cl \<leftarrow> is_closed c;
     if cl then State_Monad.return ()
     else if OriginID ev = originID c then State_Monad.return ()
     else do {
       dup \<leftarrow> dedupe_Seen (ID ev);
       if dup then State_Monad.return ()
       else for_each (Keys ev) (bus_evict c) } }"

section \<open>Reading\<close>

definition installL1 ::
  "('k, 'v, 'a, 'b, 'r) cache \<Rightarrow> gokey \<Rightarrow> 'v entry \<Rightarrow> ('a, 'b, 'r, unit) prog" where
  "installL1 c ks e = (case l1_SetIfNewer (l1 c) of
       Some f \<Rightarrow> do { _ \<leftarrow> l1_call c (\<lambda>now. f now ks e); State_Monad.return () }
     | None \<Rightarrow> do { _ \<leftarrow> l1_call c (\<lambda>now. l1_Set (l1 c) now ks e); State_Monad.return () })"

definition cache_Get ::
  "('k, 'v::zero, 'a, 'b, 'r) cache \<Rightarrow> 'k \<Rightarrow> ('a, 'b, 'r, 'v \<times> bool \<times> go_error option) prog" where
  "cache_Get c key = do {
     cl \<leftarrow> is_closed c;
     if cl then State_Monad.return (0, False, Some ErrClosed)
     else do {
       (e, ok, err) \<leftarrow> l1_call c (\<lambda>now. l1_Get (l1 c) now (keyString c key));
       if err \<noteq> None \<or> \<not> ok then State_Monad.return (0, False, err)
       else do {
         now \<leftarrow> Now c;
         if Expired e now \<or> Negative e then State_Monad.return (0, False, None)
         else State_Monad.return (Value e, True, None) } } }"

text \<open>\<open>fill\<close> without an L2 tier, the first block of cache.go's \<open>fill\<close>.\<close>

definition fill_local ::
  "('k, 'v::zero, 'a, 'b, 'r) cache \<Rightarrow> 'k \<Rightarrow> gokey \<Rightarrow> ('a, 'b, 'r, go_error + 'v) prog" where
  "fill_local c key ks = do {
     add1 loads_update;
     r \<leftarrow> load_origin c key;
     now \<leftarrow> Now c;
     case r of
       Inl err \<Rightarrow>
         if errors_is err ErrNotFound
         then do {
           _ \<leftarrow> l1_call c (\<lambda>t. l1_Set (l1 c) t ks (negativeEntry c now 0));
           State_Monad.return (Inl ErrNotFound) }
         else do { add1 loadErrors_update; State_Monad.return (Inl err) }
     | Inr val \<Rightarrow> do {
         e \<leftarrow> valueEntry c val now;
         _ \<leftarrow> l1_call c (\<lambda>t. l1_Set (l1 c) t ks e);
         State_Monad.return (Inr val) } }"

text \<open>The loader said not-found: the negative half of the fill invariant.\<close>

definition fill_negative ::
  "('k, 'v::zero, 'a, 'b, 'r) cache \<Rightarrow> ('b, 'v) l2_ops \<Rightarrow> gokey \<Rightarrow> u64 \<Rightarrow> time \<Rightarrow>
    ('a, 'b, 'r, go_error + 'v) prog" where
  "fill_negative c L2 ks expect now = do {
     (newV, deleted, derr) \<leftarrow> l2_call c (l2_CompareAndDelete L2 ks expect);
     if derr \<noteq> None then do { add1 l2Errors_update; State_Monad.return (Inl ErrNotFound) }
     else if \<not> deleted then do {
       (e2, ok2, lerr) \<leftarrow> l2_call c (l2_Load L2 ks);
       if ok2 then do { installL1 c ks e2; State_Monad.return (Inr (Value e2)) }
       else do {
         (if lerr \<noteq> None then add1 l2Errors_update else State_Monad.return ());
         State_Monad.return (Inl ErrNotFound) } }
     else do {
       installL1 c ks (negativeEntry c now newV);
       State_Monad.return (Inl ErrNotFound) } }"

text \<open>The loader returned a value: the write half of the fill invariant.\<close>

definition fill_value ::
  "('k, 'v::zero, 'a, 'b, 'r) cache \<Rightarrow> ('b, 'v) l2_ops \<Rightarrow> gokey \<Rightarrow> u64 \<Rightarrow> time \<Rightarrow> 'v \<Rightarrow>
    ('a, 'b, 'r, go_error + 'v) prog" where
  "fill_value c L2 ks expect now val = do {
     (freshUntil, staleUntil) \<leftarrow> window c now;
     r \<leftarrow> l2_call c (l2_SetCAS L2 ks val expect freshUntil staleUntil []);
     case r of
       Inl serr \<Rightarrow>
         if errors_is serr ErrVersionConflict then do {
           (e2, ok2, lerr) \<leftarrow> l2_call c (l2_Load L2 ks);
           if ok2 then do { installL1 c ks e2; State_Monad.return (Inr (Value e2)) }
           else if lerr \<noteq> None then do { add1 l2Errors_update; State_Monad.return (Inr val) }
           else State_Monad.return (Inl ErrNotFound) }
         else do { add1 l2Errors_update; State_Monad.return (Inr val) }
     | Inr stored \<Rightarrow> do { installL1 c ks stored; State_Monad.return (Inr val) } }"

definition fill ::
  "('k, 'v::zero, 'a, 'b, 'r) cache \<Rightarrow> 'k \<Rightarrow> gokey \<Rightarrow> ('a, 'b, 'r, go_error + 'v) prog" where
  "fill c key ks = (case l2 c of
       None \<Rightarrow> fill_local c key ks
     | Some L2 \<Rightarrow> do {
         now \<leftarrow> Now c;
         (cur, ok, _) \<leftarrow> l2_call c (l2_Load L2 ks);
         if ok \<and> Fresh cur now
         then do { installL1 c ks cur; State_Monad.return (Inr (Value cur)) }
         else do {
           let expect = Version cur;
           add1 loads_update;
           r \<leftarrow> load_origin c key;
           now \<leftarrow> Now c;
           case r of
             Inl err \<Rightarrow>
               if errors_is err ErrNotFound then fill_negative c L2 ks expect now
               else do { add1 loadErrors_update; State_Monad.return (Inl err) }
           | Inr val \<Rightarrow> fill_value c L2 ks expect now val } })"

text \<open>
  The closure of \<open>scheduleRefresh\<close>, run later by the refresher, and \<open>scheduleRefresh\<close> itself.
\<close>

definition refresh_run ::
  "('k, 'v::zero, 'a, 'b, 'r) cache \<Rightarrow> 'k \<Rightarrow> gokey \<Rightarrow> ('a, 'b, 'r, go_error option) prog" where
  "refresh_run c key ks = do {
     r \<leftarrow> fill c key ks;
     State_Monad.return (case r of
         Inl err \<Rightarrow> if errors_is err ErrNotFound then None else Some err
       | Inr _ \<Rightarrow> None) }"

definition scheduleRefresh ::
  "('k, 'v, 'a, 'b, 'r) cache \<Rightarrow> 'k \<Rightarrow> gokey \<Rightarrow> ('a, 'b, 'r, unit) prog" where
  "scheduleRefresh c key ks = do {
     launched \<leftarrow> ref_call c (ref_Schedule (refresher c) ks key);
     if launched then add1 refreshes_update else State_Monad.return () }"

text \<open>
  internal/singleflight/group.go: the typed wrapper over \<open>xsf.Group\<close>. The result travels as an
  \<open>any\<close>, and the zero value of an interface type travels as the nil \<open>any\<close>, on which the type
  assertion panics.
\<close>

datatype 'v outcome = Panic | Return "go_error + 'v"

definition to_any :: "('k, 'v, 'a, 'b, 'r) cache \<Rightarrow> 'v \<Rightarrow> 'v option" where
  "to_any c v = (if is_nil c v then None else Some v)"

definition sf_Do ::
  "('k, 'v, 'a, 'b, 'r) cache \<Rightarrow> gokey \<Rightarrow> ('a, 'b, 'r, go_error + 'v) prog \<Rightarrow>
    ('a, 'b, 'r, 'v outcome \<times> bool) prog" where
  "sf_Do c key fn = do {
     (res, sh) \<leftarrow> xsf_Do c key (do { r \<leftarrow> fn; State_Monad.return (map_sum id (to_any c) r) });
     State_Monad.return (case res of
         Inl doErr \<Rightarrow> (Return (Inl doErr), sh)
       | Inr None \<Rightarrow> (Panic, sh)
       | Inr (Some v) \<Rightarrow> (Return (Inr v), sh)) }"

definition GetOrLoad ::
  "('k, 'v::zero, 'a, 'b, 'r) cache \<Rightarrow> 'k \<Rightarrow> ('a, 'b, 'r, 'v outcome) prog" where
  "GetOrLoad c key = do {
     cl \<leftarrow> is_closed c;
     if cl then State_Monad.return (Return (Inl ErrClosed))
     else do {
       let ks = keyString c key;
       now \<leftarrow> Now c;
       (e, ok, _) \<leftarrow> l1_call c (\<lambda>t. l1_Get (l1 c) t ks);
       if ok \<and> Fresh e now then do {
         add1 hits_update;
         if Negative e
         then do { add1 negHits_update; State_Monad.return (Return (Inl ErrNotFound)) }
         else State_Monad.return (Return (Inr (Value e))) }
       else if ok \<and> \<not> Negative e \<and> Stale e now then do {
         add1 staleHits_update;
         scheduleRefresh c key ks;
         State_Monad.return (Return (Inr (Value e))) }
       else do {
         add1 misses_update;
         (v, _) \<leftarrow> sf_Do c ks (fill c key ks);
         State_Monad.return v } } }"

section \<open>Writing\<close>

record entryMeta =
  em_tags :: "string list"

definition WithTags :: "string list \<Rightarrow> entryMeta \<Rightarrow> entryMeta" where
  "WithTags ts m = m\<lparr>em_tags := em_tags m @ ts\<rparr>"

definition index_tag :: "gokey \<Rightarrow> string \<Rightarrow> (string \<times> gokey list) list \<Rightarrow> (string \<times> gokey list) list" where
  "index_tag ks t m = AList.update t (List.insert ks (case map_of m t of None \<Rightarrow> [] | Some s \<Rightarrow> s)) m"

definition indexTags :: "gokey \<Rightarrow> string list \<Rightarrow> ('a, 'b, 'r, unit) prog" where
  "indexTags ks ts = (if ts = [] then State_Monad.return ()
     else updating (\<lambda>s. s\<lparr>tags := fold (index_tag ks) ts (tags s)\<rparr>))"

definition key_event ::
  "('k, 'v, 'a, 'b, 'r) cache \<Rightarrow> gokey \<Rightarrow> u64 \<Rightarrow> time \<Rightarrow> string \<Rightarrow> event" where
  "key_event c ks version t i = \<lparr>ID = i, Kind = KindKey, Keys = [ks], Tag = [], EVersion = version,
     OriginID = originID c, EmittedAt = t\<rparr>"

definition cache_Set ::
  "('k, 'v, 'a, 'b, 'r) cache \<Rightarrow> 'k \<Rightarrow> 'v \<Rightarrow> (entryMeta \<Rightarrow> entryMeta) list \<Rightarrow>
    ('a, 'b, 'r, go_error option) prog" where
  "cache_Set c key val opts = do {
     cl \<leftarrow> is_closed c;
     if cl then State_Monad.return (Some ErrClosed)
     else do {
       let em = fold (\<lambda>f m. f m) opts \<lparr>em_tags = []\<rparr>;
       let ks = keyString c key;
       now \<leftarrow> Now c;
       (freshUntil, staleUntil) \<leftarrow> window c now;
       case l2 c of
         Some L2 \<Rightarrow> do {
           r \<leftarrow> l2_call c (l2_SetCAS L2 ks val ForceVersion freshUntil staleUntil (em_tags em));
           case r of
             Inl err \<Rightarrow> State_Monad.return (Some err)
           | Inr stored \<Rightarrow> do {
               installL1 c ks stored;
               i \<leftarrow> newID c;
               publish c (key_event c ks (Version stored) now i);
               State_Monad.return None } }
       | None \<Rightarrow> do {
           let e = \<lparr>Value = val, Version = 0, StoredAt = now, FreshUntil = freshUntil,
                    StaleUntil = staleUntil, Negative = False\<rparr>;
           err \<leftarrow> l1_call c (\<lambda>t. l1_Set (l1 c) t ks e);
           if err \<noteq> None then State_Monad.return err
           else do {
             indexTags ks (em_tags em);
             i \<leftarrow> newID c;
             publish c (key_event c ks (Version e) now i);
             State_Monad.return None } } } }"

definition Invalidate ::
  "('k, 'v, 'a, 'b, 'r) cache \<Rightarrow> 'k \<Rightarrow> ('a, 'b, 'r, go_error option) prog" where
  "Invalidate c key = do {
     cl \<leftarrow> is_closed c;
     if cl then State_Monad.return (Some ErrClosed)
     else do {
       let ks = keyString c key;
       (version, err) \<leftarrow> (case l2 c of
           Some L2 \<Rightarrow> do {
             (nv, _, err) \<leftarrow> l2_call c (l2_CompareAndDelete L2 ks ForceVersion);
             State_Monad.return (nv, err) }
         | None \<Rightarrow> State_Monad.return (0, None));
       if err \<noteq> None then State_Monad.return err
       else do {
         _ \<leftarrow> l1_call c (\<lambda>_. l1_Delete (l1 c) ks);
         i \<leftarrow> newID c;
         t \<leftarrow> Now c;
         publish c (key_event c ks version t i);
         State_Monad.return None } } }"

definition broadcastChunk :: nat where
  "broadcastChunk = 256"

definition tag_chunks :: "'x list \<Rightarrow> 'x list list" where
  "tag_chunks keys = chunks broadcastChunk 0 keys"

definition broadcast ::
  "('k, 'v, 'a, 'b, 'r) cache \<Rightarrow> string \<Rightarrow> gokey list \<Rightarrow> ('a, 'b, 'r, unit) prog" where
  "broadcast c tag chunk = do {
     i \<leftarrow> newID c;
     t \<leftarrow> Now c;
     publish c \<lparr>ID = i, Kind = KindTag, Keys = chunk, Tag = tag, EVersion = 0,
       OriginID = originID c, EmittedAt = t\<rparr> }"

definition take_tag :: "('k, 'v, 'a, 'b, 'r) cache \<Rightarrow> string \<Rightarrow> ('a, 'b, 'r, gokey list) prog" where
  "take_tag c tag = State (\<lambda>s.
     (range_order c (case map_of (tags s) tag of None \<Rightarrow> [] | Some ks \<Rightarrow> ks),
      s\<lparr>tags := AList.delete tag (tags s)\<rparr>))"

definition InvalidateTag ::
  "('k, 'v, 'a, 'b, 'r) cache \<Rightarrow> string \<Rightarrow> ('a, 'b, 'r, go_error option) prog" where
  "InvalidateTag c tag = do {
     cl \<leftarrow> is_closed c;
     if cl then State_Monad.return (Some ErrClosed)
     else do {
       (keys, resErr) \<leftarrow> (case l2 c of
           Some L2 \<Rightarrow> l2_call c (l2_DeleteByTag L2 tag)
         | None \<Rightarrow> do { keys \<leftarrow> take_tag c tag; State_Monad.return (keys, None) });
       for_each keys (\<lambda>ks. do { _ \<leftarrow> l1_call c (\<lambda>_. l1_Delete (l1 c) ks); State_Monad.return () });
       for_each (tag_chunks keys) (broadcast c tag);
       State_Monad.return resErr } }"

section \<open>Statistics and shutdown\<close>

record Stats = counters +
  Evictions :: u64
  L1Len :: int

definition cache_Stats :: "('k, 'v, 'a, 'b, 'r) cache \<Rightarrow> ('a, 'b, 'r, Stats) prog" where
  "cache_Stats c = do {
     n \<leftarrow> reading stats;
     m \<leftarrow> (case l1_Metrics (l1 c) of
         Some f \<Rightarrow> l1_call c (\<lambda>_ a. (f a, a))
       | None \<Rightarrow> State_Monad.return (0, 0));
     State_Monad.return (counters.extend n \<lparr>Evictions = fst m, L1Len = snd m\<rparr>) }"

definition cache_Close :: "('k, 'v, 'a, 'b, 'r) cache \<Rightarrow> ('a, 'b, 'r, go_error option) prog" where
  "cache_Close c = do {
     once \<leftarrow> reading closeDone;
     if once then reading closeErr
     else do {
       updating (\<lambda>s. s\<lparr>closeDone := True, closed := True\<rparr>);
       updating (\<lambda>s. s\<lparr>subscribed := False\<rparr>);
       err \<leftarrow> ref_call c (ref_Close (refresher c));
       updating (\<lambda>s. s\<lparr>closeErr := err\<rparr>);
       reading closeErr } }"

end
