(* ===== verification/Lru_Spec.thy ===== *)
theory Lru_Spec
  imports Store_Entry
begin

text \<open>
  The specification of one shard of the in-process L1 tier: the entries as a list of keys and
  values, most recently used first. A hit moves the key to the front, an expired entry is dropped
  when it is read, and an insertion past the capacity drops the last element. store/memory/lru.go
  implements it with a map and an intrusive doubly linked list (theory \<open>Lru_Shard\<close>).
\<close>

type_synonym 'v lru = "(gokey \<times> 'v entry) list"

definition lru_front :: "gokey \<Rightarrow> 'v entry \<Rightarrow> 'v lru \<Rightarrow> 'v lru" where
  "lru_front k e xs = (k, e) # AList.delete k xs"

definition lru_get :: "time \<Rightarrow> gokey \<Rightarrow> 'v lru \<Rightarrow> 'v entry option \<times> 'v lru" where
  "lru_get now k xs = (case map_of xs k of
       None \<Rightarrow> (None, xs)
     | Some e \<Rightarrow> if Expired e now then (None, AList.delete k xs) else (Some e, lru_front k e xs))"

text \<open>A capacity of 0 or less is unbounded. The second component says whether an entry was evicted.\<close>

definition lru_insert :: "int \<Rightarrow> gokey \<Rightarrow> 'v entry \<Rightarrow> 'v lru \<Rightarrow> 'v lru \<times> bool" where
  "lru_insert cap k e xs =
     (let ys = (k, e) # xs
      in if 0 < cap \<and> cap < int (length ys) then (butlast ys, True) else (ys, False))"

definition lru_set :: "int \<Rightarrow> gokey \<Rightarrow> 'v entry \<Rightarrow> 'v lru \<Rightarrow> 'v lru \<times> bool" where
  "lru_set cap k e xs =
     (if map_of xs k = None then lru_insert cap k e xs else (lru_front k e xs, False))"

definition lru_setIfNewer ::
  "int \<Rightarrow> time \<Rightarrow> gokey \<Rightarrow> 'v entry \<Rightarrow> 'v lru \<Rightarrow> bool \<times> 'v lru \<times> bool" where
  "lru_setIfNewer cap now k e xs = (case map_of xs k of
       None \<Rightarrow> (True, lru_insert cap k e xs)
     | Some old \<Rightarrow> if \<not> Expired old now \<and> Version e \<le> Version old then (False, xs, False)
                   else (True, lru_front k e xs, False))"

definition lru_delete :: "gokey \<Rightarrow> 'v lru \<Rightarrow> 'v lru" where
  "lru_delete k xs = AList.delete k xs"

definition lru_ok :: "int \<Rightarrow> 'v lru \<Rightarrow> bool" where
  "lru_ok cap xs \<longleftrightarrow> gomap_ok xs \<and> (0 < cap \<longrightarrow> int (length xs) \<le> cap)"

lemmas lru_defs = lru_get_def lru_insert_def lru_set_def lru_setIfNewer_def lru_delete_def
  lru_front_def Let_def

section \<open>The bound and the key set\<close>

lemma gomap_ok_Cons: "gomap_ok ((k, e) # xs) \<longleftrightarrow> map_of xs k = None \<and> gomap_ok xs"
  by (auto simp: gomap_ok_def map_of_eq_None_iff)

lemma gomap_ok_butlast: "gomap_ok xs \<Longrightarrow> gomap_ok (butlast xs)"
  by (simp add: gomap_ok_def map_butlast distinct_butlast)

lemma map_of_butlast:
  "gomap_ok xs \<Longrightarrow> xs \<noteq> [] \<Longrightarrow> map_of (butlast xs) = (map_of xs)(fst (last xs) := None)"
proof (induction xs)
  case (Cons p xs)
  then show ?case
    by (cases p) (auto simp: gomap_ok_Cons fun_eq_iff map_of_eq_None_iff)
qed simp

lemma lru_ok_Nil [simp]: "lru_ok cap []"
  by (simp add: lru_ok_def)

lemma lru_ok_front:
  assumes "lru_ok cap xs" "map_of xs k = Some old"
  shows "lru_ok cap (lru_front k e xs)"
  using assms length_delete_old [of xs k old]
  by (auto simp: lru_ok_def lru_front_def gomap_ok_Cons)

lemma lru_ok_insert:
  "lru_ok cap xs \<Longrightarrow> map_of xs k = None \<Longrightarrow> lru_ok cap (fst (lru_insert cap k e xs))"
  using gomap_ok_butlast [of "(k, e) # xs"]
  by (auto simp: lru_ok_def lru_insert_def Let_def gomap_ok_Cons)

lemma lru_ok_delete [inv_intros]: "lru_ok cap xs \<Longrightarrow> lru_ok cap (AList.delete k xs)"
  using length_delete_le [of k xs] by (auto simp: lru_ok_def)

lemma lru_ok_get [inv_intros]: "lru_ok cap xs \<Longrightarrow> lru_ok cap (snd (lru_get now k xs))"
  by (auto simp: lru_get_def intro: lru_ok_front lru_ok_delete split: option.split)

lemma lru_ok_set [inv_intros]: "lru_ok cap xs \<Longrightarrow> lru_ok cap (fst (lru_set cap k e xs))"
  by (auto simp: lru_set_def intro: lru_ok_front lru_ok_insert)

lemma lru_ok_setIfNewer [inv_intros]:
  "lru_ok cap xs \<Longrightarrow> lru_ok cap (fst (snd (lru_setIfNewer cap now k e xs)))"
  by (auto simp: lru_setIfNewer_def intro: lru_ok_front lru_ok_insert split: option.split)

section \<open>What a key is bound to after an operation\<close>

lemma lru_insert_view:
  assumes "gomap_ok xs" "map_of xs k = None"
  shows "map_of (fst (lru_insert cap k e xs)) \<subseteq>\<^sub>m (map_of xs)(k \<mapsto> e)"
    and "map_of (fst (lru_insert cap k e xs)) k = Some e"
proof -
  have ok: "gomap_ok ((k, e) # xs)" using assms by (simp add: gomap_ok_Cons)
  show "map_of (fst (lru_insert cap k e xs)) \<subseteq>\<^sub>m (map_of xs)(k \<mapsto> e)"
    using map_of_butlast [OF ok] by (auto simp: lru_insert_def Let_def map_le_def)
  show "map_of (fst (lru_insert cap k e xs)) k = Some e"
    by (cases xs) (auto simp: lru_insert_def Let_def)
qed

lemma lru_front_view: "map_of (lru_front k e xs) = (map_of xs)(k \<mapsto> e)"
  by (auto simp: lru_front_def fun_eq_iff)

lemma lru_get_view:
  assumes "lru_get now k xs = (r, ys)"
  shows "map_of ys \<subseteq>\<^sub>m map_of xs \<and>
     (case r of Some e \<Rightarrow> map_of xs k = Some e \<and> map_of ys k = Some e \<and> \<not> Expired e now
      | None \<Rightarrow> \<forall>d. map_of xs k = Some d \<longrightarrow> Expired d now)"
proof (cases "map_of xs k")
  case None
  then show ?thesis using assms by (auto simp: lru_get_def)
next
  case (Some d)
  show ?thesis
  proof (cases "Expired d now")
    case True
    then have "r = None" "ys = AList.delete k xs" using assms Some by (auto simp: lru_get_def)
    then show ?thesis using Some True by (simp add: map_le_def)
  next
    case False
    then have "r = Some d" "ys = lru_front k d xs" using assms Some by (auto simp: lru_get_def)
    then show ?thesis using Some False by (simp add: lru_front_view map_le_def)
  qed
qed

lemma lru_set_view:
  "gomap_ok xs \<Longrightarrow> lru_set cap k e xs = (ys, b) \<Longrightarrow>
     map_of ys \<subseteq>\<^sub>m (map_of xs)(k \<mapsto> e) \<and> map_of ys k = Some e"
  using lru_insert_view [of xs k cap e]
  by (auto simp: lru_set_def lru_front_view split: if_splits)

lemma lru_setIfNewer_view:
  "gomap_ok xs \<Longrightarrow> lru_setIfNewer cap now k e xs = (r, ys, b) \<Longrightarrow>
     (if r then map_of ys \<subseteq>\<^sub>m (map_of xs)(k \<mapsto> e) \<and> map_of ys k = Some e
         \<and> (\<forall>d. map_of xs k = Some d \<longrightarrow> Expired d now \<or> Version d < Version e)
      else ys = xs \<and> (\<exists>d. map_of xs k = Some d \<and> \<not> Expired d now \<and> Version e \<le> Version d))"
  using lru_insert_view [of xs k cap e]
  by (auto simp: lru_setIfNewer_def lru_front_view split: option.splits if_splits)

end
