(* ===== verification/Lru_Shard.thy ===== *)
theory Lru_Shard
  imports Lru_Spec
begin

text \<open>
  One shard of the in-process L1 tier as store/memory/lru.go writes it: a map from keys to nodes of
  an intrusive doubly linked list, with every pointer assignment of the code. Nodes live in an
  explicit heap, a pointer is an address and \<open>nil\<close> is \<open>None\<close>; \<open>&node{...}\<close> takes the next unused
  address. Each operation holds the shard's mutex from start to end, so it is one state
  transition; \<open>now\<close> is the reading of the shard's clock and the eviction counter, which all shards
  of a cache share, is passed beside the shard.

  The operations are proved to refine the list specification of theory \<open>Lru_Spec\<close>.
\<close>

type_synonym ptr = nat

record 'v node =
  node_key :: gokey
  node_entry :: "'v entry"
  prev :: "ptr option"
  next_ptr :: "ptr option"

record 'v shard =
  items :: "(gokey \<times> ptr) list"
  head :: "ptr option"
  tail :: "ptr option"
  capacity :: int
  heap :: "ptr \<Rightarrow> 'v node"
  next_addr :: ptr

text \<open>An assignment to a field of the node at address \<open>p\<close>.\<close>

definition upd_node :: "ptr \<Rightarrow> ('v node \<Rightarrow> 'v node) \<Rightarrow> 'v shard \<Rightarrow> 'v shard" where
  "upd_node p f s = s\<lparr>heap := (heap s)(p := f (heap s p))\<rparr>"

definition unlinkLocked :: "ptr \<Rightarrow> 'v shard \<Rightarrow> 'v shard" where
  "unlinkLocked n s =
     (let s1 = (case prev (heap s n) of
                  Some p \<Rightarrow> upd_node p (\<lambda>x. x\<lparr>next_ptr := next_ptr (heap s n)\<rparr>) s
                | None \<Rightarrow> s\<lparr>head := next_ptr (heap s n)\<rparr>);
          s2 = (case next_ptr (heap s1 n) of
                  Some q \<Rightarrow> upd_node q (\<lambda>x. x\<lparr>prev := prev (heap s1 n)\<rparr>) s1
                | None \<Rightarrow> s1\<lparr>tail := prev (heap s1 n)\<rparr>)
      in upd_node n (\<lambda>x. x\<lparr>prev := None, next_ptr := None\<rparr>) s2)"

definition removeLocked :: "ptr \<Rightarrow> 'v shard \<Rightarrow> 'v shard" where
  "removeLocked n s =
     (let s1 = unlinkLocked n s
      in s1\<lparr>items := AList.delete (node_key (heap s1 n)) (items s1)\<rparr>)"

definition pushFrontLocked :: "ptr \<Rightarrow> 'v shard \<Rightarrow> 'v shard" where
  "pushFrontLocked n s =
     (let s1 = upd_node n (\<lambda>x. x\<lparr>prev := None\<rparr>) s;
          s2 = upd_node n (\<lambda>x. x\<lparr>next_ptr := head s1\<rparr>) s1;
          s3 = (case head s2 of
                  Some h \<Rightarrow> upd_node h (\<lambda>x. x\<lparr>prev := Some n\<rparr>) s2
                | None \<Rightarrow> s2);
          s4 = s3\<lparr>head := Some n\<rparr>
      in if tail s4 = None then s4\<lparr>tail := Some n\<rparr> else s4)"

definition moveToFrontLocked :: "ptr \<Rightarrow> 'v shard \<Rightarrow> 'v shard" where
  "moveToFrontLocked n s =
     (if head s = Some n then s else pushFrontLocked n (unlinkLocked n s))"

definition insertLocked :: "gokey \<Rightarrow> 'v entry \<Rightarrow> 'v shard \<times> u64 \<Rightarrow> 'v shard \<times> u64" where
  "insertLocked key e = (\<lambda>(s, ev).
     let n = next_addr s;
         s1 = s\<lparr>next_addr := n + 1,
                heap := (heap s)(n := \<lparr>node_key = key, node_entry = e, prev = None, next_ptr = None\<rparr>)\<rparr>;
         s2 = s1\<lparr>items := AList.update key n (items s1)\<rparr>;
         s3 = pushFrontLocked n s2
     in if 0 < capacity s3 \<and> capacity s3 < int (length (items s3))
        then (case tail s3 of
                Some t \<Rightarrow> (removeLocked t s3, ev + 1)
              | None \<Rightarrow> (s3, ev))
        else (s3, ev))"

definition shard_get :: "time \<Rightarrow> gokey \<Rightarrow> 'v shard \<Rightarrow> 'v entry option \<times> 'v shard" where
  "shard_get now key s = (case map_of (items s) key of
       None \<Rightarrow> (None, s)
     | Some n \<Rightarrow>
         if Expired (node_entry (heap s n)) now then (None, removeLocked n s)
         else let s1 = moveToFrontLocked n s in (Some (node_entry (heap s1 n)), s1))"

definition shard_set :: "gokey \<Rightarrow> 'v entry \<Rightarrow> 'v shard \<times> u64 \<Rightarrow> 'v shard \<times> u64" where
  "shard_set key e = (\<lambda>(s, ev). case map_of (items s) key of
       Some n \<Rightarrow> (moveToFrontLocked n (upd_node n (\<lambda>x. x\<lparr>node_entry := e\<rparr>) s), ev)
     | None \<Rightarrow> insertLocked key e (s, ev))"

definition shard_setIfNewer ::
  "time \<Rightarrow> gokey \<Rightarrow> 'v entry \<Rightarrow> 'v shard \<times> u64 \<Rightarrow> bool \<times> 'v shard \<times> u64" where
  "shard_setIfNewer now key e = (\<lambda>(s, ev). case map_of (items s) key of
       Some n \<Rightarrow>
         if \<not> Expired (node_entry (heap s n)) now \<and> Version e \<le> Version (node_entry (heap s n))
         then (False, s, ev)
         else (True, moveToFrontLocked n (upd_node n (\<lambda>x. x\<lparr>node_entry := e\<rparr>) s), ev)
     | None \<Rightarrow> (True, insertLocked key e (s, ev)))"

definition shard_delete :: "gokey \<Rightarrow> 'v shard \<Rightarrow> 'v shard" where
  "shard_delete key s = (case map_of (items s) key of
       Some n \<Rightarrow> removeLocked n s
     | None \<Rightarrow> s)"

definition shard_len :: "'v shard \<Rightarrow> int" where
  "shard_len s = int (length (items s))"

text \<open>The shard literal of \<open>New\<close>: an empty map, \<open>nil\<close> ends. The unused heap is arbitrary.\<close>

definition new_shard :: "int \<Rightarrow> ('v::zero) shard" where
  "new_shard cap = \<lparr>items = [], head = None, tail = None, capacity = cap,
     heap = (\<lambda>_. \<lparr>node_key = [], node_entry = zero_entry, prev = None, next_ptr = None\<rparr>),
     next_addr = 0\<rparr>"

section \<open>Linked lists in the heap\<close>

text \<open>
  \<open>linked h p ps q\<close>: the nodes \<open>ps\<close> are chained both ways, the first one's \<open>prev\<close> is \<open>p\<close> and the
  last one's \<open>next\<close> is \<open>q\<close>.
\<close>

definition first_of :: "ptr list \<Rightarrow> ptr option \<Rightarrow> ptr option" where
  "first_of ps q = (case ps of [] \<Rightarrow> q | p # _ \<Rightarrow> Some p)"

definition last_of :: "ptr option \<Rightarrow> ptr list \<Rightarrow> ptr option" where
  "last_of p ps = (if ps = [] then p else Some (last ps))"

fun linked :: "(ptr \<Rightarrow> 'v node) \<Rightarrow> ptr option \<Rightarrow> ptr list \<Rightarrow> ptr option \<Rightarrow> bool" where
  "linked h p [] q \<longleftrightarrow> True"
| "linked h p (n # ps) q \<longleftrightarrow>
     prev (h n) = p \<and> next_ptr (h n) = first_of ps q \<and> linked h (Some n) ps q"

text \<open>The chain as the code walks it from \<open>head\<close>, and the entries along it.\<close>

fun chain :: "(ptr \<Rightarrow> 'v node) \<Rightarrow> nat \<Rightarrow> ptr option \<Rightarrow> ptr list" where
  "chain h 0 p = []"
| "chain h (Suc i) None = []"
| "chain h (Suc i) (Some p) = p # chain h i (next_ptr (h p))"

definition binding :: "('v node) \<Rightarrow> gokey \<times> 'v entry" where
  "binding n = (node_key n, node_entry n)"

definition lru_of :: "'v shard \<Rightarrow> ptr list \<Rightarrow> 'v lru" where
  "lru_of s ps = map (\<lambda>p. binding (heap s p)) ps"

definition abs_shard :: "'v shard \<Rightarrow> 'v lru" where
  "abs_shard s = lru_of s (chain (heap s) (length (items s)) (head s))"

definition list_ok :: "'v shard \<Rightarrow> ptr list \<Rightarrow> bool" where
  "list_ok s ps \<longleftrightarrow> distinct ps \<and> linked (heap s) None ps None \<and> head s = first_of ps None
     \<and> tail s = last_of None ps \<and> (\<forall>p \<in> set ps. p < next_addr s)"

definition map_ok :: "'v shard \<Rightarrow> ptr list \<Rightarrow> bool" where
  "map_ok s ps \<longleftrightarrow> gomap_ok (items s) \<and>
     (\<forall>k p. map_of (items s) k = Some p \<longleftrightarrow> p \<in> set ps \<and> node_key (heap s p) = k)"

definition shard_inv :: "'v shard \<Rightarrow> bool" where
  "shard_inv s \<longleftrightarrow> (\<exists>ps. list_ok s ps \<and> map_ok s ps)"

lemma first_of_simps [simp]: "first_of [] q = q" "first_of (p # ps) q = Some p"
  by (simp_all add: first_of_def)

lemma last_of_simps [simp]: "last_of p [] = p" "last_of p (xs @ [n]) = Some n"
  by (simp_all add: last_of_def)

lemma first_of_append [simp]: "first_of (xs @ ys) q = first_of xs (first_of ys q)"
  by (cases xs) simp_all

lemma last_of_append [simp]: "last_of p (xs @ ys) = last_of (last_of p xs) ys"
  by (simp add: last_of_def)

lemma last_of_Cons [simp]: "last_of p (n # ps) = last_of (Some n) ps"
  by (simp add: last_of_def)

lemma linked_append [simp]:
  "linked h p (xs @ ys) q \<longleftrightarrow> linked h p xs (first_of ys q) \<and> linked h (last_of p xs) ys q"
  by (induction xs arbitrary: p) auto

lemma linked_cong:
  "(\<And>n. n \<in> set ps \<Longrightarrow> prev (h' n) = prev (h n) \<and> next_ptr (h' n) = next_ptr (h n))
    \<Longrightarrow> linked h' p ps q = linked h p ps q"
  by (induction ps arbitrary: p) auto

lemma linked_upd_notin [simp]: "n \<notin> set ps \<Longrightarrow> linked (h(n := x)) p ps q = linked h p ps q"
  by (rule linked_cong) auto

section \<open>The pointer operations on lists\<close>

lemma upd_node_simps [simp]:
  "items (upd_node p f s) = items s" "head (upd_node p f s) = head s"
  "tail (upd_node p f s) = tail s" "capacity (upd_node p f s) = capacity s"
  "next_addr (upd_node p f s) = next_addr s"
  "heap (upd_node p f s) = (heap s)(p := f (heap s p))"
  by (simp_all add: upd_node_def)

lemma unlinkLocked_frame [simp]:
  "items (unlinkLocked n s) = items s" "capacity (unlinkLocked n s) = capacity s"
  "next_addr (unlinkLocked n s) = next_addr s"
  "binding (heap (unlinkLocked n s) p) = binding (heap s p)"
  by (auto simp: unlinkLocked_def Let_def binding_def split: option.split)

lemma pushFrontLocked_frame [simp]:
  "items (pushFrontLocked n s) = items s" "capacity (pushFrontLocked n s) = capacity s"
  "next_addr (pushFrontLocked n s) = next_addr s"
  "binding (heap (pushFrontLocked n s) p) = binding (heap s p)"
  by (auto simp: pushFrontLocked_def Let_def binding_def split: option.split)

lemma moveToFrontLocked_frame [simp]:
  "items (moveToFrontLocked n s) = items s" "capacity (moveToFrontLocked n s) = capacity s"
  "next_addr (moveToFrontLocked n s) = next_addr s"
  "binding (heap (moveToFrontLocked n s) p) = binding (heap s p)"
  by (simp_all add: moveToFrontLocked_def)

lemma removeLocked_frame [simp]:
  "capacity (removeLocked n s) = capacity s" "next_addr (removeLocked n s) = next_addr s"
  "binding (heap (removeLocked n s) p) = binding (heap s p)"
  by (simp_all add: removeLocked_def Let_def)

text \<open>Relinking the neighbours of a removed node, and the old front of an extended list.\<close>

lemma linked_set_next:
  assumes "linked h p (xs @ [m]) q" "m \<notin> set xs"
  shows "linked (h(m := (h m)\<lparr>next_ptr := q'\<rparr>)) p (xs @ [m]) q'"
  using assms by simp

lemma linked_set_prev:
  assumes "linked h p (m # ys) q" "m \<notin> set ys"
  shows "linked (h(m := (h m)\<lparr>prev := p'\<rparr>)) p' (m # ys) q"
  using assms by simp

lemma unlinkLocked_ok:
  assumes "list_ok s (xs @ n # ys)"
  shows "list_ok (unlinkLocked n s) (xs @ ys)"
proof -
  have d: "distinct (xs @ n # ys)" and l: "linked (heap s) None (xs @ n # ys) None"
    and hd: "head s = first_of (xs @ n # ys) None" and tl: "tail s = last_of None (xs @ n # ys)"
    and a: "\<forall>p \<in> set (xs @ n # ys). p < next_addr s"
    using assms by (auto simp: list_ok_def)
  show ?thesis
  proof (cases xs rule: rev_cases)
    case xs: Nil
    show ?thesis
      using d l hd tl a unfolding xs
      by (cases ys) (auto simp: list_ok_def unlinkLocked_def Let_def)
  next
    case xs: (snoc xs' m)
    show ?thesis
      using d l hd tl a unfolding xs
      by (cases ys) (auto simp: list_ok_def unlinkLocked_def Let_def)
  qed
qed

lemma pushFrontLocked_ok:
  assumes "list_ok s ps" "n \<notin> set ps" "n < next_addr s"
  shows "list_ok (pushFrontLocked n s) (n # ps)"
  using assms by (cases ps) (auto simp: list_ok_def pushFrontLocked_def Let_def last_of_def)

lemma moveToFrontLocked_ok:
  assumes "list_ok s (xs @ n # ys)"
  shows "list_ok (moveToFrontLocked n s) (n # xs @ ys)"
proof (cases xs)
  case Nil
  then show ?thesis using assms by (simp add: moveToFrontLocked_def list_ok_def)
next
  case (Cons m xs')
  have "head s \<noteq> Some n" "n \<notin> set (xs @ ys)" "n < next_addr s"
    using assms Cons by (auto simp: list_ok_def)
  then show ?thesis
    using pushFrontLocked_ok [OF unlinkLocked_ok [OF assms]] by (simp add: moveToFrontLocked_def)
qed

section \<open>The map and the list agree\<close>

lemma map_okD:
  "map_ok s ps \<Longrightarrow> map_of (items s) k = Some p \<longleftrightarrow> p \<in> set ps \<and> node_key (heap s p) = k"
  by (simp add: map_ok_def)

lemma map_okD_None:
  "map_ok s ps \<Longrightarrow> map_of (items s) k = None \<longleftrightarrow> (\<forall>p \<in> set ps. node_key (heap s p) \<noteq> k)"
  using map_okD [of s ps k] by (cases "map_of (items s) k") auto

lemma map_ok_keys_inj:
  assumes "map_ok s ps"
  shows "inj_on (\<lambda>p. node_key (heap s p)) (set ps)"
proof (rule inj_onI)
  fix p q assume "p \<in> set ps" "q \<in> set ps" "node_key (heap s p) = node_key (heap s q)"
  then have "map_of (items s) (node_key (heap s p)) = Some p"
      "map_of (items s) (node_key (heap s p)) = Some q"
    using assms by (auto simp: map_ok_def)
  then show "p = q" by simp
qed

lemma map_ok_length:
  assumes "list_ok s ps" "map_ok s ps"
  shows "length (items s) = length ps"
proof -
  have "dom (map_of (items s)) = (\<lambda>p. node_key (heap s p)) ` set ps"
    using assms(2) by (auto simp: map_ok_def dom_def)
  then have "length (items s) = card ((\<lambda>p. node_key (heap s p)) ` set ps)"
    using assms(2) length_gomap [of "items s"] by (simp add: map_ok_def)
  also have "\<dots> = length ps"
    using assms(1) map_ok_keys_inj [OF assms(2)]
    by (simp add: card_image distinct_card list_ok_def)
  finally show ?thesis .
qed

lemma chain_linked: "linked h p ps None \<Longrightarrow> chain h (length ps) (first_of ps None) = ps"
  by (induction ps arbitrary: p) auto

lemma abs_shard_eq:
  assumes "list_ok s ps" "map_ok s ps"
  shows "abs_shard s = lru_of s ps"
  using assms chain_linked [of "heap s" None ps]
  by (simp add: abs_shard_def map_ok_length [OF assms] list_ok_def)

lemma gomap_ok_lru_of: "list_ok s ps \<Longrightarrow> map_ok s ps \<Longrightarrow> gomap_ok (lru_of s ps)"
  using map_ok_keys_inj [of s ps]
  by (simp add: gomap_ok_def lru_of_def binding_def list_ok_def distinct_map comp_def)

lemma map_of_lru_of:
  assumes "list_ok s ps" "map_ok s ps"
  shows "map_of (lru_of s ps) k = map_option (\<lambda>p. node_entry (heap s p)) (map_of (items s) k)"
proof (cases "map_of (items s) k")
  case None
  then have "k \<notin> fst ` set (lru_of s ps)"
    by (auto simp: map_okD_None [OF assms(2)] lru_of_def binding_def)
  with None show ?thesis by (simp only: map_of_eq_None_iff [symmetric] option.map)
next
  case (Some p)
  then have "(k, node_entry (heap s p)) \<in> set (lru_of s ps)"
    by (auto simp: map_okD [OF assms(2)] lru_of_def binding_def)
  then have "map_of (lru_of s ps) k = Some (node_entry (heap s p))"
    using gomap_ok_lru_of [OF assms] unfolding gomap_ok_def by (intro map_of_is_SomeI)
  with Some show ?thesis by simp
qed

lemma delete_notin_lru_of:
  "(\<And>p. p \<in> set ps \<Longrightarrow> node_key (heap s p) \<noteq> k) \<Longrightarrow> AList.delete k (lru_of s ps) = lru_of s ps"
  by (rule delete_id) (fastforce simp: lru_of_def binding_def)

lemma delete_lru_of:
  assumes "list_ok s (xs @ n # ys)" "map_ok s (xs @ n # ys)"
  shows "AList.delete (node_key (heap s n)) (lru_of s (xs @ n # ys)) = lru_of s (xs @ ys)"
proof -
  have ne: "node_key (heap s p) \<noteq> node_key (heap s n)" if "p \<in> set (xs @ ys)" for p
    using that inj_onD [OF map_ok_keys_inj [OF assms(2)], of p n] assms(1)
    by (auto simp: list_ok_def)
  have "AList.delete (node_key (heap s n)) (lru_of s (xs @ n # ys)) =
      AList.delete (node_key (heap s n)) (lru_of s (xs @ ys))"
    by (simp add: lru_of_def binding_def AList.delete_eq)
  also have "\<dots> = lru_of s (xs @ ys)" using ne by (rule delete_notin_lru_of)
  finally show ?thesis .
qed

lemma lru_of_frame:
  "(\<And>p. p \<in> set ps \<Longrightarrow> binding (heap s' p) = binding (heap s p)) \<Longrightarrow> lru_of s' ps = lru_of s ps"
  by (simp add: lru_of_def)

section \<open>Each operation refines its specification\<close>

text \<open>\<open>rep s xs\<close>: the shard is well formed and holds \<open>xs\<close>, most recently used first.\<close>

definition rep :: "'v shard \<Rightarrow> 'v lru \<Rightarrow> bool" where
  "rep s xs \<longleftrightarrow> (\<exists>ps. list_ok s ps \<and> map_ok s ps \<and> lru_of s ps = xs)"

lemma rep_abs: "rep s xs \<Longrightarrow> shard_inv s \<and> abs_shard s = xs"
  by (auto simp: rep_def shard_inv_def abs_shard_eq)

lemma inv_rep: "shard_inv s \<Longrightarrow> rep s (abs_shard s)"
  by (auto simp: rep_def shard_inv_def abs_shard_eq)

lemma rep_gomap_ok: "rep s xs \<Longrightarrow> gomap_ok xs"
  by (auto simp: rep_def gomap_ok_lru_of)

lemma rep_lookup:
  "rep s xs \<Longrightarrow> map_of xs k = map_option (\<lambda>p. node_entry (heap s p)) (map_of (items s) k)"
  by (auto simp: rep_def map_of_lru_of)

lemma rep_length: "rep s xs \<Longrightarrow> length xs = length (items s)"
  by (auto simp: rep_def map_ok_length lru_of_def)

lemma rep_new [inv_intros]: "rep (new_shard cap) []"
  by (auto simp: rep_def list_ok_def map_ok_def new_shard_def lru_of_def)

text \<open>A key of the map stands at one place of the list.\<close>

lemma rep_split:
  assumes "rep s xs" "map_of (items s) k = Some n"
  obtains ps qs where "list_ok s (ps @ n # qs)" "map_ok s (ps @ n # qs)"
    "lru_of s (ps @ n # qs) = xs" "node_key (heap s n) = k"
proof -
  obtain rs where rs: "list_ok s rs" "map_ok s rs" "lru_of s rs = xs"
    using assms(1) by (auto simp: rep_def)
  have "n \<in> set rs" "node_key (heap s n) = k" using map_okD [OF rs(2)] assms(2) by auto
  moreover then obtain ps qs where "rs = ps @ n # qs" by (auto simp: in_set_conv_decomp)
  ultimately show ?thesis using rs that by blast
qed

lemma binding_eqD: "binding x = binding y \<Longrightarrow> node_key x = node_key y \<and> node_entry x = node_entry y"
  by (simp add: binding_def)

lemmas binding_fields [simp] =
  unlinkLocked_frame(4) [THEN binding_eqD, THEN conjunct1]
  unlinkLocked_frame(4) [THEN binding_eqD, THEN conjunct2]
  pushFrontLocked_frame(4) [THEN binding_eqD, THEN conjunct1]
  pushFrontLocked_frame(4) [THEN binding_eqD, THEN conjunct2]
  moveToFrontLocked_frame(4) [THEN binding_eqD, THEN conjunct1]
  moveToFrontLocked_frame(4) [THEN binding_eqD, THEN conjunct2]
  removeLocked_frame(3) [THEN binding_eqD, THEN conjunct1]
  removeLocked_frame(3) [THEN binding_eqD, THEN conjunct2]

lemma map_ok_frame:
  assumes "map_ok s ps" "items s' = items s" "set qs = set ps"
    and "\<And>p. node_key (heap s' p) = node_key (heap s p)"
  shows "map_ok s' qs"
  using assms by (simp add: map_ok_def)

lemma rep_remove:
  assumes "rep s xs" "map_of (items s) k = Some n"
  shows "rep (removeLocked n s) (AList.delete k xs)"
proof -
  obtain ps qs where ps: "list_ok s (ps @ n # qs)" "map_ok s (ps @ n # qs)"
      "lru_of s (ps @ n # qs) = xs" "node_key (heap s n) = k"
    using rep_split [OF assms] .
  let ?s = "removeLocked n s"
  have items: "items ?s = AList.delete k (items s)"
    using ps(4) by (simp add: removeLocked_def Let_def)
  have l: "list_ok ?s (ps @ qs)"
    using unlinkLocked_ok [OF ps(1)] by (simp add: removeLocked_def Let_def list_ok_def)
  have n: "n \<notin> set (ps @ qs)" using ps(1) by (auto simp: list_ok_def)
  have "map_ok ?s (ps @ qs)"
    unfolding map_ok_def items
  proof (intro conjI allI)
    show "gomap_ok (AList.delete k (items s))" using ps(2) by (simp add: map_ok_def)
    fix k' p
    have "p \<noteq> n \<Longrightarrow> p \<in> set (ps @ qs) \<Longrightarrow> node_key (heap s p) \<noteq> k"
      using inj_onD [OF map_ok_keys_inj [OF ps(2)], of p n] ps(4) by auto
    then show "map_of (AList.delete k (items s)) k' = Some p
        \<longleftrightarrow> p \<in> set (ps @ qs) \<and> node_key (heap ?s p) = k'"
      using map_okD [OF ps(2), of k' p] n ps(4) by auto
  qed
  moreover have "lru_of ?s (ps @ qs) = AList.delete k xs"
    using delete_lru_of [OF ps(1,2)] ps(3,4) lru_of_frame [of "ps @ qs" ?s s] by simp
  ultimately show ?thesis using l by (auto simp: rep_def)
qed

lemma rep_move:
  assumes "rep s xs" "map_of (items s) k = Some n"
  shows "rep (moveToFrontLocked n s) (lru_front k (node_entry (heap s n)) xs)"
proof -
  obtain ps qs where ps: "list_ok s (ps @ n # qs)" "map_ok s (ps @ n # qs)"
      "lru_of s (ps @ n # qs) = xs" "node_key (heap s n) = k"
    using rep_split [OF assms] .
  let ?s = "moveToFrontLocked n s"
  have "list_ok ?s (n # ps @ qs)" using ps(1) by (rule moveToFrontLocked_ok)
  moreover have "map_ok ?s (n # ps @ qs)"
    using ps(2) by (rule map_ok_frame) auto
  moreover have "lru_of ?s (n # ps @ qs) = lru_front k (node_entry (heap s n)) xs"
    using delete_lru_of [OF ps(1,2)] ps(3,4) lru_of_frame [of "n # ps @ qs" ?s s]
    by (simp add: lru_front_def) (simp add: lru_of_def binding_def)
  ultimately show ?thesis by (auto simp: rep_def)
qed

lemma update_middle:
  "k \<notin> fst ` set xs \<Longrightarrow> AList.update k e (xs @ (k, v) # ys) = xs @ (k, e) # ys"
  by (induction xs) auto

lemma rep_entry:
  assumes "rep s xs" "map_of (items s) k = Some n"
  shows "rep (upd_node n (\<lambda>x. x\<lparr>node_entry := e\<rparr>) s) (AList.update k e xs)"
proof -
  obtain ps qs where ps: "list_ok s (ps @ n # qs)" "map_ok s (ps @ n # qs)"
      "lru_of s (ps @ n # qs) = xs" "node_key (heap s n) = k"
    using rep_split [OF assms] .
  let ?s = "upd_node n (\<lambda>x. x\<lparr>node_entry := e\<rparr>) s"
  have "linked (heap ?s) None (ps @ n # qs) None = linked (heap s) None (ps @ n # qs) None"
    by (rule linked_cong) simp
  then have "list_ok ?s (ps @ n # qs)" using ps(1) by (simp add: list_ok_def)
  moreover have "map_ok ?s (ps @ n # qs)" using ps(2) by (rule map_ok_frame) auto
  moreover have "lru_of ?s (ps @ n # qs) = AList.update k e xs"
  proof -
    have n: "n \<notin> set ps" "n \<notin> set qs" using ps(1) by (auto simp: list_ok_def)
    then have fr: "lru_of ?s ps = lru_of s ps" "lru_of ?s qs = lru_of s qs"
      by (auto intro: lru_of_frame)
    have "node_key (heap s p) \<noteq> k" if "p \<in> set ps" for p
      using that n(1) inj_onD [OF map_ok_keys_inj [OF ps(2)], of p n] ps(4) by auto
    then have "k \<notin> fst ` set (lru_of s ps)" by (force simp: lru_of_def binding_def)
    from update_middle [OF this, of e "node_entry (heap s n)" "lru_of s qs"]
    show ?thesis using ps(3,4) fr by (simp add: lru_of_def binding_def)
  qed
  ultimately show ?thesis by (auto simp: rep_def)
qed

lemma rep_overwrite:
  assumes "rep s xs" "map_of (items s) k = Some n"
  shows "rep (moveToFrontLocked n (upd_node n (\<lambda>x. x\<lparr>node_entry := e\<rparr>) s)) (lru_front k e xs)"
  using rep_move [OF rep_entry [OF assms, of e], of k n] assms(2)
  by (simp add: lru_front_def delete_update_same)

text \<open>The new node of an insertion, before the capacity check.\<close>

lemma rep_push:
  assumes "rep s xs" "map_of (items s) k = None" and n: "n = next_addr s"
    and s1_def: "s1 = s\<lparr>next_addr := n + 1,
     heap := (heap s)(n := \<lparr>node_key = k, node_entry = e, prev = None, next_ptr = None\<rparr>),
     items := AList.update k n (items s)\<rparr>"
  shows "rep (pushFrontLocked n s1) ((k, e) # xs)"
proof -
  obtain ps where ps: "list_ok s ps" "map_ok s ps" "lru_of s ps = xs"
    using assms(1) by (auto simp: rep_def)
  have np: "n \<notin> set ps" using ps(1) n by (auto simp: list_ok_def)
  have "list_ok s1 ps" using ps(1) np n by (auto simp: list_ok_def s1_def less_SucI)
  then have "list_ok (pushFrontLocked n s1) (n # ps)"
    using np by (rule pushFrontLocked_ok) (simp add: s1_def)
  moreover have "map_ok (pushFrontLocked n s1) (n # ps)"
    using ps(2) np assms(2) map_okD [OF ps(2)] map_okD_None [OF ps(2), of k]
    by (auto simp: map_ok_def s1_def)
  moreover have "lru_of (pushFrontLocked n s1) (n # ps) = (k, e) # xs"
    using ps(3) np by (auto simp: lru_of_def s1_def binding_def)
  ultimately show ?thesis by (auto simp: rep_def)
qed

lemma rep_tail:
  assumes "rep s xs" "xs \<noteq> []"
  obtains t where "tail s = Some t" "map_of (items s) (fst (last xs)) = Some t"
proof -
  obtain ps where ps: "list_ok s ps" "map_ok s ps" "lru_of s ps = xs"
    using assms(1) by (auto simp: rep_def)
  then have "ps \<noteq> []" using assms(2) by (auto simp: lru_of_def)
  then have "tail s = Some (last ps)" "fst (last xs) = node_key (heap s (last ps))"
      "last ps \<in> set ps"
    using ps(1,3) by (auto simp: list_ok_def last_of_def lru_of_def last_map binding_def)
  then show ?thesis using that map_okD [OF ps(2)] by auto
qed

lemma butlast_delete: "gomap_ok xs \<Longrightarrow> xs \<noteq> [] \<Longrightarrow> AList.delete (fst (last xs)) xs = butlast xs"
proof (induction xs)
  case (Cons p xs)
  then show ?case
    by (cases p) (auto simp: gomap_ok_Cons map_of_eq_None_iff AList.delete_eq)
qed simp

lemma rep_insert:
  assumes "rep s xs" "map_of (items s) k = None" "insertLocked k e (s, ev) = (s', ev')"
    and "lru_insert (capacity s) k e xs = (ys, b)"
  shows "rep s' ys \<and> ev' = ev + of_bool b \<and> capacity s' = capacity s"
proof -
  define n where "n = next_addr s"
  define s1 where "s1 = s\<lparr>next_addr := n + 1,
     heap := (heap s)(n := \<lparr>node_key = k, node_entry = e, prev = None, next_ptr = None\<rparr>),
     items := AList.update k n (items s)\<rparr>"
  let ?s = "pushFrontLocked n s1"
  have r: "rep ?s ((k, e) # xs)" by (rule rep_push [OF assms(1,2) n_def s1_def])
  obtain t where t: "tail ?s = Some t" "map_of (items ?s) (fst (last ((k, e) # xs))) = Some t"
    using rep_tail [OF r] by auto
  have "rep (removeLocked t ?s) (butlast ((k, e) # xs))"
    using rep_remove [OF r t(2)] butlast_delete [OF rep_gomap_ok [OF r]] by simp
  then show ?thesis
    using assms(3,4) r t(1) rep_length [OF r]
    by (auto simp: insertLocked_def lru_insert_def Let_def n_def [symmetric] s1_def split: if_splits)
qed

lemma rep_get:
  assumes "rep s xs" "shard_get now k s = (r, s')"
  shows "rep s' (snd (lru_get now k xs)) \<and> r = fst (lru_get now k xs) \<and> capacity s' = capacity s"
proof (cases "map_of (items s) k")
  case None
  then show ?thesis using assms rep_lookup [OF assms(1), of k] by (simp add: shard_get_def lru_get_def)
next
  case (Some n)
  then show ?thesis
    using assms rep_lookup [OF assms(1), of k] rep_remove [OF assms(1) Some]
      rep_move [OF assms(1) Some]
    by (auto simp: shard_get_def lru_get_def Let_def split: if_splits)
qed

lemma rep_set:
  assumes "rep s xs" "shard_set k e (s, ev) = (s', ev')" "lru_set (capacity s) k e xs = (ys, b)"
  shows "rep s' ys \<and> ev' = ev + of_bool b \<and> capacity s' = capacity s"
proof (cases "map_of (items s) k")
  case None
  then show ?thesis
    using assms rep_lookup [OF assms(1), of k] rep_insert [OF assms(1) None, of e ev s' ev' ys b]
    by (simp add: shard_set_def lru_set_def)
next
  case (Some n)
  then show ?thesis
    using assms rep_lookup [OF assms(1), of k] rep_overwrite [OF assms(1) Some]
    by (auto simp: shard_set_def lru_set_def)
qed

lemma rep_setIfNewer:
  assumes "rep s xs" "shard_setIfNewer now k e (s, ev) = (r, s', ev')"
    and "lru_setIfNewer (capacity s) now k e xs = (r', ys, b)"
  shows "rep s' ys \<and> r = r' \<and> ev' = ev + of_bool b \<and> capacity s' = capacity s"
proof (cases "map_of (items s) k")
  case None
  then show ?thesis
    using assms rep_lookup [OF assms(1), of k] rep_insert [OF assms(1) None, of e ev s' ev' ys b]
    by (simp add: shard_setIfNewer_def lru_setIfNewer_def)
next
  case (Some n)
  then show ?thesis
    using assms rep_lookup [OF assms(1), of k] rep_overwrite [OF assms(1) Some]
    by (auto simp: shard_setIfNewer_def lru_setIfNewer_def split: if_splits)
qed

lemma rep_delete:
  assumes "rep s xs"
  shows "rep (shard_delete k s) (lru_delete k xs) \<and> capacity (shard_delete k s) = capacity s"
proof (cases "map_of (items s) k")
  case None
  then have "map_of xs k = None" using rep_lookup [OF assms, of k] by simp
  then show ?thesis using None assms by (simp add: shard_delete_def lru_delete_def delete_fresh)
next
  case (Some n)
  then show ?thesis using rep_remove [OF assms Some] by (simp add: shard_delete_def lru_delete_def)
qed

section \<open>Histories of a shard\<close>

text \<open>
  Every history of one shard: a list of calls, each with the clock reading it sees. The answers and
  the eviction counter of the pointer code are compared with those of the list specification.
\<close>

datatype 'v shard_call =
    SGet time gokey
  | SSet gokey "'v entry"
  | SSetIfNewer time gokey "'v entry"
  | SDelete gokey

datatype 'v shard_answer = AEntry "'v entry option" | ABool bool | AUnit

fun shard_do :: "'v shard_call \<Rightarrow> 'v shard \<times> u64 \<Rightarrow> 'v shard_answer \<times> 'v shard \<times> u64" where
  "shard_do (SGet now k) (s, ev) = (let (r, s') = shard_get now k s in (AEntry r, s', ev))"
| "shard_do (SSet k e) (s, ev) = (AUnit, shard_set k e (s, ev))"
| "shard_do (SSetIfNewer now k e) (s, ev) =
     (let (b, st) = shard_setIfNewer now k e (s, ev) in (ABool b, st))"
| "shard_do (SDelete k) (s, ev) = (AUnit, shard_delete k s, ev)"

fun lru_do :: "int \<Rightarrow> 'v shard_call \<Rightarrow> 'v lru \<times> u64 \<Rightarrow> 'v shard_answer \<times> 'v lru \<times> u64" where
  "lru_do cap (SGet now k) (xs, ev) = (let (r, ys) = lru_get now k xs in (AEntry r, ys, ev))"
| "lru_do cap (SSet k e) (xs, ev) =
     (let (ys, b) = lru_set cap k e xs in (AUnit, ys, ev + of_bool b))"
| "lru_do cap (SSetIfNewer now k e) (xs, ev) =
     (let (r, ys, b) = lru_setIfNewer cap now k e xs in (ABool r, ys, ev + of_bool b))"
| "lru_do cap (SDelete k) (xs, ev) = (AUnit, lru_delete k xs, ev)"

fun shard_run :: "'v shard_call list \<Rightarrow> 'v shard \<times> u64 \<Rightarrow> 'v shard_answer list \<times> 'v shard \<times> u64" where
  "shard_run [] st = ([], st)"
| "shard_run (c # cs) st =
     (let (a, st1) = shard_do c st; (as, st2) = shard_run cs st1 in (a # as, st2))"

fun lru_run :: "int \<Rightarrow> 'v shard_call list \<Rightarrow> 'v lru \<times> u64 \<Rightarrow> 'v shard_answer list \<times> 'v lru \<times> u64" where
  "lru_run cap [] st = ([], st)"
| "lru_run cap (c # cs) st =
     (let (a, st1) = lru_do cap c st; (as, st2) = lru_run cap cs st1 in (a # as, st2))"

lemma shard_do_refines:
  assumes "rep s xs" "shard_do c (s, ev) = (a, s', ev')"
  shows "\<exists>ys. lru_do (capacity s) c (xs, ev) = (a, ys, ev') \<and> rep s' ys \<and> capacity s' = capacity s"
proof (cases c)
  case (SGet now k)
  then show ?thesis
    using assms rep_get [OF assms(1), of now k] by (auto simp: split: prod.splits)
next
  case (SSet k e)
  obtain ys b where "lru_set (capacity s) k e xs = (ys, b)" by force
  with SSet show ?thesis using assms rep_set [OF assms(1), of k e ev s' ev' ys b] by simp
next
  case (SSetIfNewer now k e)
  obtain r ys b where "lru_setIfNewer (capacity s) now k e xs = (r, ys, b)" by (metis prod_cases3)
  with SSetIfNewer show ?thesis
    using assms rep_setIfNewer [OF assms(1), of now k e ev _ s' ev' r ys b] by (auto split: prod.splits)
next
  case (SDelete k)
  then show ?thesis using assms rep_delete [OF assms(1)] by auto
qed

lemma shard_run_refines:
  assumes "rep s xs" "shard_run cs (s, ev) = (as, s', ev')"
  shows "\<exists>ys. lru_run (capacity s) cs (xs, ev) = (as, ys, ev') \<and> rep s' ys \<and> capacity s' = capacity s"
  using assms
proof (induction cs arbitrary: s xs ev as)
  case Nil
  then show ?case by simp
next
  case (Cons c cs)
  obtain a s1 ev1 bs where 1: "shard_do c (s, ev) = (a, s1, ev1)"
    "shard_run cs (s1, ev1) = (bs, s', ev')" "as = a # bs"
    using Cons.prems(2) by (auto split: prod.splits)
  obtain zs where 2: "lru_do (capacity s) c (xs, ev) = (a, zs, ev1)" "rep s1 zs"
      "capacity s1 = capacity s"
    using shard_do_refines [OF Cons.prems(1) 1(1)] by auto
  from Cons.IH [OF 2(2) 1(2)] 2 1(3) show ?case by auto
qed

text \<open>
  C7: every history of a shard made by \<open>New\<close> answers, counts evictions and ends exactly as the
  list specification does: the map and the doubly linked list of lru.go, with all their pointer
  updates, implement an LRU list with lazy expiry, and the shard stays well formed.
\<close>

theorem shard_refines_lru:
  "case shard_run cs (new_shard cap, ev) of (as, s, ev') \<Rightarrow>
     lru_run cap cs ([], ev) = (as, abs_shard s, ev') \<and> shard_inv s"
proof -
  obtain as s ev' where run: "shard_run cs (new_shard cap, ev) = (as, s, ev')"
    by (metis prod_cases3)
  show ?thesis
    using shard_run_refines [OF rep_new run] rep_abs [of s] run by (auto simp: new_shard_def)
qed

section \<open>Recency\<close>

text \<open>
  A key at position \<open>i\<close> of the list moves back by at most one place for each operation on another
  key, and only the last place is evicted.
\<close>

fun call_key :: "'v shard_call \<Rightarrow> gokey" where
  "call_key (SGet now k) = k"
| "call_key (SSet k e) = k"
| "call_key (SSetIfNewer now k e) = k"
| "call_key (SDelete k) = k"

definition within :: "nat \<Rightarrow> gokey \<Rightarrow> 'v entry \<Rightarrow> 'v lru \<Rightarrow> bool" where
  "within i k e xs \<longleftrightarrow> gomap_ok xs \<and> (\<exists>ys zs. xs = ys @ (k, e) # zs \<and> length ys \<le> i)"

lemma within_lookup: "within i k e xs \<Longrightarrow> map_of xs k = Some e"
  by (auto simp: within_def gomap_ok_def)

lemma within_delete:
  assumes "within i k e xs" "j \<noteq> k"
  shows "within i k e (AList.delete j xs)"
proof -
  obtain ys zs where xs: "xs = ys @ (k, e) # zs" "length ys \<le> i" using assms by (auto simp: within_def)
  have "AList.delete j xs = AList.delete j ys @ (k, e) # AList.delete j zs"
    using assms(2) by (simp add: xs AList.delete_eq)
  moreover have "length (AList.delete j ys) \<le> i" using length_delete_le [of j ys] xs(2) by simp
  moreover have "gomap_ok (AList.delete j xs)" using assms(1) by (simp add: within_def)
  ultimately show ?thesis unfolding within_def by blast
qed

lemma within_Cons:
  assumes "within i k e xs" "j \<noteq> k" "map_of xs j = None"
  shows "within (Suc i) k e ((j, d) # xs)"
proof -
  obtain ys zs where "xs = ys @ (k, e) # zs" "length ys \<le> i" using assms by (auto simp: within_def)
  then have "(j, d) # xs = ((j, d) # ys) @ (k, e) # zs" "length ((j, d) # ys) \<le> Suc i" by simp_all
  moreover have "gomap_ok ((j, d) # xs)" using assms by (simp add: within_def gomap_ok_Cons)
  ultimately show ?thesis unfolding within_def by blast
qed

lemma within_front:
  "within i k e xs \<Longrightarrow> j \<noteq> k \<Longrightarrow> within (Suc i) k e (lru_front j d xs)"
  by (simp add: lru_front_def within_Cons within_delete)

lemma within_butlast:
  assumes "within i k e xs" "Suc i < length xs"
  shows "within i k e (butlast xs)"
proof -
  obtain ys zs where xs: "xs = ys @ (k, e) # zs" "length ys \<le> i" using assms by (auto simp: within_def)
  then have "zs \<noteq> []" using assms(2) by auto
  then have "butlast xs = ys @ (k, e) # butlast zs" by (simp add: xs butlast_append)
  then show ?thesis using assms(1) xs(2) gomap_ok_butlast [of xs] unfolding within_def by blast
qed

lemma within_mono: "within i k e xs \<Longrightarrow> i \<le> j \<Longrightarrow> within j k e xs"
  by (force simp: within_def)

lemma within_insert:
  assumes "within i k e xs" "0 < cap \<longrightarrow> int i + 1 < cap" "j \<noteq> k" "map_of xs j = None"
    and "lru_insert cap j d xs = (ys, b)"
  shows "within (Suc i) k e ys"
  using within_Cons [OF assms(1,3,4), of d] within_butlast [of "Suc i" k e "(j, d) # xs"] assms(2,5)
  by (auto simp: lru_insert_def Let_def split: if_splits)

lemma lru_do_within:
  assumes "within i k e xs" "call_key c \<noteq> k" "0 < cap \<longrightarrow> int i + 1 < cap"
  shows "within (Suc i) k e (fst (snd (lru_do cap c (xs, ev))))"
proof -
  note w = within_front [OF assms(1)] within_insert [OF assms(1,3)]
    within_mono [OF within_delete [OF assms(1)], of _ "Suc i"] within_mono [OF assms(1), of "Suc i"]
  show ?thesis
    using assms(2) w
    by (cases c) (auto simp: lru_get_def lru_set_def lru_setIfNewer_def lru_delete_def
        split: prod.splits option.splits if_splits)
qed

lemma lru_run_within:
  assumes "within i k e xs" "\<forall>c \<in> set cs. call_key c \<noteq> k" "0 < cap \<longrightarrow> int (i + length cs) < cap"
  shows "within (i + length cs) k e (fst (snd (lru_run cap cs (xs, ev))))"
  using assms
proof (induction cs arbitrary: i xs ev)
  case Nil
  then show ?case by simp
next
  case (Cons c cs)
  obtain a ys ev1 where d: "lru_do cap c (xs, ev) = (a, ys, ev1)" by (metis prod_cases3)
  have "0 < cap \<longrightarrow> int i + 1 < cap" using Cons.prems(3) by auto
  then have "within (Suc i) k e ys"
    using lru_do_within [OF Cons.prems(1), of c cap ev] Cons.prems(2) d by simp
  from Cons.IH [OF this, of ev1] Cons.prems(2,3) d show ?case by (auto split: prod.splits)
qed

lemma touched_within:
  "gomap_ok xs \<Longrightarrow> lru_get now k xs = (Some e, ys) \<Longrightarrow> within 0 k e ys"
  by (auto simp: lru_get_def lru_front_def within_def gomap_ok_Cons
      split: option.splits if_splits)

text \<open>
  An entry that has just been read survives every sequence of fewer than \<open>capacity\<close> operations
  on other keys of its shard (any number of them when the shard is unbounded): the next read
  before its expiry still returns it. Only the least recently used entry is ever evicted.
\<close>

theorem recently_used_survives:
  assumes "shard_inv s" "shard_get now k s = (Some e, s1)"
    and "\<forall>c \<in> set cs. call_key c \<noteq> k" "0 < capacity s \<longrightarrow> int (length cs) < capacity s"
    and "shard_run cs (s1, ev) = (as, s2, ev2)" "\<not> Expired e now2"
  shows "fst (shard_get now2 k s2) = Some e"
proof -
  obtain xs where r: "rep s xs" using inv_rep [OF assms(1)] by auto
  obtain ys where ys: "lru_get now k xs = (Some e, ys)" "rep s1 ys" "capacity s1 = capacity s"
    using rep_get [OF r assms(2)] by (metis prod.collapse)
  have "within 0 k e ys" using touched_within [OF rep_gomap_ok [OF r] ys(1)] .
  from lru_run_within [OF this assms(3), of "capacity s1" ev] assms(4)
  have w: "within (length cs) k e (fst (snd (lru_run (capacity s1) cs (ys, ev))))"
    by (simp add: ys(3))
  obtain zs where zs: "lru_run (capacity s1) cs (ys, ev) = (as, zs, ev2)" "rep s2 zs"
    using shard_run_refines [OF ys(2) assms(5)] by auto
  have "fst (lru_get now2 k zs) = Some e"
    using within_lookup [OF w] zs(1) assms(6) by (simp add: lru_get_def)
  then show ?thesis using rep_get [OF zs(2), of now2 k] by (metis prod.collapse)
qed

definition demo_entry :: "int \<Rightarrow> u64 \<Rightarrow> int entry" where
  "demo_entry x v = \<lparr>Value = x, Version = v, StoredAt = 0, FreshUntil = 10, StaleUntil = 20, Negative = False\<rparr>"

definition demo_shard :: "int shard" where
  "demo_shard = fst (shard_set ''a'' (demo_entry 1 1) (new_shard 2, 0))"

lemmas shard_eval = shard_set_def shard_get_def insertLocked_def pushFrontLocked_def
  moveToFrontLocked_def upd_node_def new_shard_def Let_def

lemma demo_shard_inv: "shard_inv demo_shard"
  using rep_set [OF rep_new, of "''a''" "demo_entry 1 1" 2 0] rep_abs
  by (metis demo_shard_def fst_conv prod.exhaust)

theorem recently_used_survives_witness:
  "fst (shard_get 6 ''a'' (fst (snd (shard_run [SSet ''b'' (demo_entry 2 1)]
     (snd (shard_get 5 ''a'' demo_shard), 0))))) = Some (demo_entry 1 1)"
proof (rule recently_used_survives [where now = 5 and ev = 0 and s = demo_shard])
  show "shard_inv demo_shard" by (rule demo_shard_inv)
  show "shard_get 5 ''a'' demo_shard = (Some (demo_entry 1 1), snd (shard_get 5 ''a'' demo_shard))"
    by (simp add: demo_shard_def shard_eval Expired_def demo_entry_def)
  show "0 < capacity demo_shard \<longrightarrow> int (length [SSet ''b'' (demo_entry 2 1)]) < capacity demo_shard"
    by (simp add: demo_shard_def shard_eval)
  show "\<not> Expired (demo_entry 1 1) 6" by (simp add: Expired_def demo_entry_def)
qed (simp_all add: prod_eq_iff)

end
