(* ===== verification/Memory_Store.thy ===== *)
theory Memory_Store
  imports Lru_Shard Store_Interfaces "HOL-Library.Monad_Syntax"
begin

unbundle bit_operations_syntax

text \<open>
  The in-process L1 tier of store/memory: its options (options.go) and the sharded cache of
  lru.go over the shards of theory \<open>Lru_Shard\<close>. \<open>maphash.String\<close> with the cache's random seed is a
  parameter \<open>h\<close> of the operations: the code relies on nothing about it but that it is a function of
  the key. A Go \<open>int\<close> has 64 bits.

  \<open>roundUpPow2\<close> is a loop that does not end for every argument, so its result is an option.
\<close>

section \<open>Options and construction\<close>

record mem_config =
  cfg_capacity :: int
  cfg_shards :: int

definition defaultConfig :: mem_config where
  "defaultConfig = \<lparr>cfg_capacity = 10000, cfg_shards = 16\<rparr>"

definition WithCapacity :: "int \<Rightarrow> mem_config \<Rightarrow> mem_config" where
  "WithCapacity n c = c\<lparr>cfg_capacity := n\<rparr>"

definition WithShards :: "int \<Rightarrow> mem_config \<Rightarrow> mem_config" where
  "WithShards n c = c\<lparr>cfg_shards := n\<rparr>"

partial_function (option) pow2_loop :: "int \<Rightarrow> int \<Rightarrow> int option" where
  "pow2_loop n p = (if p < n then pow2_loop n (i64 (p * 2)) else Some p)"

definition roundUpPow2 :: "int \<Rightarrow> int option" where
  "roundUpPow2 n = (if n \<le> 1 then Some 1 else pow2_loop n 1)"

record 'v memcache =
  shards :: "'v shard list"
  mask_bits :: u64
  evictions :: u64

definition per_shard :: "int \<Rightarrow> int \<Rightarrow> int" where
  "per_shard cap n =
     (if 0 < cap
      then let q = go_div (i64 (i64 (cap + n) - 1)) n in if q < 1 then 1 else q
      else 0)"

definition mem_New :: "(mem_config \<Rightarrow> mem_config) list \<Rightarrow> ('v::zero) memcache option" where
  "mem_New opts =
     (let cfg = fold (\<lambda>f c. f c) opts defaultConfig
      in roundUpPow2 (cfg_shards cfg) \<bind> (\<lambda>n.
           Some \<lparr>shards = replicate (nat n) (new_shard (per_shard (cfg_capacity cfg) n)),
                 mask_bits = word_of_int (n - 1), evictions = 0\<rparr>))"

section \<open>Operations\<close>

definition shard_index :: "(gokey \<Rightarrow> u64) \<Rightarrow> 'v memcache \<Rightarrow> gokey \<Rightarrow> nat" where
  "shard_index h c key = unat (h key AND mask_bits c)"

definition shardFor :: "(gokey \<Rightarrow> u64) \<Rightarrow> 'v memcache \<Rightarrow> gokey \<Rightarrow> 'v shard" where
  "shardFor h c key = shards c ! shard_index h c key"

definition put_shard :: "(gokey \<Rightarrow> u64) \<Rightarrow> gokey \<Rightarrow> 'v shard \<times> u64 \<Rightarrow> 'v memcache \<Rightarrow> 'v memcache" where
  "put_shard h key = (\<lambda>(s, ev) c.
     c\<lparr>shards := (shards c)[shard_index h c key := s], evictions := ev\<rparr>)"

definition mem_Get ::
  "(gokey \<Rightarrow> u64) \<Rightarrow> time \<Rightarrow> gokey \<Rightarrow> ('v::zero) memcache \<Rightarrow>
    ('v entry \<times> bool \<times> go_error option) \<times> 'v memcache" where
  "mem_Get h now key c =
     (let (r, s) = shard_get now key (shardFor h c key);
          c' = put_shard h key (s, evictions c) c
      in case r of
           Some e \<Rightarrow> ((e, True, None), c')
         | None \<Rightarrow> ((zero_entry, False, None), c'))"

definition mem_Set ::
  "(gokey \<Rightarrow> u64) \<Rightarrow> time \<Rightarrow> gokey \<Rightarrow> 'v entry \<Rightarrow> 'v memcache \<Rightarrow> go_error option \<times> 'v memcache" where
  "mem_Set h now key e c =
     (None, put_shard h key (shard_set key e (shardFor h c key, evictions c)) c)"

definition mem_SetIfNewer ::
  "(gokey \<Rightarrow> u64) \<Rightarrow> time \<Rightarrow> gokey \<Rightarrow> 'v entry \<Rightarrow> 'v memcache \<Rightarrow>
    (bool \<times> go_error option) \<times> 'v memcache" where
  "mem_SetIfNewer h now key e c =
     (let (b, st) = shard_setIfNewer now key e (shardFor h c key, evictions c)
      in ((b, None), put_shard h key st c))"

definition mem_Delete ::
  "(gokey \<Rightarrow> u64) \<Rightarrow> gokey \<Rightarrow> 'v memcache \<Rightarrow> go_error option \<times> 'v memcache" where
  "mem_Delete h key c =
     (None, put_shard h key (shard_delete key (shardFor h c key), evictions c) c)"

definition mem_Close :: "'v memcache \<Rightarrow> go_error option \<times> 'v memcache" where
  "mem_Close c = (None, c)"

definition mem_Evictions :: "'v memcache \<Rightarrow> u64" where
  "mem_Evictions c = evictions c"

definition mem_Len :: "'v memcache \<Rightarrow> int" where
  "mem_Len c = fold (\<lambda>s n. n + shard_len s) (shards c) 0"

text \<open>The memory store as the cache sees it: \<open>Store\<close>, \<open>ConditionalStore\<close> and \<open>Metrics\<close>.\<close>

definition memory_ops :: "(gokey \<Rightarrow> u64) \<Rightarrow> ('v::zero memcache, 'v) l1_ops" where
  "memory_ops h = \<lparr>l1_Get = mem_Get h, l1_Set = mem_Set h, l1_Delete = mem_Delete h,
     l1_SetIfNewer = Some (mem_SetIfNewer h),
     l1_Metrics = Some (\<lambda>c. (mem_Evictions c, mem_Len c))\<rparr>"

text \<open>Histories of the store, in any interleaving of its callers: each call is atomic.\<close>

fun memory_do :: "(gokey \<Rightarrow> u64) \<Rightarrow> ('v::zero) shard_call \<Rightarrow> 'v memcache \<Rightarrow> 'v memcache" where
  "memory_do h (SGet now k) c = snd (mem_Get h now k c)"
| "memory_do h (SSet k e) c = snd (mem_Set h 0 k e c)"
| "memory_do h (SSetIfNewer now k e) c = snd (mem_SetIfNewer h now k e c)"
| "memory_do h (SDelete k) c = snd (mem_Delete h k c)"

definition memory_run :: "(gokey \<Rightarrow> u64) \<Rightarrow> ('v::zero) shard_call list \<Rightarrow> 'v memcache \<Rightarrow> 'v memcache" where
  "memory_run h cs c = fold (memory_do h) cs c"

section \<open>The abstract view and the invariant\<close>

definition mem_held :: "(gokey \<Rightarrow> u64) \<Rightarrow> 'v memcache \<Rightarrow> gokey \<Rightarrow> 'v entry option" where
  "mem_held h c k = map_of (abs_shard (shardFor h c k)) k"

definition shard_ok :: "int \<Rightarrow> 'v shard \<Rightarrow> bool" where
  "shard_ok cap s \<longleftrightarrow> shard_inv s \<and> capacity s = cap \<and> lru_ok cap (abs_shard s)"

definition placed :: "(gokey \<Rightarrow> u64) \<Rightarrow> 'v memcache \<Rightarrow> bool" where
  "placed h c \<longleftrightarrow> (\<forall>i < length (shards c). \<forall>k. map_of (abs_shard (shards c ! i)) k \<noteq> None
     \<longrightarrow> shard_index h c k = i)"

definition mem_ok :: "(gokey \<Rightarrow> u64) \<Rightarrow> int \<Rightarrow> 'v memcache \<Rightarrow> bool" where
  "mem_ok h cap c \<longleftrightarrow> (\<exists>m \<le> 62. length (shards c) = 2 ^ m \<and> mask_bits c = mask m)
     \<and> (\<forall>s \<in> set (shards c). shard_ok cap s) \<and> placed h c"

section \<open>Construction\<close>

lemma i64_double: "0 \<le> p \<Longrightarrow> p < 2 ^ 62 \<Longrightarrow> i64 (p * 2) = p * 2"
  by (rule i64_id) auto

lemma pow2_loop_result:
  assumes "m \<le> 62" "n \<le> 2 ^ 62"
  shows "\<exists>j. pow2_loop n (2 ^ m) = Some (2 ^ j) \<and> m \<le> j \<and> j \<le> 62 \<and> n \<le> 2 ^ j
    \<and> (2 ^ m < n \<longrightarrow> 2 ^ j < 2 * n)"
  using assms
proof (induction "62 - m" arbitrary: m)
  case 0
  then have "m = 62" by simp
  then show ?case using 0 by (subst pow2_loop.simps) (auto intro!: exI [of _ 62])
next
  case (Suc i)
  show ?case
  proof (cases "2 ^ m < n")
    case True
    have "(2::int) ^ m < 2 ^ 62" using Suc.hyps(2) by (intro power_strict_increasing) auto
    then have d: "i64 (2 ^ m * 2) = 2 ^ Suc m" using i64_double [of "2 ^ m"] by simp
    have i: "i = 62 - Suc m" "Suc m \<le> 62" using Suc.hyps(2) by auto
    obtain j where "pow2_loop n (2 ^ Suc m) = Some (2 ^ j)" "Suc m \<le> j" "j \<le> 62" "n \<le> 2 ^ j"
        "2 ^ Suc m < n \<longrightarrow> 2 ^ j < 2 * n"
      using Suc.hyps(1) [of "Suc m", OF i Suc.prems(2)] by auto
    moreover have "2 ^ j < 2 * n" if "\<not> 2 ^ Suc m < n"
    proof -
      have "pow2_loop n (2 ^ Suc m) = Some (2 ^ Suc m)"
        using that by (subst pow2_loop.simps) simp
      then have "(2::int) ^ j = 2 ^ Suc m" using calculation(1) by simp
      then show ?thesis using True by simp
    qed
    ultimately show ?thesis using True d by (subst pow2_loop.simps) (auto intro!: exI [of _ j])
  next
    case False
    then show ?thesis using Suc.prems by (subst pow2_loop.simps) (auto intro!: exI [of _ m])
  qed
qed

text \<open>Past \<open>2 ^ 62\<close> the shifted counter becomes negative, then 0, and stays 0.\<close>

lemma pow2_loop_zero_diverges:
  assumes "0 < n"
  shows "pow2_loop n 0 = None"
proof (rule ccontr)
  assume "pow2_loop n 0 \<noteq> None"
  then obtain r where r: "pow2_loop n 0 = Some r" by auto
  have "0 < n \<and> (0::int) = 0 \<longrightarrow> False"
  proof (rule pow2_loop.raw_induct [where P = "\<lambda>n p r. 0 < n \<and> p = 0 \<longrightarrow> False", OF _ r])
    fix f n p r
    assume IH: "\<And>n p r. f n p = Some r \<Longrightarrow> 0 < n \<and> p = 0 \<longrightarrow> False"
      and eq: "(if p < n then f n (i64 (p * 2)) else Some p) = Some (r::int)"
    show "0 < n \<and> p = 0 \<longrightarrow> False"
      using eq IH [of n 0 r] by (auto simp: i64_def split: if_splits)
  qed
  with assms show False by simp
qed

lemma pow2_loop_overflow: "pow2_loop n (2 ^ 62) = None" if "2 ^ 62 < n"
proof -
  have "pow2_loop n (2 ^ 62) = pow2_loop n (- (2 ^ 63))"
    using that by (subst pow2_loop.simps) (simp add: i64_def)
  also have "\<dots> = pow2_loop n 0"
    using that by (subst pow2_loop.simps) (simp add: i64_def)
  finally show ?thesis using pow2_loop_zero_diverges [of n] that by simp
qed

lemma pow2_loop_diverges: "m \<le> 62 \<Longrightarrow> 2 ^ 62 < n \<Longrightarrow> pow2_loop n (2 ^ m) = None"
proof (induction "62 - m" arbitrary: m)
  case 0
  then have "m = 62" by simp
  then show ?case using pow2_loop_overflow [OF 0(3)] by simp
next
  case (Suc i)
  have lt: "(2::int) ^ m < 2 ^ 62" using Suc.hyps(2) by (intro power_strict_increasing) auto
  then have d: "i64 (2 ^ m * 2) = 2 ^ Suc m" using i64_double [of "2 ^ m"] by simp
  have "2 ^ m < n" using lt Suc.prems(2) by linarith
  then have "pow2_loop n (2 ^ m) = pow2_loop n (2 ^ Suc m)"
    using d by (subst pow2_loop.simps) simp
  then show ?case using Suc.hyps(1) [of "Suc m"] Suc.hyps(2) Suc.prems by simp
qed

text \<open>
  C38: the rounding of the shard count returns exactly for counts up to \<open>2 ^ 62\<close>, and then with the
  least power of two that is at least the count (1 for a count below 1); above, the loop of
  options.go never ends, because its counter overflows to 0.
\<close>

theorem roundUpPow2_total:
  "if n \<le> 2 ^ 62
   then \<exists>j \<le> 62. roundUpPow2 n = Some (2 ^ j) \<and> n \<le> 2 ^ j \<and> (1 < n \<longrightarrow> 2 ^ j < 2 * n)
   else roundUpPow2 n = None"
proof (cases "n \<le> 1")
  case True
  then show ?thesis by (auto simp: roundUpPow2_def intro!: exI [of _ 0])
next
  case False
  then show ?thesis
    using pow2_loop_result [of 0 n] pow2_loop_diverges [of 0 n] by (auto simp: roundUpPow2_def)
qed

theorem roundUpPow2_total_witness:
  "\<exists>j \<le> 62. roundUpPow2 17 = Some (2 ^ j) \<and> 17 \<le> (2::int) ^ j \<and> 2 ^ j < (34::int)"
  using roundUpPow2_total [of 17] by simp

lemma roundUpPow2_result:
  assumes "roundUpPow2 n = Some p"
  shows "\<exists>j \<le> 62. p = 2 ^ j"
proof (cases "n \<le> 2 ^ 62")
  case True
  then show ?thesis
    using assms pow2_loop_result [of 0 n] by (auto simp: roundUpPow2_def split: if_splits)
next
  case False
  then show ?thesis using assms pow2_loop_diverges [of 0 n] by (auto simp: roundUpPow2_def)
qed

section \<open>Every operation keeps the invariant\<close>

lemma unat_and_mask_less: "m \<le> 62 \<Longrightarrow> unat ((x :: u64) AND mask m) < 2 ^ m"
  by (simp add: take_bit_eq_mask [symmetric] unsigned_take_bit_eq)

lemma shard_index_less: "mem_ok h cap c \<Longrightarrow> shard_index h c k < length (shards c)"
  by (auto simp: mem_ok_def shard_index_def unat_and_mask_less)

lemma shardFor_ok: "mem_ok h cap c \<Longrightarrow> shard_ok cap (shardFor h c k)"
  using shard_index_less [of h cap c k] by (auto simp: mem_ok_def shardFor_def)

lemma put_shard_simps [simp]:
  "shards (put_shard h k (s, ev) c) = (shards c)[shard_index h c k := s]"
  "mask_bits (put_shard h k (s, ev) c) = mask_bits c"
  "evictions (put_shard h k (s, ev) c) = ev"
  "shard_index h' (put_shard h k (s, ev) c) j = shard_index h' c j"
  by (simp_all add: put_shard_def shard_index_def)

lemma placedD:
  "placed h c \<Longrightarrow> i < length (shards c) \<Longrightarrow> k \<in> dom (map_of (abs_shard (shards c ! i)))
    \<Longrightarrow> shard_index h c k = i"
  by (auto simp: placed_def)

lemma placedI:
  "(\<And>i k. i < length (shards c) \<Longrightarrow> k \<in> dom (map_of (abs_shard (shards c ! i)))
    \<Longrightarrow> shard_index h c k = i) \<Longrightarrow> placed h c"
  by (simp add: placed_def dom_def)

lemma placed_put:
  assumes "placed h c" "shard_index h c k < length (shards c)"
    and "dom (map_of (abs_shard s)) \<subseteq> insert k (dom (map_of (abs_shard (shardFor h c k))))"
  shows "placed h (put_shard h k (s, ev) c)"
proof (rule placedI)
  fix i j assume i: "i < length (shards (put_shard h k (s, ev) c))"
    and j: "j \<in> dom (map_of (abs_shard (shards (put_shard h k (s, ev) c) ! i)))"
  show "shard_index h (put_shard h k (s, ev) c) j = i"
  proof (cases "i = shard_index h c k")
    case True
    then have "j \<in> dom (map_of (abs_shard s))" using j assms(2) by simp
    then have "j = k \<or> j \<in> dom (map_of (abs_shard (shards c ! shard_index h c k)))"
      using assms(3) unfolding shardFor_def by blast
    then show ?thesis using placedD [OF assms(1,2)] True by auto
  next
    case False
    then show ?thesis using placedD [OF assms(1), of i j] i j by simp
  qed
qed

lemma mem_put_ok:
  assumes "mem_ok h cap c" "shard_ok cap s"
    and "dom (map_of (abs_shard s)) \<subseteq> insert k (dom (map_of (abs_shard (shardFor h c k))))"
  shows "mem_ok h cap (put_shard h k (s, ev) c)"
proof -
  let ?i = "shard_index h c k"
  have "placed h (put_shard h k (s, ev) c)"
    using assms(1,3) shard_index_less [OF assms(1)] by (intro placed_put) (simp_all add: mem_ok_def)
  moreover have "\<forall>t \<in> set ((shards c)[?i := s]). shard_ok cap t"
    using assms(1,2) set_update_subset_insert [of "shards c" ?i s] unfolding mem_ok_def by blast
  ultimately show ?thesis using assms(1) unfolding mem_ok_def by simp
qed

text \<open>The view after a shard is replaced: other shards are untouched.\<close>

lemma mem_held_put:
  assumes "mem_ok h cap c"
  shows "mem_held h (put_shard h k (s, ev) c) j =
    (if shard_index h c j = shard_index h c k then map_of (abs_shard s) j else mem_held h c j)"
  using shard_index_less [OF assms, of k] by (simp add: mem_held_def shardFor_def)

lemma mem_held_put_le:
  assumes "mem_ok h cap c" "map_of (abs_shard s) \<subseteq>\<^sub>m map_of (abs_shard (shardFor h c k))"
  shows "mem_held h (put_shard h k (s, ev) c) \<subseteq>\<^sub>m mem_held h c"
  using assms(2) shard_index_less [OF assms(1), of k]
  unfolding map_le_def dom_def mem_held_def shardFor_def
  by (auto simp: nth_list_update split: if_splits)

lemma mem_held_put_upd:
  assumes "mem_ok h cap c" "map_of (abs_shard s) \<subseteq>\<^sub>m (map_of (abs_shard (shardFor h c k)))(k \<mapsto> e)"
  shows "mem_held h (put_shard h k (s, ev) c) \<subseteq>\<^sub>m (mem_held h c)(k \<mapsto> e)"
  using assms(2) shard_index_less [OF assms(1), of k]
  unfolding map_le_def dom_def mem_held_def shardFor_def
  by (auto simp: nth_list_update split: if_splits)

text \<open>One shard operation, from the refinement of theory \<open>Lru_Shard\<close>.\<close>

lemma shard_okD: "shard_ok cap s \<Longrightarrow> rep s (abs_shard s) \<and> capacity s = cap \<and> lru_ok cap (abs_shard s)"
  by (simp add: shard_ok_def inv_rep)

lemma shard_ok_rep: "rep s xs \<Longrightarrow> capacity s = cap \<Longrightarrow> lru_ok cap xs \<Longrightarrow> shard_ok cap s \<and> abs_shard s = xs"
  using rep_abs [of s xs] by (auto simp: shard_ok_def)

lemma shard_get_ok:
  assumes "shard_ok cap s" "shard_get now k s = (r, s')"
  shows "shard_ok cap s' \<and> lru_get now k (abs_shard s) = (r, abs_shard s')"
  using shard_okD [OF assms(1)] rep_get [OF _ assms(2), of "abs_shard s"] shard_ok_rep [of s' _ cap]
    lru_ok_get [of cap "abs_shard s" now k]
  by (metis prod.collapse)

lemma shard_set_ok:
  assumes "shard_ok cap s" "shard_set k e (s, ev) = (s', ev')"
  shows "shard_ok cap s' \<and> fst (lru_set cap k e (abs_shard s)) = abs_shard s'"
  using shard_okD [OF assms(1)] rep_set [OF _ assms(2), of "abs_shard s"] shard_ok_rep [of s' _ cap]
    lru_ok_set [of cap "abs_shard s" k e]
  by (metis prod.collapse)

lemma shard_setIfNewer_ok:
  assumes "shard_ok cap s" "shard_setIfNewer now k e (s, ev) = (r, s', ev')"
  shows "shard_ok cap s' \<and> (\<exists>b. lru_setIfNewer cap now k e (abs_shard s) = (r, abs_shard s', b))"
proof -
  obtain r' ys b where l: "lru_setIfNewer cap now k e (abs_shard s) = (r', ys, b)"
    by (metis prod_cases3)
  have s: "rep s (abs_shard s)" "capacity s = cap" "lru_ok cap (abs_shard s)"
    using shard_okD [OF assms(1)] by auto
  have "rep s' ys \<and> r = r' \<and> capacity s' = cap"
    using rep_setIfNewer [OF s(1) assms(2)] l s(2) by auto
  moreover have "lru_ok cap ys" using lru_ok_setIfNewer [OF s(3), of now k e] l by simp
  ultimately show ?thesis using shard_ok_rep [of s' ys cap] l by auto
qed

lemma shard_delete_ok:
  assumes "shard_ok cap s"
  shows "shard_ok cap (shard_delete k s) \<and> abs_shard (shard_delete k s) = AList.delete k (abs_shard s)"
proof -
  have s: "rep s (abs_shard s)" "capacity s = cap" "lru_ok cap (abs_shard s)"
    using shard_okD [OF assms] by auto
  show ?thesis
    using rep_delete [OF s(1), of k] s(2) lru_ok_delete [OF s(3), of k]
    by (intro shard_ok_rep) (simp_all add: lru_delete_def)
qed

section \<open>The memory store keeps the L1 contract\<close>

lemma map_le_dom: "m \<subseteq>\<^sub>m m'(k \<mapsto> e) \<Longrightarrow> dom m \<subseteq> insert k (dom m')"
  using map_le_implies_dom_le [of m "m'(k \<mapsto> e)"] by simp

lemma mem_Get_law:
  assumes "mem_ok h cap c" "mem_Get h now k c = ((e, found, err), c')"
  shows "mem_ok h cap c' \<and> mem_held h c' \<subseteq>\<^sub>m mem_held h c \<and> err = None
    \<and> (if found then mem_held h c k = Some e \<and> mem_held h c' k = Some e \<and> \<not> Expired e now
       else \<forall>d. mem_held h c k = Some d \<longrightarrow> Expired d now)"
proof -
  let ?s = "shardFor h c k"
  obtain r s where g: "shard_get now k ?s = (r, s)" by force
  have c': "c' = put_shard h k (s, evictions c) c" "err = None"
      "(case r of Some d \<Rightarrow> found \<and> e = d | None \<Rightarrow> \<not> found)"
    using assms(2) g by (auto simp: mem_Get_def Let_def split: option.splits)
  have ok: "shard_ok cap s" "lru_get now k (abs_shard ?s) = (r, abs_shard s)"
    using shard_get_ok [OF shardFor_ok [OF assms(1)] g] by auto
  note v = lru_get_view [OF ok(2)]
  have le: "map_of (abs_shard s) \<subseteq>\<^sub>m map_of (abs_shard ?s)" using v by blast
  have "mem_ok h cap c'"
    unfolding c'(1) using assms(1) ok(1) by (rule mem_put_ok) (use map_le_implies_dom_le [OF le] in blast)
  moreover have "mem_held h c' \<subseteq>\<^sub>m mem_held h c"
    unfolding c'(1) using mem_held_put_le [OF assms(1) le] .
  ultimately show ?thesis
    using v c'(2,3) mem_held_put [OF assms(1), of k s "evictions c" k]
    by (auto simp: c'(1) mem_held_def split: option.splits)
qed

lemma mem_Set_law:
  assumes "mem_ok h cap c" "mem_Set h now k e c = (err, c')"
  shows "mem_ok h cap c' \<and> mem_held h c' \<subseteq>\<^sub>m (mem_held h c)(k \<mapsto> e) \<and> mem_held h c' k = Some e
    \<and> err = None"
proof -
  let ?s = "shardFor h c k"
  obtain s ev where g: "shard_set k e (?s, evictions c) = (s, ev)" by force
  have c': "c' = put_shard h k (s, ev) c" "err = None" using assms(2) g by (auto simp: mem_Set_def)
  have ok: "shard_ok cap s" "fst (lru_set cap k e (abs_shard ?s)) = abs_shard s"
    using shard_set_ok [OF shardFor_ok [OF assms(1)] g] by auto
  have "gomap_ok (abs_shard ?s)" using shardFor_ok [OF assms(1)] by (auto simp: shard_ok_def lru_ok_def)
  from lru_set_view [OF this, of cap k e "abs_shard s"] ok(2)
  have v: "map_of (abs_shard s) \<subseteq>\<^sub>m (map_of (abs_shard ?s))(k \<mapsto> e)" "map_of (abs_shard s) k = Some e"
    by (metis prod.collapse)+
  have "mem_ok h cap c'" unfolding c'(1) using mem_put_ok [OF assms(1) ok(1) map_le_dom [OF v(1)]] .
  then show ?thesis
    using mem_held_put_upd [OF assms(1) v(1)] mem_held_put [OF assms(1), of k s ev k] v(2) c'
    by simp
qed

lemma mem_SetIfNewer_law:
  assumes "mem_ok h cap c" "mem_SetIfNewer h now k e c = ((b, err), c')"
  shows "mem_ok h cap c' \<and> err = None \<and>
    (if b then mem_held h c' \<subseteq>\<^sub>m (mem_held h c)(k \<mapsto> e) \<and> mem_held h c' k = Some e
       \<and> (\<forall>d. mem_held h c k = Some d \<longrightarrow> Expired d now \<or> Version d < Version e)
     else c' = c \<and> (\<exists>d. mem_held h c k = Some d \<and> \<not> Expired d now \<and> Version e \<le> Version d))"
proof -
  let ?s = "shardFor h c k"
  obtain s ev where g: "shard_setIfNewer now k e (?s, evictions c) = (b, s, ev)"
    and c': "c' = put_shard h k (s, ev) c" "err = None"
    using assms(2) by (auto simp: mem_SetIfNewer_def split: prod.splits)
  obtain b' where ok: "shard_ok cap s" "lru_setIfNewer cap now k e (abs_shard ?s) = (b, abs_shard s, b')"
    using shard_setIfNewer_ok [OF shardFor_ok [OF assms(1)] g] by auto
  have gm: "gomap_ok (abs_shard ?s)" using shardFor_ok [OF assms(1)] by (auto simp: shard_ok_def lru_ok_def)
  note v = lru_setIfNewer_view [OF gm ok(2)]
  show ?thesis
  proof (cases b)
    case True
    then have le: "map_of (abs_shard s) \<subseteq>\<^sub>m (map_of (abs_shard ?s))(k \<mapsto> e)" using v by simp
    have "mem_ok h cap c'" unfolding c'(1) using mem_put_ok [OF assms(1) ok(1) map_le_dom [OF le]] .
    then show ?thesis
      using True v mem_held_put_upd [OF assms(1) le] mem_held_put [OF assms(1), of k s ev k] c'
      by (auto simp: mem_held_def)
  next
    case False
    then have "s = ?s" "ev = evictions c"
      using g by (auto simp: shard_setIfNewer_def split: option.splits if_splits)
    then have "c' = c" using c'(1) by (simp add: put_shard_def shardFor_def)
    then show ?thesis using False v c'(2) assms(1) by (simp add: mem_held_def)
  qed
qed

lemma mem_Delete_law:
  assumes "mem_ok h cap c" "mem_Delete h k c = (err, c')"
  shows "mem_ok h cap c' \<and> mem_held h c' = (mem_held h c)(k := None) \<and> err = None"
proof -
  let ?s = "shardFor h c k"
  have c': "c' = put_shard h k (shard_delete k ?s, evictions c) c" "err = None"
    using assms(2) by (auto simp: mem_Delete_def)
  have ok: "shard_ok cap (shard_delete k ?s)"
      "abs_shard (shard_delete k ?s) = AList.delete k (abs_shard ?s)"
    using shard_delete_ok [OF shardFor_ok [OF assms(1)]] by auto
  have "mem_ok h cap c'"
    unfolding c'(1) using assms(1) ok(1) by (rule mem_put_ok) (auto simp: ok(2) split: if_splits)
  moreover have "mem_held h c' j = ((mem_held h c)(k := None)) j" for j
    using mem_held_put [OF assms(1), of k _ "evictions c" j] c'(1) ok(2)
    by (simp add: mem_held_def shardFor_def)
  ultimately show ?thesis using c'(2) by (simp add: fun_eq_iff)
qed

interpretation memory_tier: l1_tier "memory_ops h" "mem_held h" "mem_ok h cap" for h cap
proof unfold_locales
  fix s now k e found err s'
  assume "mem_ok h cap s" "l1_Get (memory_ops h) now k s = ((e, found, err), s')"
  then show "mem_ok h cap s' \<and> mem_held h s' \<subseteq>\<^sub>m mem_held h s \<and> err = None
      \<and> (if found then mem_held h s k = Some e \<and> mem_held h s' k = Some e \<and> \<not> Expired e now
         else \<forall>d. mem_held h s k = Some d \<longrightarrow> Expired d now)"
    using mem_Get_law [of h cap s now k e found err s'] by (simp add: memory_ops_def)
next
  fix s now k e err s'
  assume "mem_ok h cap s" "l1_Set (memory_ops h) now k e s = (err, s')"
  then show "mem_ok h cap s' \<and> mem_held h s' \<subseteq>\<^sub>m (mem_held h s)(k \<mapsto> e) \<and> mem_held h s' k = Some e \<and> err = None"
    using mem_Set_law [of h cap s now k e err s'] by (simp add: memory_ops_def)
next
  fix s k err s'
  assume "mem_ok h cap s" "l1_Delete (memory_ops h) k s = (err, s')"
  then show "mem_ok h cap s' \<and> mem_held h s' = (mem_held h s)(k := None) \<and> err = None"
    using mem_Delete_law [of h cap s k err s'] by (simp add: memory_ops_def)
next
  fix s f now k e b err s'
  assume "mem_ok h cap s" "l1_SetIfNewer (memory_ops h) = Some f" "f now k e s = ((b, err), s')"
  then show "mem_ok h cap s' \<and> err = None \<and>
      (if b then mem_held h s' \<subseteq>\<^sub>m (mem_held h s)(k \<mapsto> e) \<and> mem_held h s' k = Some e
         \<and> (\<forall>d. mem_held h s k = Some d \<longrightarrow> Expired d now \<or> Version d < Version e)
       else s' = s \<and> (\<exists>d. mem_held h s k = Some d \<and> \<not> Expired d now \<and> Version e \<le> Version d))"
    using mem_SetIfNewer_law [of h cap s now k e b err s'] by (auto simp: memory_ops_def)
qed

section \<open>Histories of the store\<close>

lemma mask_word_of_int: "m \<le> 62 \<Longrightarrow> (word_of_int (2 ^ m - 1) :: u64) = mask m"
  by (simp add: mask_eq_exp_minus_1)

lemma mem_New_ok:
  assumes "mem_New opts = Some c"
  shows "mem_ok h (per_shard (cfg_capacity (fold (\<lambda>f c. f c) opts defaultConfig)) (int (length (shards c)))) c"
    and "mem_held h c = Map.empty" and "0 < length (shards c)"
proof -
  let ?cfg = "fold (\<lambda>f c. f c) opts defaultConfig"
  obtain n where n: "roundUpPow2 (cfg_shards ?cfg) = Some n"
    and c: "c = \<lparr>shards = replicate (nat n) (new_shard (per_shard (cfg_capacity ?cfg) n)),
                 mask_bits = word_of_int (n - 1), evictions = 0\<rparr>"
    using assms by (auto simp: mem_New_def Let_def split: bind_splits)
  obtain m where m: "m \<le> 62" "n = 2 ^ m" using roundUpPow2_result [OF n] by blast
  have len: "length (shards c) = 2 ^ m" "mask_bits c = mask m"
    using m mask_word_of_int by (simp_all add: c nat_power_eq)
  have sh: "\<forall>s \<in> set (shards c). shard_ok (per_shard (cfg_capacity ?cfg) n) s \<and> abs_shard s = []"
    using rep_abs [OF rep_new] by (auto simp: c shard_ok_def new_shard_def)
  have idx: "shard_index h c k < length (shards c)" for k
    using m len by (simp add: shard_index_def unat_and_mask_less)
  show "mem_held h c = Map.empty"
    using sh idx by (auto simp: mem_held_def shardFor_def fun_eq_iff)
  show "0 < length (shards c)" using len by simp
  show "mem_ok h (per_shard (cfg_capacity ?cfg) (int (length (shards c)))) c"
    using len m sh by (auto simp: mem_ok_def placed_def)
qed

lemma memory_do_ok [inv_intros]:
  assumes "mem_ok h cap c" shows "mem_ok h cap (memory_do h call c)"
proof (cases call)
  case (SGet now k)
  then show ?thesis using mem_Get_law [OF assms, of now k] by (metis memory_do.simps(1) prod.collapse)
next
  case (SSet k e)
  then show ?thesis using mem_Set_law [OF assms, of 0 k e] by (metis memory_do.simps(2) prod.collapse)
next
  case (SSetIfNewer now k e)
  then show ?thesis
    using mem_SetIfNewer_law [OF assms, of now k e] by (metis memory_do.simps(3) prod.collapse)
next
  case (SDelete k)
  then show ?thesis using mem_Delete_law [OF assms, of k] by (metis memory_do.simps(4) prod.collapse)
qed

lemma memory_do_shards [simp]: "length (shards (memory_do h call c)) = length (shards c)"
  by (cases call) (auto simp: mem_Get_def mem_Set_def mem_SetIfNewer_def mem_Delete_def put_shard_def
      Let_def split: prod.splits option.splits)

lemma memory_run_ok:
  "mem_ok h cap c \<Longrightarrow>
    mem_ok h cap (memory_run h cs c) \<and> length (shards (memory_run h cs c)) = length (shards c)"
  by (induction cs arbitrary: c) (simp_all add: memory_run_def memory_do_ok)

text \<open>The length counts every held key once.\<close>

lemma mem_Len_sum: "mem_Len c = (\<Sum>s \<leftarrow> shards c. shard_len s)"
proof -
  have "fold (\<lambda>s n. n + shard_len s) ss a = a + (\<Sum>s \<leftarrow> ss. shard_len s)" for ss :: "'a shard list" and a
    by (induction ss arbitrary: a) simp_all
  then show ?thesis by (simp add: mem_Len_def)
qed

lemma shard_len_card: "shard_ok cap s \<Longrightarrow> shard_len s = int (card (dom (map_of (abs_shard s))))"
  using rep_length [of s "abs_shard s"] length_gomap [of "abs_shard s"]
  by (simp add: shard_ok_def inv_rep lru_ok_def shard_len_def)

lemma shard_len_bound: "shard_ok cap s \<Longrightarrow> 0 < cap \<Longrightarrow> shard_len s \<le> cap"
  using rep_length [of s "abs_shard s"] by (simp add: shard_ok_def inv_rep lru_ok_def shard_len_def)

lemma mem_held_dom:
  assumes "mem_ok h cap c"
  shows "dom (mem_held h c) = (\<Union>i < length (shards c). dom (map_of (abs_shard (shards c ! i))))"
  using shard_index_less [OF assms] placedD [of h c] assms
  by (fastforce simp: mem_ok_def mem_held_def shardFor_def)

lemma mem_Len_card:
  assumes "mem_ok h cap c"
  shows "mem_Len c = int (card (dom (mem_held h c)))"
proof -
  let ?d = "\<lambda>i. dom (map_of (abs_shard (shards c ! i)))"
  have "?d i \<inter> ?d j = {}" if "i < length (shards c)" "j < length (shards c)" "i \<noteq> j" for i j
    using that placedD [of h c i] placedD [of h c j] assms unfolding mem_ok_def by blast
  then have "card (dom (mem_held h c)) = (\<Sum>i < length (shards c). card (?d i))"
    unfolding mem_held_dom [OF assms] by (intro card_UN_disjoint) (auto simp: finite_dom_map_of)
  moreover have "(\<Sum>s \<leftarrow> shards c. shard_len s) = (\<Sum>i < length (shards c). shard_len (shards c ! i))"
    by (simp add: sum_list_sum_nth atLeast0LessThan)
  moreover have "shard_len (shards c ! i) = int (card (?d i))" if "i < length (shards c)" for i
  proof -
    have "shards c ! i \<in> set (shards c)" using that by simp
    then have "shard_ok cap (shards c ! i)" using assms unfolding mem_ok_def by blast
    then show ?thesis by (rule shard_len_card)
  qed
  ultimately show ?thesis by (simp add: mem_Len_sum)
qed

lemma mem_Len_bound:
  assumes "mem_ok h cap c" "0 < cap"
  shows "mem_Len c \<le> int (length (shards c)) * cap"
proof -
  have "\<forall>s \<in> set (shards c). shard_len s \<le> cap" using assms shard_len_bound by (auto simp: mem_ok_def)
  then have "(\<Sum>s \<leftarrow> ss. shard_len s) \<le> int (length ss) * cap" if "set ss \<subseteq> set (shards c)" for ss
    using that by (induction ss) (auto simp: algebra_simps)
  then show ?thesis by (simp add: mem_Len_sum)
qed

lemma per_shard_bounds:
  assumes "0 < cap" "0 < n" "cap + n < 2 ^ 63"
  shows "cap \<le> n * per_shard cap n" "n * per_shard cap n < cap + n" "0 < per_shard cap n"
proof -
  have i: "i64 (i64 (cap + n) - 1) = cap + n - 1" using assms by (simp add: i64_id)
  let ?q = "(cap + n - 1) div n"
  have m: "n * ?q + (cap + n - 1) mod n = cap + n - 1" by (rule mult_div_mod_eq)
  have r: "0 \<le> (cap + n - 1) mod n" "(cap + n - 1) mod n < n" using assms(2) by simp_all
  have "0 < n * ?q" using m r assms(1) by linarith
  then have "0 < ?q" using assms(2) by (simp add: zero_less_mult_iff)
  moreover have "per_shard cap n = (if ?q < 1 then 1 else ?q)"
    unfolding per_shard_def i Let_def using assms by (simp add: go_div_nonneg)
  ultimately have q: "per_shard cap n = ?q" "0 < ?q" by auto
  show "cap \<le> n * per_shard cap n" unfolding q(1) using m r by linarith
  show "n * per_shard cap n < cap + n" unfolding q(1) using m r by linarith
  show "0 < per_shard cap n" unfolding q(1) using q(2) .
qed

text \<open>
  C34: after any history of calls on a new memory store, \<open>Len\<close> counts exactly the keys that are held,
  and a positive capacity bounds it: with n shards it is at most n times the shard capacity, which
  is the requested capacity rounded up to a multiple of n (for capacities whose sum with the shard
  count fits a Go int).
\<close>

theorem memory_len_bounded:
  assumes "mem_New opts = Some c0"
    and "cap = cfg_capacity (fold (\<lambda>f c. f c) opts defaultConfig)" "n = int (length (shards c0))"
    and "c = memory_run h cs c0"
  shows "mem_Len c = int (card (dom (mem_held h c)))
    \<and> (0 < cap \<and> cap + n < 2 ^ 63 \<longrightarrow> mem_Len c \<le> n * per_shard cap n
      \<and> cap \<le> n * per_shard cap n \<and> n * per_shard cap n < cap + n)"
proof -
  have ok: "mem_ok h (per_shard cap n) c" "length (shards c) = length (shards c0)"
    using memory_run_ok [OF mem_New_ok(1) [OF assms(1)]] assms(2-4) by auto
  show ?thesis
    using mem_Len_card [OF ok(1)] mem_Len_bound [OF ok(1)] ok(2) assms(3) mem_New_ok(3) [OF assms(1)]
      per_shard_bounds [of cap n] by simp
qed

definition demo_store :: "int memcache" where
  "demo_store = \<lparr>shards = replicate 2 (new_shard 1), mask_bits = 1, evictions = 0\<rparr>"

lemma demo_store_New: "mem_New [WithCapacity 1, WithShards 2] = Some demo_store"
  by (simp add: mem_New_def roundUpPow2_def pow2_loop.simps i64_def per_shard_def go_div_def
      demo_store_def defaultConfig_def WithCapacity_def WithShards_def Let_def)

text \<open>Two keys that fall in different shards are both kept, although the capacity asked for is 1.\<close>

definition demo_hash :: "gokey \<Rightarrow> u64" where
  "demo_hash k = of_nat (length k)"

definition demo_two :: "int shard_call list" where
  "demo_two = [SSet ''a'' (demo_entry 7 1), SSet ''ab'' (demo_entry 8 2)]"

theorem memory_len_bounded_witness:
  "mem_Len (memory_run demo_hash demo_two demo_store)
      = int (card (dom (mem_held demo_hash (memory_run demo_hash demo_two demo_store))))
    \<and> mem_Len (memory_run demo_hash demo_two demo_store) \<le> 2 * per_shard 1 2"
  using memory_len_bounded [OF demo_store_New refl refl refl, of demo_hash demo_two]
  by (simp add: defaultConfig_def WithCapacity_def WithShards_def demo_store_def)

text \<open>
  The requested capacity itself is not a bound (options.go documents a maximum), and near the largest
  Go int the rounding sum overflows: the store then keeps one entry per shard.
\<close>

lemma capacity_not_a_maximum:
  "mem_New [WithCapacity 1, WithShards 2] = Some demo_store
    \<and> mem_Len (memory_run demo_hash demo_two demo_store) = 2"
  by (simp add: demo_store_New) (simp add: demo_store_def demo_two_def memory_run_def mem_Set_def
      put_shard_def shardFor_def shard_index_def demo_hash_def mem_Len_def shard_len_def shard_eval
      numeral_2_eq_2)

lemma capacity_overflow: "per_shard (2 ^ 63 - 1) 16 = 1"
  by (simp add: per_shard_def i64_def go_div_def)

end
