(* ===== verification/Versioned_Spec.thy ===== *)
theory Versioned_Spec
  imports Store_Interfaces
begin

text \<open>
  The abstract specification of the shared tier, as the comments of store/store.go on
  \<open>VersionedStore\<close> put it: each key is absent, or a tombstone with a version, or a live entry with a
  version; \<open>SetCAS\<close> stores under the next version if the expected version is the current one;
  \<open>CompareAndDelete\<close> leaves a tombstone with the next version if the given version is at least the
  current one; the sentinel \<open>ForceVersion\<close> skips both guards. The next version is the successor of the
  current one, or a seed for a key that holds nothing. Nothing expires and nothing fails here.
\<close>

datatype 'v cell = Absent | Tomb u64 | Live "'v entry"

fun cell_version :: "'v cell \<Rightarrow> u64" where
  "cell_version Absent = 0"
| "cell_version (Tomb v) = v"
| "cell_version (Live e) = Version e"

fun cell_live :: "'v cell \<Rightarrow> 'v entry option" where
  "cell_live (Live e) = Some e"
| "cell_live _ = None"

record 'v vstore =
  cells :: "gokey \<Rightarrow> 'v cell"
  tagged :: "string \<Rightarrow> gokey list"
  vclock :: time
  vseed :: u64

text \<open>The next version of a key: its successor, or the seed where nothing is stored.\<close>

definition vs_next :: "'v vstore \<Rightarrow> gokey \<Rightarrow> u64" where
  "vs_next b k = (case cells b k of Absent \<Rightarrow> vseed b | x \<Rightarrow> cell_version x + 1)"

definition vs_Load :: "gokey \<Rightarrow> ('v::zero) vstore \<Rightarrow> ('v entry \<times> bool \<times> go_error option) \<times> 'v vstore" where
  "vs_Load k b = (case cells b k of
       Live e \<Rightarrow> ((e, True, None), b)
     | x \<Rightarrow> ((zero_entry\<lparr>Version := cell_version x\<rparr>, False, None), b))"

definition vs_SetCAS ::
  "gokey \<Rightarrow> 'v \<Rightarrow> u64 \<Rightarrow> time \<Rightarrow> time \<Rightarrow> string list \<Rightarrow> 'v vstore \<Rightarrow> (go_error + 'v entry) \<times> 'v vstore" where
  "vs_SetCAS k v expect fu su ts b =
     (let cur = cell_version (cells b k)
      in if expect \<noteq> ForceVersion \<and> expect \<noteq> cur then (Inl ErrVersionConflict, b)
         else let e = \<lparr>Value = v, Version = vs_next b k, StoredAt = vclock b, FreshUntil = fu,
                       StaleUntil = su, Negative = False\<rparr>
              in (Inr e, b\<lparr>cells := (cells b)(k := Live e),
                           tagged := (\<lambda>t. if t \<in> set ts then List.insert k (tagged b t) else tagged b t)\<rparr>))"

definition vs_CompareAndDelete ::
  "gokey \<Rightarrow> u64 \<Rightarrow> 'v vstore \<Rightarrow> (u64 \<times> bool \<times> go_error option) \<times> 'v vstore" where
  "vs_CompareAndDelete k version b =
     (let cur = cell_version (cells b k)
      in if version \<noteq> ForceVersion \<and> version < cur then ((cur, False, None), b)
         else ((vs_next b k, True, None), b\<lparr>cells := (cells b)(k := Tomb (vs_next b k))\<rparr>))"

definition vs_DeleteByTag :: "string \<Rightarrow> 'v vstore \<Rightarrow> (gokey list \<times> go_error option) \<times> 'v vstore" where
  "vs_DeleteByTag t b = ((tagged b t, None),
     fold (\<lambda>k b. snd (vs_CompareAndDelete k ForceVersion b)) (tagged b t)
       (b\<lparr>tagged := (tagged b)(t := [])\<rparr>))"

definition vs_ops :: "('v::zero vstore, 'v) l2_ops" where
  "vs_ops = \<lparr>l2_Load = vs_Load, l2_SetCAS = vs_SetCAS, l2_CompareAndDelete = vs_CompareAndDelete,
     l2_DeleteByTag = vs_DeleteByTag, l2_TombstoneTTL = None\<rparr>"

definition vs_empty :: "'v vstore" where
  "vs_empty = \<lparr>cells = (\<lambda>_. Absent), tagged = (\<lambda>_. []), vclock = 0, vseed = 1\<rparr>"

lemmas vs_defs = vs_ops_def vs_Load_def vs_SetCAS_def vs_CompareAndDelete_def vs_next_def vs_empty_def Let_def

end
