(* ===== verification/Cache_Fill.thy ===== *)
theory Cache_Fill
  imports Cache_Core Memory_Store Versioned_Spec
begin

text \<open>
  The fill invariant of cache.go: whatever a cache with an L2 tier holds in L1 came out of that L2.

  To state it, the L2 is wrapped in \<open>audited\<close>, which runs the wrapped store and records what it
  answered: entries it served from \<open>Load\<close>, entries it stored by \<open>SetCAS\<close>, versions of tombstones it
  left by \<open>CompareAndDelete\<close>. Nothing at all is assumed of the wrapped store. An L1 entry is
  \<open>authoritative\<close> when the record has it, value, version and windows, or when it is a negative entry
  and the record has a tombstone with its version.

  The proof is in the style of rely and guarantee: the environment may do anything that keeps the
  invariant and does not erase the record, and every method of the cache is then shown to keep it.
\<close>

section \<open>The record of an L2 tier\<close>

datatype 'v l2_answer = Served gokey "'v entry" | Tombstoned gokey u64

definition audited :: "('b, 'v) l2_ops \<Rightarrow> ('b \<times> 'v l2_answer list, 'v) l2_ops" where
  "audited T = \<lparr>
     l2_Load = (\<lambda>k (b, log).
       let ((e, ok, err), b') = l2_Load T k b
       in ((e, ok, err), (b', if ok then log @ [Served k e] else log))),
     l2_SetCAS = (\<lambda>k v x fu su ts (b, log).
       let (r, b') = l2_SetCAS T k v x fu su ts b
       in (r, (b', case r of Inr e \<Rightarrow> log @ [Served k e] | Inl _ \<Rightarrow> log))),
     l2_CompareAndDelete = (\<lambda>k x (b, log).
       let ((nv, deleted, err), b') = l2_CompareAndDelete T k x b
       in ((nv, deleted, err), (b', if deleted then log @ [Tombstoned k nv] else log))),
     l2_DeleteByTag = (\<lambda>t (b, log). let (r, b') = l2_DeleteByTag T t b in (r, (b', log))),
     l2_TombstoneTTL = l2_TombstoneTTL T\<rparr>"

fun authoritative :: "'v l2_answer set \<Rightarrow> gokey \<Rightarrow> 'v entry \<Rightarrow> bool" where
  "authoritative A k e \<longleftrightarrow> Served k e \<in> A \<or> Negative e \<and> Tombstoned k (Version e) \<in> A"

lemma authoritative_mono: "authoritative A k e \<Longrightarrow> A \<subseteq> B \<Longrightarrow> authoritative B k e"
  by auto

section \<open>Calls of the cache\<close>

datatype ('k, 'v) cache_call =
    CGet 'k
  | CGetOrLoad 'k
  | CRefresh 'k
  | CSet 'k 'v "string list"
  | CInvalidate 'k
  | CInvalidateTag string
  | CEvent event
  | CStats
  | CClose

text \<open>\<open>CRefresh\<close> is the closure a refresher runs.\<close>

fun cache_do ::
  "('k, 'v::zero, 'a, 'b, 'r) cache \<Rightarrow> ('k, 'v) cache_call \<Rightarrow> ('a, 'b, 'r, unit) prog" where
  "cache_do c (CGet k) = do { _ \<leftarrow> cache_Get c k; State_Monad.return () }"
| "cache_do c (CGetOrLoad k) = do { _ \<leftarrow> GetOrLoad c k; State_Monad.return () }"
| "cache_do c (CRefresh k) = do { _ \<leftarrow> refresh_run c k (keyString c k); State_Monad.return () }"
| "cache_do c (CSet k v ts) = do { _ \<leftarrow> cache_Set c k v [WithTags ts]; State_Monad.return () }"
| "cache_do c (CInvalidate k) = do { _ \<leftarrow> Invalidate c k; State_Monad.return () }"
| "cache_do c (CInvalidateTag t) = do { _ \<leftarrow> InvalidateTag c t; State_Monad.return () }"
| "cache_do c (CEvent ev) = onEvent c ev"
| "cache_do c CStats = do { _ \<leftarrow> cache_Stats c; State_Monad.return () }"
| "cache_do c CClose = do { _ \<leftarrow> cache_Close c; State_Monad.return () }"

text \<open>
  What \<open>singleflight.Group.Do\<close> documents: it runs the function, or it waits for a call in flight for
  the same key and shares its result.
\<close>

definition singleflight_law ::
  "(gokey \<Rightarrow> ('s, 'x) state \<Rightarrow> ('s, 'x \<times> bool) state) \<Rightarrow> bool" where
  "singleflight_law f \<longleftrightarrow> (\<forall>ks fn s.
     (\<exists>sh. run_state (f ks fn) s = ((fst (run_state fn s), sh), snd (run_state fn s)))
     \<or> (\<exists>r. run_state (f ks fn) s = ((r, True), s)))"

lemma singleflight_keeps:
  assumes "singleflight_law f" "keeps I fn" shows "keeps I (f ks fn)"
proof (rule hoareI)
  fix s assume I: "I s"
  have "snd (run_state (f ks fn) s) = snd (run_state fn s) \<or> snd (run_state (f ks fn) s) = s"
    using assms(1) unfolding singleflight_law_def by (metis snd_conv)
  then show "I (snd (run_state (f ks fn) s))" using assms(2) I unfolding hoare_def by metis
qed

section \<open>Every method keeps the invariant\<close>

context l1_tier
begin

text \<open>
  \<open>backed A\<close>: the L1 is well-formed, everything it holds is authoritative, and the record has at
  least the answers \<open>A\<close> that the running method has seen.
\<close>

definition backed :: "'v l2_answer set \<Rightarrow> ('s, 'b \<times> 'v l2_answer list, 'r) cstate \<Rightarrow> bool" where
  "backed A s \<longleftrightarrow> ok (l1_st s) \<and> all_held (authoritative (set (snd (l2_st s)))) (l1_st s)
     \<and> A \<subseteq> set (snd (l2_st s))"

lemma backed_less: "backed A s \<Longrightarrow> B \<subseteq> A \<Longrightarrow> backed B s"
  by (auto simp: backed_def)

lemma backed_frame [simp]:
  "backed A (s\<lparr>ticks := n\<rparr>) = backed A s" "backed A (s\<lparr>stats := x\<rparr>) = backed A s"
  "backed A (s\<lparr>ref_st := y\<rparr>) = backed A s" "backed A (s\<lparr>outbox := z\<rparr>) = backed A s"
  "backed A (s\<lparr>id_draws := n\<rparr>) = backed A s" "backed A (s\<lparr>jitter_draws := n\<rparr>) = backed A s"
  "backed A (s\<lparr>dedupe_st := d\<rparr>) = backed A s" "backed A (s\<lparr>tags := t\<rparr>) = backed A s"
  "backed A (s\<lparr>closed := b\<rparr>) = backed A s" "backed A (s\<lparr>closeDone := b\<rparr>) = backed A s"
  "backed A (s\<lparr>closeErr := x'\<rparr>) = backed A s" "backed A (s\<lparr>subscribed := b\<rparr>) = backed A s"
  by (simp_all add: backed_def)

text \<open>
  The cache is built over this L1 and an audited L2, its environment keeps \<open>backed\<close> and erases
  nothing from the record, and the singleflight group does what it documents.
\<close>

definition wired ::
  "('b, 'v) l2_ops \<Rightarrow> ('k, 'v, 's, 'b \<times> 'v l2_answer list, 'r) cache \<Rightarrow> bool" where
  "wired T2 c \<longleftrightarrow> l1 c = T \<and> l2 c = Some (audited T2) \<and> singleflight_law (xsf_Do c)
     \<and> (\<forall>n s A. backed A s \<longrightarrow> backed A (env c n s))"

lemma keeps_frame:
  "keeps (backed A) (add1 upd)" "keeps (backed A) (newID c)" "keeps (backed A) (indexTags ks ts)"
  "keeps (backed A) (window c now)" "keeps (backed A) (dedupe_Seen i)" "keeps (backed A) (take_tag c tag)"
  by (auto simp: hoare_def add1_def count_def newID_def indexTags_def window_def dedupe_Seen_def
      take_tag_def Let_def split: option.split prod.split)

lemma keeps_yield: "wired T2 c \<Longrightarrow> keeps (backed A) (yield c)"
  by (simp add: hoare_def yield_def wired_def)

lemma keeps_after_yield:
  "wired T2 c \<Longrightarrow> hoare (backed A) m Q \<Longrightarrow> hoare (backed A) (do { yield c; m }) Q"
  by (rule hoare_bind [OF keeps_yield])

lemma keeps_reads:
  assumes "wired T2 c"
  shows "keeps (backed A) (Now c)" "keeps (backed A) (load_origin c key)" "keeps (backed A) (is_closed c)"
    "keeps (backed A) (ref_call c f)" "keeps (backed A) (publish c ev)"
  unfolding Now_def load_origin_def is_closed_def ref_call_def publish_def
  by (intro keeps_after_yield [OF assms] hoare_if hoare_return hoare_reading hoare_updating hoareI;
      simp split: prod.split)+

lemma hoare_l1_call:
  fixes c :: "('k, 'v, 's, 'b \<times> 'v l2_answer list, 'r) cache"
  assumes "wired T2 c"
    and "\<And>(s :: ('s, 'b \<times> 'v l2_answer list, 'r) cstate) t x a. backed A s \<Longrightarrow> f t (l1_st s) = (x, a) \<Longrightarrow> backed A (s\<lparr>l1_st := a\<rparr>)"
  shows "keeps (backed A) (l1_call c f)"
  unfolding l1_call_def
  by (rule keeps_after_yield [OF assms(1)]) (auto simp: hoare_def intro: assms(2) split: prod.split)

lemma keeps_l1_Get: "wired T2 c \<Longrightarrow> keeps (backed A) (l1_call c (\<lambda>t. l1_Get (l1 c) t ks))"
  by (rule hoare_l1_call)
    (auto simp: backed_def wired_def dest: get_law intro: all_held_le)

lemma keeps_l1_Delete: "wired T2 c \<Longrightarrow> keeps (backed A) (l1_call c (\<lambda>_. l1_Delete (l1 c) ks))"
proof (rule hoare_l1_call)
  fix s t x a assume w: "wired T2 c" and b: "backed A s" and d: "l1_Delete (l1 c) ks (l1_st s) = (x, a)"
  have "ok (l1_st s)" using b by (simp add: backed_def)
  moreover have "l1_Delete T ks (l1_st s) = (x, a)" using w d by (simp add: wired_def)
  ultimately have a: "ok a" "a = snd (l1_Delete T ks (l1_st s))" using delete_law by auto
  then show "backed A (s\<lparr>l1_st := a\<rparr>)" using b delete_all_held by (simp add: backed_def)
qed

lemma keeps_installL1:
  assumes w: "wired T2 c" and e: "authoritative A ks e"
  shows "keeps (backed A) (installL1 c ks e)"
proof -
  have auth: "authoritative (set (snd (l2_st s))) ks e" if "backed A s" for s
    using that e authoritative_mono unfolding backed_def by blast
  have set: "keeps (backed A) (l1_call c (\<lambda>t. l1_Set (l1 c) t ks e))"
  proof (rule hoare_l1_call [OF w])
    fix s t x a assume b: "backed A s" and d: "l1_Set (l1 c) t ks e (l1_st s) = (x, a)"
    have "ok (l1_st s)" "l1_Set T t ks e (l1_st s) = (x, a)"
      using b d w by (simp_all add: backed_def wired_def)
    then have "ok a" "a = snd (l1_Set T t ks e (l1_st s))" using set_law by auto
    then show "backed A (s\<lparr>l1_st := a\<rparr>)" using b auth [OF b] set_all_held by (simp add: backed_def)
  qed
  have install: "keeps (backed A) (l1_call c (\<lambda>t. f t ks e))" if "l1_SetIfNewer (l1 c) = Some f" for f
  proof (rule hoare_l1_call [OF w])
    fix s t x a assume b: "backed A s" and d: "f t ks e (l1_st s) = (x, a)"
    have f: "l1_SetIfNewer T = Some f" using that w by (simp add: wired_def)
    have o: "ok (l1_st s)" using b by (simp add: backed_def)
    have "ok a" using install_law [OF o f, of t ks e "fst x" "snd x" a] d by simp
    moreover have "all_held (authoritative (set (snd (l2_st s)))) (snd (f t ks e (l1_st s)))"
      using b auth [OF b] by (intro install_all_held [OF o f]) (simp_all add: backed_def)
    ultimately show "backed A (s\<lparr>l1_st := a\<rparr>)" using b d by (simp add: backed_def)
  qed
  show ?thesis
    unfolding installL1_def
    by (auto intro!: hoare_bind hoare_return set install split: option.split)
qed

text \<open>What the audited L2 answers is in the record from then on.\<close>

lemma hoare_l2_call:
  fixes c :: "('k, 'v, 's, 'b \<times> 'v l2_answer list, 'r) cache"
  assumes "wired T2 c"
    and "\<And>b log x b' log'. f (b, log) = (x, (b', log')) \<Longrightarrow> \<exists>new. log' = log @ new \<and> B x \<subseteq> set new"
  shows "hoare (backed A) (l2_call c f) (\<lambda>x. backed (A \<union> B x))"
  unfolding l2_call_def
proof (rule keeps_after_yield [OF assms(1)], rule hoareI)
  fix s :: "('s, 'b \<times> 'v l2_answer list, 'r) cstate"
  assume b: "backed A s"
  obtain bb log where l2: "l2_st s = (bb, log)" by force
  obtain x b' log' where x: "f (bb, log) = (x, (b', log'))" by (metis prod.collapse)
  obtain new where new: "log' = log @ new" "B x \<subseteq> set new" using assms(2) [OF x] by blast
  have "all_held (authoritative (set log')) (l1_st s)"
    using b l2 new(1) unfolding backed_def all_held_def by fastforce
  then show "backed (A \<union> B (fst (run_state (State (\<lambda>s. let (x, b) = f (l2_st s) in (x, s\<lparr>l2_st := b\<rparr>))) s)))
      (snd (run_state (State (\<lambda>s. let (x, b) = f (l2_st s) in (x, s\<lparr>l2_st := b\<rparr>))) s))"
    using b l2 x new by (auto simp: backed_def)
qed

lemma hoare_Load:
  assumes "wired T2 c"
  shows "hoare (backed A) (l2_call c (l2_Load (audited T2) ks))
    (\<lambda>(e, found, err). backed (A \<union> (if found then {Served ks e} else {})))"
  by (rule hoare_weaken [OF hoare_l2_call
        [OF assms, where B = "\<lambda>(e, found, err). if found then {Served ks e} else {}"]])
    (auto simp: audited_def split: prod.splits if_splits)

lemma hoare_SetCAS:
  assumes "wired T2 c"
  shows "hoare (backed A) (l2_call c (l2_SetCAS (audited T2) ks v x fu su ts))
    (\<lambda>r. backed (A \<union> (case r of Inr e \<Rightarrow> {Served ks e} | Inl _ \<Rightarrow> {})))"
  by (rule hoare_weaken [OF hoare_l2_call
        [OF assms, where B = "\<lambda>r. case r of Inr e \<Rightarrow> {Served ks e} | Inl _ \<Rightarrow> {}"]])
    (auto simp: audited_def split: prod.splits sum.splits)

lemma hoare_CompareAndDelete:
  assumes "wired T2 c"
  shows "hoare (backed A) (l2_call c (l2_CompareAndDelete (audited T2) ks x))
    (\<lambda>(nv, deleted, err). backed (A \<union> (if deleted then {Tombstoned ks nv} else {})))"
  by (rule hoare_weaken [OF hoare_l2_call
        [OF assms, where B = "\<lambda>(nv, deleted, err). if deleted then {Tombstoned ks nv} else {}"]])
    (auto simp: audited_def split: prod.splits if_splits)

lemma keeps_DeleteByTag:
  assumes "wired T2 c"
  shows "keeps (backed A) (l2_call c (l2_DeleteByTag (audited T2) tag))"
  by (rule hoare_weaken [OF hoare_l2_call [OF assms, where B = "\<lambda>_. {}"]])
    (auto simp: audited_def split: prod.splits)

lemma less_serve: "backed (A \<union> B) s \<Longrightarrow> backed A s"
  by (rule backed_less) auto

lemma keeps_return: "hoare (backed (A \<union> B)) (State_Monad.return x) (\<lambda>_. backed A)"
  by (rule hoare_return) (rule less_serve)

lemma keeps_count_return: "hoare (backed (A \<union> B)) (do { add1 upd; State_Monad.return x }) (\<lambda>_. backed A)"
  by (rule hoare_bind [OF keeps_frame(1) keeps_return])

lemma keeps_install_return:
  "wired T2 c \<Longrightarrow> authoritative (A \<union> B) ks e \<Longrightarrow>
    hoare (backed (A \<union> B)) (do { installL1 c ks e; State_Monad.return x }) (\<lambda>_. backed A)"
  by (rule hoare_bind [OF keeps_installL1 keeps_return])

lemma keeps_serve:
  "wired T2 c \<Longrightarrow> hoare (backed (insert (Served ks e) A))
    (do { installL1 c ks e; State_Monad.return x }) (\<lambda>_. backed A)"
  using keeps_install_return [of T2 c A "{Served ks e}" ks e x] by simp

lemma keeps_reload:
  assumes w: "wired T2 c" and m: "\<And>e2 lerr. hoare (backed A) (m e2 lerr) (\<lambda>_. backed A)"
  shows "keeps (backed A) (do {
     (e2, ok2, lerr) \<leftarrow> l2_call c (l2_Load (audited T2) ks);
     if ok2 then do { installL1 c ks e2; State_Monad.return (Inr (Value e2)) } else m e2 lerr })"
proof (rule hoare_bind [OF hoare_Load [OF w]], clarify)
  fix e2 ok2 lerr
  show "hoare (backed (A \<union> (if ok2 then {Served ks e2} else {})))
     (if ok2 then do { installL1 c ks e2; State_Monad.return (Inr (Value e2)) } else m e2 lerr) (\<lambda>_. backed A)"
    using m [of e2 lerr] by (auto intro: keeps_serve [OF w])
qed

lemma keeps_fill_negative:
  assumes w: "wired T2 c" shows "keeps (backed A) (fill_negative c (audited T2) ks expect now)"
  unfolding fill_negative_def
proof (rule hoare_bind [OF hoare_CompareAndDelete [OF w]], clarify)
  fix nv deleted derr
  let ?B = "if deleted then {Tombstoned ks nv} else {}"
  have tail: "keeps (backed A) (do {
      (if lerr \<noteq> None then add1 l2Errors_update else State_Monad.return ());
      State_Monad.return (Inl ErrNotFound :: go_error + 'v) })" for lerr :: "go_error option"
    by (auto intro!: hoare_bind [OF keeps_frame(1)] hoare_return)
  note reload = hoare_pre [OF keeps_reload [OF w tail]]
  show "hoare (backed (A \<union> ?B))
     (if derr \<noteq> None then do { add1 l2Errors_update; State_Monad.return (Inl ErrNotFound) }
      else if \<not> deleted then do {
        (e2, ok2, lerr) \<leftarrow> l2_call c (l2_Load (audited T2) ks);
        if ok2 then do { installL1 c ks e2; State_Monad.return (Inr (Value e2)) }
        else do {
          (if lerr \<noteq> None then add1 l2Errors_update else State_Monad.return ());
          State_Monad.return (Inl ErrNotFound) } }
      else do { installL1 c ks (negativeEntry c now nv); State_Monad.return (Inl ErrNotFound) })
     (\<lambda>_. backed A)"
    by (intro hoare_if keeps_count_return reload keeps_install_return [OF w])
      (auto simp: negativeEntry_def Let_def intro: less_serve)
qed

lemma keeps_fill_value:
  assumes w: "wired T2 c" shows "keeps (backed A) (fill_value c (audited T2) ks expect now val)"
  unfolding fill_value_def
proof (rule hoare_bind [OF keeps_frame(4)], clarify, rule hoare_bind [OF hoare_SetCAS [OF w]])
  fix fu su :: time and r :: "go_error + 'v entry"
  let ?B = "case r of Inr e \<Rightarrow> {Served ks e} | Inl _ \<Rightarrow> {}"
  have tail: "keeps (backed A) (if lerr \<noteq> None
      then do { add1 l2Errors_update; State_Monad.return (Inr val :: go_error + 'v) }
      else State_Monad.return (Inl ErrNotFound))" for lerr :: "go_error option"
    by (auto intro!: hoare_bind [OF keeps_frame(1)] hoare_return)
  note reload = hoare_pre [OF keeps_reload [OF w tail]]
  show "hoare (backed (A \<union> ?B))
     (case r of
       Inl serr \<Rightarrow>
         if errors_is serr ErrVersionConflict then do {
           (e2, ok2, lerr) \<leftarrow> l2_call c (l2_Load (audited T2) ks);
           if ok2 then do { installL1 c ks e2; State_Monad.return (Inr (Value e2)) }
           else if lerr \<noteq> None then do { add1 l2Errors_update; State_Monad.return (Inr val) }
           else State_Monad.return (Inl ErrNotFound) }
         else do { add1 l2Errors_update; State_Monad.return (Inr val) }
     | Inr stored \<Rightarrow> do { installL1 c ks stored; State_Monad.return (Inr val) }) (\<lambda>_. backed A)"
    by (intro hoare_sum hoare_if keeps_count_return reload keeps_install_return [OF w])
      (auto intro: less_serve)
qed

lemma keeps_fill:
  assumes w: "wired T2 c" shows "keeps (backed A) (fill c key ks)"
proof -
  have l2: "l2 c = Some (audited T2)" using w by (simp add: wired_def)
  have slow: "keeps (backed A) (do {
      add1 loads_update;
      r \<leftarrow> load_origin c key;
      now \<leftarrow> Now c;
      case r of
        Inl err \<Rightarrow> if errors_is err ErrNotFound then fill_negative c (audited T2) ks expect now
          else do { add1 loadErrors_update; State_Monad.return (Inl err) }
      | Inr val \<Rightarrow> fill_value c (audited T2) ks expect now val })" for expect
    by (intro hoare_bind [OF keeps_frame(1)] hoare_bind [OF keeps_reads(2) [OF w]]
        hoare_bind [OF keeps_reads(1) [OF w]] hoare_sum hoare_if keeps_fill_negative [OF w]
        keeps_fill_value [OF w] hoare_return)
  show ?thesis
    unfolding fill_def l2 option.case Let_def
    by (intro hoare_bind [OF keeps_reads(1) [OF w]] hoare_bind [OF hoare_Load [OF w]] hoare_prod hoare_if
        hoare_pre [OF slow])
      (auto intro: keeps_serve [OF w] less_serve)
qed

text \<open>The other methods.\<close>

lemma keeps_sf_Do:
  assumes "wired T2 c" "keeps (backed A) fn" shows "keeps (backed A) (sf_Do c ks fn)"
proof -
  have "singleflight_law (xsf_Do c)" using assms(1) by (simp add: wired_def)
  then have "keeps (backed A)
      (xsf_Do c ks (do { r \<leftarrow> fn; State_Monad.return (map_sum id (to_any c) r) }))"
    by (rule singleflight_keeps) (intro hoare_bind [OF assms(2)] hoare_return)
  then show ?thesis unfolding sf_Do_def by (rule hoare_bind) (auto intro!: hoare_prod hoare_return)
qed

lemma keeps_GetOrLoad:
  assumes w: "wired T2 c" shows "keeps (backed A) (GetOrLoad c key)"
  unfolding GetOrLoad_def scheduleRefresh_def Let_def
  by (intro hoare_bind [OF keeps_reads(3) [OF w]] hoare_bind [OF keeps_reads(1) [OF w]]
      hoare_bind [OF keeps_l1_Get [OF w]] hoare_bind [OF keeps_frame(1)] hoare_bind [OF keeps_reads(4) [OF w]]
      hoare_bind [OF keeps_sf_Do [OF w keeps_fill [OF w]]] keeps_frame(1)
      hoare_bind [where R = "\<lambda>_. backed A"] hoare_if hoare_prod hoare_return)

lemma keeps_cache_Set:
  assumes w: "wired T2 c" shows "keeps (backed A) (cache_Set c key val opts)"
proof -
  have l2: "l2 c = Some (audited T2)" using w by (simp add: wired_def)
  have stored: "hoare (backed (insert (Served (keyString c key) e) A)) (do {
      installL1 c (keyString c key) e; i \<leftarrow> newID c; publish c (f i); State_Monad.return x })
     (\<lambda>_. backed A)" for e f x
    by (intro hoare_bind [OF keeps_installL1 [OF w]] hoare_bind [OF keeps_frame(2)]
        hoare_bind [OF keeps_reads(5) [OF w]] hoare_return) (auto intro: backed_less)
  show ?thesis
    unfolding cache_Set_def l2 option.case Let_def
    by (intro hoare_bind [OF keeps_reads(3) [OF w]] hoare_bind [OF keeps_reads(1) [OF w]]
        hoare_bind [OF keeps_frame(4)] hoare_bind [OF hoare_SetCAS [OF w]] hoare_if hoare_prod hoare_sum
        hoare_return) (auto intro: stored)
qed

lemma keeps_Invalidate:
  assumes w: "wired T2 c" shows "keeps (backed A) (Invalidate c key)"
proof -
  have l2: "l2 c = Some (audited T2)" using w by (simp add: wired_def)
  have cad: "keeps (backed A) (l2_call c (l2_CompareAndDelete (audited T2) ks x))" for ks x
    by (rule hoare_weaken [OF hoare_CompareAndDelete [OF w]]) (auto intro: less_serve)
  have ver: "keeps (backed A) (do {
      (nv, _, err) \<leftarrow> l2_call c (l2_CompareAndDelete (audited T2) ks x); State_Monad.return (nv, err) })" for ks x
    by (intro hoare_bind [OF cad] hoare_prod hoare_return)
  show ?thesis
    unfolding Invalidate_def l2 option.case Let_def
    by (intro hoare_bind [OF keeps_reads(3) [OF w]] hoare_bind [OF ver]
        hoare_bind [OF keeps_l1_Delete [OF w]] hoare_bind [OF keeps_reads(5) [OF w]]
        hoare_bind [OF keeps_frame(2)] hoare_bind [OF keeps_reads(1) [OF w]] hoare_if hoare_prod hoare_return)
qed

lemma keeps_InvalidateTag:
  assumes w: "wired T2 c" shows "keeps (backed A) (InvalidateTag c tag)"
proof -
  have l2: "l2 c = Some (audited T2)" using w by (simp add: wired_def)
  have bc: "keeps (backed A) (broadcast c tag chunk)" for chunk
    unfolding broadcast_def
    by (intro hoare_bind [OF keeps_frame(2)] hoare_bind [OF keeps_reads(1) [OF w]] keeps_reads(5) [OF w])
  have del: "keeps (backed A) (do { _ \<leftarrow> l1_call c (\<lambda>_. l1_Delete (l1 c) ks); State_Monad.return () })" for ks
    by (intro hoare_bind [OF keeps_l1_Delete [OF w]] hoare_return)
  show ?thesis
    unfolding InvalidateTag_def l2 option.case
    by (intro hoare_bind [OF keeps_reads(3) [OF w]] hoare_bind [OF keeps_DeleteByTag [OF w]]
        hoare_bind [OF keeps_for_each] del bc hoare_if hoare_prod hoare_return)
qed

lemma keeps_onEvent:
  assumes w: "wired T2 c" shows "keeps (backed A) (onEvent c ev)"
  unfolding onEvent_def bus_evict_def
  by (intro hoare_bind [OF keeps_reads(3) [OF w]] hoare_bind [OF keeps_frame(5)] keeps_for_each
      hoare_bind [OF keeps_l1_Delete [OF w]] keeps_frame(1) hoare_if hoare_return)

lemma keeps_cache_Get:
  assumes w: "wired T2 c" shows "keeps (backed A) (cache_Get c key)"
  unfolding cache_Get_def
  by (intro hoare_bind [OF keeps_reads(3) [OF w]] hoare_bind [OF keeps_l1_Get [OF w]]
      hoare_bind [OF keeps_reads(1) [OF w]] hoare_if hoare_prod hoare_return)

lemma keeps_cache_Stats:
  assumes w: "wired T2 c" shows "keeps (backed A) (cache_Stats c)"
proof -
  have "keeps (backed A) (l1_call c (\<lambda>_ a. (f a, a)))" for f :: "'s \<Rightarrow> u64 \<times> int"
    by (rule hoare_l1_call [OF w]) (simp add: backed_def)
  then show ?thesis
    unfolding cache_Stats_def
    by (intro hoare_bind [where R = "\<lambda>_. backed A"] hoare_reading hoare_option hoare_return)
qed

lemma keeps_cache_Close:
  assumes w: "wired T2 c" shows "keeps (backed A) (cache_Close c)"
  unfolding cache_Close_def
  by (intro hoare_bind [OF keeps_reads(4) [OF w]] hoare_bind [where R = "\<lambda>_. backed A"]
      hoare_reading hoare_updating hoare_if) simp_all

lemma keeps_cache_do:
  assumes w: "wired T2 c" shows "keeps (backed A) (cache_do c call)"
proof -
  have run: "keeps (backed A) (refresh_run c k ks)" for k ks
    unfolding refresh_run_def by (intro hoare_bind [OF keeps_fill [OF w]] hoare_return)
  show ?thesis
    by (cases call)
      (auto intro!: hoare_bind [OF keeps_cache_Get [OF w]] hoare_bind [OF keeps_GetOrLoad [OF w]]
        hoare_bind [OF run] hoare_bind [OF keeps_cache_Set [OF w]] hoare_bind [OF keeps_Invalidate [OF w]]
        hoare_bind [OF keeps_InvalidateTag [OF w]] keeps_onEvent [OF w] hoare_bind [OF keeps_cache_Stats [OF w]]
        hoare_bind [OF keeps_cache_Close [OF w]] hoare_return)
qed

end

section \<open>The fill invariant, for the memory store\<close>

definition fills_ok ::
  "(gokey \<Rightarrow> u64) \<Rightarrow> int \<Rightarrow> ('v::zero memcache, 'b \<times> 'v l2_answer list, 'r) cstate \<Rightarrow> bool" where
  "fills_ok h cap s \<longleftrightarrow> mem_ok h cap (l1_st s)
     \<and> (\<forall>k e. mem_held h (l1_st s) k = Some e \<longrightarrow> authoritative (set (snd (l2_st s))) k e)"

lemma fills_ok_backed: "memory_tier.backed h cap A s \<longleftrightarrow> fills_ok h cap s \<and> A \<subseteq> set (snd (l2_st s))"
  by (simp add: memory_tier.backed_def memory_tier.all_held_def fills_ok_def)

text \<open>
  C1: the fill invariant. Take a cache over the memory store and any L2 at all, and let the rest of
  the system act between any two steps in any way that keeps the invariant and forgets no answer of
  the L2. After any sequence of \<open>Get\<close>, \<open>GetOrLoad\<close>, refreshes, \<open>Set\<close>, \<open>Invalidate\<close>, \<open>InvalidateTag\<close>,
  bus deliveries, \<open>Stats\<close> and \<open>Close\<close>, every entry in L1 is one the L2 served or stored for that very
  key, with its value, its version and its windows, or a negative entry whose version is that of a
  tombstone the L2 left for the key. A value the loader returned but the L2 did not accept is never
  there.
\<close>

theorem fill_invariant:
  assumes "l1 c = memory_ops h" "l2 c = Some (audited T2)" "singleflight_law (xsf_Do c)"
    and "\<forall>n s. fills_ok h cap s \<longrightarrow>
      fills_ok h cap (env c n s) \<and> set (snd (l2_st s)) \<subseteq> set (snd (l2_st (env c n s)))"
    and "fills_ok h cap s"
  shows "fills_ok h cap (snd (run_state (for_each calls (cache_do c)) s))"
proof -
  have w: "memory_tier.wired h cap T2 c"
    using assms(1-4) by (auto simp: memory_tier.wired_def fills_ok_backed)
  have "keeps (memory_tier.backed h cap {}) (for_each calls (cache_do c))"
    by (intro keeps_for_each memory_tier.keeps_cache_do [OF w])
  from hoare_run [OF this] assms(5) show ?thesis by (simp add: fills_ok_backed)
qed

section \<open>A concrete cache\<close>

definition sf_alone :: "gokey \<Rightarrow> ('s, 'x) state \<Rightarrow> ('s, 'x \<times> bool) state" where
  "sf_alone ks fn = do { r \<leftarrow> fn; State_Monad.return (r, False) }"

lemma sf_alone_law [simp]: "singleflight_law sf_alone"
  by (auto simp: singleflight_law_def sf_alone_def split_beta)

type_synonym demo_l2 = "int vstore \<times> int l2_answer list"

definition demo_refresher :: "(gokey list, string) refresher_ops" where
  "demo_refresher = \<lparr>ref_Schedule = (\<lambda>ks _ r. (ks \<notin> set r, List.insert ks r)), ref_Close = (\<lambda>r. (None, []))\<rparr>"

definition demo_cache ::
  "(string \<Rightarrow> nat \<Rightarrow> go_error + int) \<Rightarrow> (int memcache, int) l1_ops \<Rightarrow> ('b, int) l2_ops option \<Rightarrow>
    (nat \<Rightarrow> (int memcache, 'b, gokey list) cstate \<Rightarrow> (int memcache, 'b, gokey list) cstate) \<Rightarrow>
    (string, int, int memcache, 'b, gokey list) cache" where
  "demo_cache ld L1 L2 e = \<lparr>loader = ld, l1 = L1, l2 = L2, bus = True, refresher = demo_refresher,
     keyString = id, originID = ''A'', fresh = 100, staleWindow = 50, negTTL = 10, maxTTL = 0,
     jitter = Fin 0, env = e, xsf_Do = sf_alone, is_nil = (\<lambda>_. False),
     crand = (\<lambda>n. [of_nat n]), mrand = (\<lambda>_. 0), f64_ovf = 0, range_order = id\<rparr>"

lemma demo_cache_simps [simp]:
  "loader (demo_cache ld L1 L2 e) = ld" "l1 (demo_cache ld L1 L2 e) = L1" "l2 (demo_cache ld L1 L2 e) = L2"
  "env (demo_cache ld L1 L2 e) = e" "xsf_Do (demo_cache ld L1 L2 e) = sf_alone"
  "keyString (demo_cache ld L1 L2 e) = id" "bus (demo_cache ld L1 L2 e) = True"
  "refresher (demo_cache ld L1 L2 e) = demo_refresher" "originID (demo_cache ld L1 L2 e) = ''A''"
  "fresh (demo_cache ld L1 L2 e) = 100" "staleWindow (demo_cache ld L1 L2 e) = 50"
  "negTTL (demo_cache ld L1 L2 e) = 10" "maxTTL (demo_cache ld L1 L2 e) = 0"
  "jitter (demo_cache ld L1 L2 e) = Fin 0" "range_order (demo_cache ld L1 L2 e) = id"
  "is_nil (demo_cache ld L1 L2 e) = (\<lambda>_. False)" "mrand (demo_cache ld L1 L2 e) = (\<lambda>_. 0)"
  "crand (demo_cache ld L1 L2 e) = (\<lambda>n. [of_nat n])"
  by (simp_all add: demo_cache_def)

definition demo_state :: "'b \<Rightarrow> (int memcache, 'b, gokey list) cstate" where
  "demo_state b = \<lparr>l1_st = demo_store, l2_st = b, ref_st = [], clock_now = 1000,
     dedupe_st = Some (NewDedupe 4), tags = [], closed = False, closeDone = False, closeErr = None,
     subscribed = True, stats = zero_counters, outbox = [], ticks = 0, id_draws = 0, jitter_draws = 0\<rparr>"

text \<open>Another instance writes the key into the shared tier during the run.\<close>

definition demo_rival :: "nat \<Rightarrow> ('a, demo_l2, 'r) cstate \<Rightarrow> ('a, demo_l2, 'r) cstate" where
  "demo_rival n s = (if n = 6
     then s\<lparr>l2_st := snd (l2_SetCAS (audited vs_ops) ''k'' 9 ForceVersion 2000 3000 [] (l2_st s))\<rparr> else s)"

lemma demo_rival_log: "set (snd (l2_st s)) \<subseteq> set (snd (l2_st (demo_rival n s)))" "l1_st (demo_rival n s) = l1_st s"
  by (auto simp: demo_rival_def audited_def vs_defs split: prod.splits)

lemma demo_rival_fills: "fills_ok h cap s \<Longrightarrow> fills_ok h cap (demo_rival n s)"
  unfolding fills_ok_def demo_rival_log(2)
  by (blast intro: authoritative_mono [OF _ demo_rival_log(1)])

lemma demo_store_ok: "mem_ok demo_hash 1 demo_store \<and> mem_held demo_hash demo_store = Map.empty"
  using mem_New_ok(1,2) [OF demo_store_New, where h = demo_hash]
  by (simp add: demo_store_def WithCapacity_def WithShards_def defaultConfig_def per_shard_def i64_def go_div_def)

theorem fill_invariant_witness:
  "fills_ok demo_hash 1 (snd (run_state
     (for_each [CSet ''k'' 7 [], CInvalidate ''k'', CGetOrLoad ''k'', CGetOrLoad ''k'']
       (cache_do (demo_cache (\<lambda>_ _. Inr 8) (memory_ops demo_hash) (Some (audited vs_ops)) demo_rival)))
     (demo_state (vs_empty, []))))"
proof (rule fill_invariant [of _ demo_hash vs_ops 1])
  show "\<forall>n s. fills_ok demo_hash 1 s \<longrightarrow>
      fills_ok demo_hash 1 (env (demo_cache (\<lambda>_ _. Inr 8) (memory_ops demo_hash) (Some (audited vs_ops)) demo_rival) n s)
      \<and> set (snd (l2_st s)) \<subseteq> set (snd (l2_st (env
          (demo_cache (\<lambda>_ _. Inr 8) (memory_ops demo_hash) (Some (audited vs_ops)) demo_rival) n s)))"
    by (simp add: demo_rival_fills demo_rival_log(1))
  show "fills_ok demo_hash 1 (demo_state (vs_empty, []) :: (int memcache, demo_l2, gokey list) cstate)"
    using demo_store_ok by (simp add: fills_ok_def demo_state_def)
qed simp_all

end
