(* ===== verification/Cache_Ops.thy ===== *)
theory Cache_Ops
  imports Cache_Fill
begin

text \<open>
  What the methods of the cache do, branch by branch: the lifetimes they give to entries, closing,
  serving fresh, negative and stale hits from L1, degrading when the L2 is out, and the counters.
  Invalidation is in theory \<open>Cache_Inval\<close>.

  Except where stated, these are statements about a method that runs alone (\<open>env c = quiet\<close>).
\<close>

section \<open>Running alone\<close>

abbreviation tick :: "('a, 'b, 'r) cstate \<Rightarrow> ('a, 'b, 'r) cstate" where
  "tick s \<equiv> s\<lparr>ticks := Suc (ticks s)\<rparr>"

lemma run_yield: "env c = quiet \<Longrightarrow> run_state (yield c) s = ((), tick s)"
  by (simp add: yield_def quiet_def)

lemma run_alone:
  assumes "env c = quiet"
  shows "run_state (is_closed c) s = (closed s, tick s)"
    and "run_state (Now c) s = (clock_now s, tick s)"
    and "run_state (load_origin c key) s = (loader c key (Suc (ticks s)), tick s)"
    and "run_state (l1_call c f) s = (case f (clock_now s) (l1_st s) of (x, a) \<Rightarrow> (x, (tick s)\<lparr>l1_st := a\<rparr>))"
    and "run_state (l2_call c g) s = (case g (l2_st s) of (x, b) \<Rightarrow> (x, (tick s)\<lparr>l2_st := b\<rparr>))"
    and "run_state (ref_call c p) s = (case p (ref_st s) of (x, r) \<Rightarrow> (x, (tick s)\<lparr>ref_st := r\<rparr>))"
    and "run_state (publish c ev) s = ((), if bus c then (tick s)\<lparr>outbox := outbox s @ [ev]\<rparr> else s)"
  by (simp_all add: is_closed_def Now_def load_origin_def l1_call_def l2_call_def ref_call_def publish_def
      run_yield [OF assms] split: prod.split)

lemma run_counters [simp]:
  "run_state (add1 upd) s = ((), s\<lparr>stats := upd (\<lambda>n. n + 1) (stats s)\<rparr>)"
  by (simp add: add1_def count_def)

lemma run_newID [simp]:
  "run_state (newID c) s = (EncodeToString (crand c (id_draws s)), s\<lparr>id_draws := Suc (id_draws s)\<rparr>)"
  by (simp add: newID_def)

section \<open>Lifetimes\<close>

lemma jitter_delta:
  assumes "0 \<le> fr" "fr \<le> 1" "dbl fr = fr" "0 \<le> r" "r \<le> 1"
  shows "\<bar>dbl (dbl (dbl (r * 2) - 1) * fr)\<bar> \<le> fr"
proof -
  have c: "dbl 1 = 1" "dbl 2 = 2" "dbl (- 1) = - 1"
    using dbl_of_int [of 1] dbl_of_int [of 2] dbl_of_int [of "- 1"] by simp_all
  let ?u = "dbl (dbl (r * 2) - 1)"
  have "0 \<le> dbl (r * 2)" "dbl (r * 2) \<le> 2"
    using dbl_mono [of 0 "r * 2"] dbl_mono [of "r * 2" 2] assms(4,5) c by auto
  then have "\<bar>?u\<bar> \<le> 1"
    using dbl_mono [of "- 1" "dbl (r * 2) - 1"] dbl_mono [of "dbl (r * 2) - 1" 1] c by auto
  then have "\<bar>?u * fr\<bar> \<le> fr" using assms(1) mult_right_mono [of "\<bar>?u\<bar>" 1 fr] by (simp add: abs_mult)
  then show ?thesis
    using dbl_mono [of "- fr" "?u * fr"] dbl_mono [of "?u * fr" fr] assms(3) dbl_minus [of fr]
    by (simp add: abs_le_iff)
qed

text \<open>Three roundings of a product stay within seven units of the last of 53 places.\<close>

lemma scaled_error:
  assumes "0 \<le> d" "0 \<le> w" "w \<le> 2"
  shows "\<bar>dbl (dbl d * dbl w) - d * w\<bar> \<le> d / 2 ^ 50"
proof -
  define x where "x = dbl d"
  define y where "y = dbl w"
  have x: "\<bar>x - d\<bar> \<le> d / 2 ^ 53" using dbl_error [of d] assms(1) by (simp add: x_def)
  have "\<bar>y - w\<bar> \<le> w / 2 ^ 53" using dbl_error [of w] assms(2) by (simp add: y_def)
  then have y: "\<bar>y - w\<bar> \<le> 2 / 2 ^ 53" using assms(3) by (simp add: abs_le_iff)
  have y2: "0 \<le> y" "y \<le> 2"
    using dbl_mono [of 0 w] dbl_mono [of w 2] dbl_of_int [of 2] assms(2,3) by (simp_all add: y_def)
  have "x * y - d * w = (x - d) * y + d * (y - w)" by (simp add: algebra_simps)
  then have "\<bar>x * y - d * w\<bar> \<le> \<bar>x - d\<bar> * y + d * \<bar>y - w\<bar>"
    using y2 assms(1) abs_triangle_ineq [of "(x - d) * y" "d * (y - w)"] by (simp add: abs_mult)
  also have "\<dots> \<le> d / 2 ^ 53 * 2 + d * (2 / 2 ^ 53)"
    using x y y2 assms(1) by (intro add_mono mult_mono) auto
  finally have p: "\<bar>x * y - d * w\<bar> \<le> d * 4 / 2 ^ 53" by simp
  have "\<bar>x * y\<bar> \<le> d * 2 + d * 4 / 2 ^ 53"
    using p mult_left_mono [OF assms(3,1)] mult_nonneg_nonneg [OF assms(1,2)] by linarith
  also have "\<dots> \<le> d * 3" using assms(1) by simp
  finally have "\<bar>dbl (x * y) - x * y\<bar> \<le> d * 3 / 2 ^ 53"
    using dbl_error [of "x * y"] by (simp add: order_trans [OF _ divide_right_mono])
  then have "\<bar>dbl (x * y) - d * w\<bar> \<le> d * 7 / 2 ^ 53" using p by linarith
  also have "\<dots> \<le> d / 2 ^ 50" using assms(1) by simp
  finally show ?thesis by (simp add: x_def y_def)
qed

lemma applyJitter_bounds:
  assumes "0 \<le> fr" "fr \<le> 1" "dbl fr = fr" "0 \<le> r" "r \<le> 1" "0 \<le> d" "d \<le> 2 ^ 61"
  shows "0 \<le> applyJitter ovf d fr r"
    and "\<bar>of_int (applyJitter ovf d fr r) - of_int d\<bar> \<le> of_int d * fr + of_int d / 2 ^ 50 + 1"
proof -
  define delta where "delta = dbl (dbl (dbl (r * 2) - 1) * fr)"
  define z where "z = dbl (dbl (of_int d) * dbl (1 + delta))"
  let ?d = "of_int d :: rat"
  have d: "0 \<le> ?d" "?d \<le> 2 ^ 61"
    using assms(6,7) of_int_le_iff [of d "2 ^ 61", where 'a = rat] by simp_all
  have del: "\<bar>delta\<bar> \<le> fr" using jitter_delta [OF assms(1-5)] by (simp add: delta_def)
  have e: "\<bar>z - ?d * (1 + delta)\<bar> \<le> ?d / 2 ^ 50"
    unfolding z_def using del assms(1,2) d by (intro scaled_error) auto
  have "\<bar>?d * delta\<bar> \<le> ?d * fr" using del d by (simp add: abs_mult mult_left_mono)
  then have zd: "\<bar>z - ?d\<bar> \<le> ?d * fr + ?d / 2 ^ 50"
    using e abs_triangle_ineq [of "z - ?d * (1 + delta)" "?d * delta"]
    by (simp only: ring_distribs mult_1_right diff_add_eq)
  have pos: "0 \<le> z"
  proof -
    have "0 \<le> dbl ?d" "0 \<le> dbl (1 + delta)"
      using dbl_mono [of 0 ?d] dbl_mono [of 0 "1 + delta"] d del assms(2) by auto
    then show ?thesis unfolding z_def using dbl_mono [of 0 "dbl ?d * dbl (1 + delta)"] by simp
  qed
  have "?d * fr \<le> ?d" using mult_left_mono [OF assms(2) d(1)] by simp
  then have "z < 2 ^ 63" using zd d by (simp add: abs_le_iff)
  then have "\<lfloor>z\<rfloor> < 2 ^ 63" by (simp add: floor_less_iff)
  moreover have "0 \<le> \<lfloor>z\<rfloor>" using pos by simp
  ultimately have a: "applyJitter ovf d fr r = \<lfloor>z\<rfloor>"
    using pos by (simp add: applyJitter_def Let_def f64_to_i64_def delta_def z_def)
  then show "0 \<le> applyJitter ovf d fr r" using pos by simp
  have "of_int \<lfloor>z\<rfloor> \<le> z" "z < of_int \<lfloor>z\<rfloor> + 1" by linarith+
  then show "\<bar>of_int (applyJitter ovf d fr r) - ?d\<bar> \<le> ?d * fr + ?d / 2 ^ 50 + 1"
    using zd unfolding a by linarith
qed

text \<open>The jitter fraction of a built cache: a number from 0 to 1, or a NaN, which switches it off.\<close>

definition jitter_ok :: "float64 \<Rightarrow> bool" where
  "jitter_ok j \<longleftrightarrow> (case j of Fin fr \<Rightarrow> 0 \<le> fr \<and> fr \<le> 1 \<and> dbl fr = fr | NaN \<Rightarrow> True | _ \<Rightarrow> False)"

definition lifetimes_ok :: "('k, 'v, 'a, 'b, 'r) cache \<Rightarrow> bool" where
  "lifetimes_ok c \<longleftrightarrow> fresh c \<le> 2 ^ 61 \<and> 0 \<le> staleWindow c \<and> jitter_ok (jitter c)
     \<and> (\<forall>n. 0 \<le> mrand c n \<and> mrand c n < 1)"

text \<open>The fresh duration a window starts from, jittered if so configured.\<close>

definition fresh_span :: "('k, 'v, 'a, 'b, 'r) cache \<Rightarrow> nat \<Rightarrow> duration" where
  "fresh_span c n = (if fresh c \<le> 0 then noExpiry
     else case jitter c of
         Fin fr \<Rightarrow> if 0 < fr then applyJitter (f64_ovf c) (fresh c) fr (mrand c n) else fresh c
       | _ \<Rightarrow> fresh c)"

lemma fresh_span_nonneg: "lifetimes_ok c \<Longrightarrow> 0 \<le> fresh_span c n"
  using applyJitter_bounds(1) [of _ "mrand c n" "fresh c" "f64_ovf c"]
  by (auto simp: fresh_span_def lifetimes_ok_def jitter_ok_def noExpiry_def duration_defs less_imp_le
      split: float64.splits)

lemma run_window:
  assumes "jitter_ok (jitter c)"
  shows "\<exists>n. run_state (window c now) s =
     ((let cap = (\<lambda>t. if 0 < maxTTL c then min t (now + maxTTL c) else t);
           fu = now + fresh_span c (jitter_draws s)
       in (cap fu, cap (fu + staleWindow c))), s\<lparr>jitter_draws := n\<rparr>)"
proof -
  have cap: "(if h < t then h else t) = min t (h :: int)" for h t by (simp add: min_def)
  consider "fresh c \<le> 0 \<or> jitter c = NaN \<or> jitter c = Fin 0" | fr where "0 < fresh c" "jitter c = Fin fr" "0 < fr"
    using assms by (cases "jitter c"; cases "fresh c \<le> 0") (fastforce simp: jitter_ok_def le_less)+
  then show ?thesis
  proof cases
    case 1
    then show ?thesis
      by (intro exI [of _ "jitter_draws s"], elim disjE)
        (simp_all add: window_def fresh_span_def Let_def cap)
  next
    case 2
    then show ?thesis
      by (intro exI [of _ "Suc (jitter_draws s)"]) (simp add: window_def fresh_span_def Let_def cap)
  qed
qed

text \<open>
  C27: the windows an entry gets. For any configuration \<open>Build\<close> accepts with a fresh TTL of at most
  \<open>2 ^ 61\<close> nanoseconds (73 years), an entry is never born expired or stale-before-fresh: the fresh
  deadline is not before now, the stale deadline is not before it and at most the stale window
  later, and a positive \<open>MaxTTL\<close> caps both. Jitter moves the fresh duration by at most the configured
  fraction, up to the rounding of double arithmetic.
\<close>

theorem window_bounds:
  assumes "lifetimes_ok c"
  shows "case run_state (window c now) s of ((freshUntil, staleUntil), s') \<Rightarrow>
     (0 \<le> maxTTL c \<longrightarrow> now \<le> freshUntil) \<and> freshUntil \<le> staleUntil
     \<and> staleUntil \<le> freshUntil + staleWindow c
     \<and> (0 < maxTTL c \<longrightarrow> staleUntil \<le> now + maxTTL c)
     \<and> (\<forall>fr. maxTTL c \<le> 0 \<and> 0 < fresh c \<and> jitter c = Fin fr \<longrightarrow>
         \<bar>of_int (freshUntil - now) - of_int (fresh c)\<bar> \<le> of_int (fresh c) * fr + of_int (fresh c) / 2 ^ 50 + 1)"
proof -
  have j: "jitter_ok (jitter c)" and w: "0 \<le> staleWindow c" and f: "fresh c \<le> 2 ^ 61"
    using assms by (simp_all add: lifetimes_ok_def)
  let ?f = "fresh_span c (jitter_draws s)"
  have pos: "0 \<le> ?f" by (rule fresh_span_nonneg [OF assms])
  have jit: "\<bar>of_int ?f - of_int (fresh c)\<bar> \<le> of_int (fresh c) * fr + of_int (fresh c) / 2 ^ 50 + 1"
    if "0 < fresh c" "jitter c = Fin fr" for fr :: rat
  proof -
    have fr: "0 \<le> fr" "fr \<le> 1" "dbl fr = fr" using j that(2) by (simp_all add: jitter_ok_def)
    have m: "0 \<le> mrand c (jitter_draws s)" "mrand c (jitter_draws s) \<le> 1"
      using assms by (auto simp: lifetimes_ok_def less_imp_le)
    have "0 \<le> of_int (fresh c) * fr + of_int (fresh c) / 2 ^ 50 + (1 :: rat)"
      using that(1) fr(1) by (intro add_nonneg_nonneg mult_nonneg_nonneg) auto
    then show ?thesis
      using applyJitter_bounds(2) [OF fr m, of "fresh c" "f64_ovf c"] that f by (simp add: fresh_span_def)
  qed
  obtain s' where "run_state (window c now) s =
     ((let cap = (\<lambda>t. if 0 < maxTTL c then min t (now + maxTTL c) else t); fu = now + ?f
       in (cap fu, cap (fu + staleWindow c))), s')"
    using run_window [OF j, of now s] by blast
  then show ?thesis using pos w jit by (simp add: Let_def min_def)
qed

definition demo_jittered :: "(string, int, int memcache, int vstore, gokey list) cache" where
  "demo_jittered = (demo_cache (\<lambda>_ _. Inr 8) (memory_ops demo_hash) None quiet)
     \<lparr>jitter := Fin (1 / 4), maxTTL := 120, mrand := (\<lambda>_. 3 / 4)\<rparr>"

lemma demo_jittered_ok: "lifetimes_ok demo_jittered"
proof -
  have "dbl (1 / 4) = 1 / 4" using dbl_pow2 [of "- 2"] by (simp add: power_int_minus)
  then show ?thesis by (simp add: lifetimes_ok_def demo_jittered_def jitter_ok_def)
qed

theorem window_bounds_witness:
  "case run_state (window demo_jittered 1000) (demo_state vs_empty) of ((freshUntil, staleUntil), s') \<Rightarrow>
     1000 \<le> freshUntil \<and> freshUntil \<le> staleUntil \<and> staleUntil \<le> 1120"
  using window_bounds [OF demo_jittered_ok, of 1000 "demo_state vs_empty"]
  by (simp add: demo_jittered_def split: prod.splits)

section \<open>Closing\<close>

text \<open>
  Every entry point looks at the closed flag first, whatever the environment did before.
\<close>

lemma closed_entry_points:
  assumes "run_state (yield c) s = ((), s')" "closed s'"
  shows "run_state (cache_Get c key) s = ((0, False, Some ErrClosed), s')"
    and "run_state (GetOrLoad c key) s = (Return (Inl ErrClosed), s')"
    and "run_state (cache_Set c key val opts) s = (Some ErrClosed, s')"
    and "run_state (Invalidate c key) s = (Some ErrClosed, s')"
    and "run_state (InvalidateTag c tag) s = (Some ErrClosed, s')"
    and "run_state (onEvent c ev) s = ((), s')"
  using assms by (simp_all add: cache_Get_def GetOrLoad_def cache_Set_def Invalidate_def InvalidateTag_def
      onEvent_def is_closed_def)

lemma run_Close:
  assumes "env c = quiet" "\<not> closeDone s"
  shows "run_state (cache_Close c) s = (case ref_Close (refresher c) (ref_st s) of (err, r) \<Rightarrow>
     (err, (tick s)\<lparr>closeDone := True, closed := True, subscribed := False, ref_st := r, closeErr := err\<rparr>))"
  using assms by (simp add: cache_Close_def run_alone split: prod.split)

text \<open>Calls other than a refresh that is still running.\<close>

fun user_call :: "('k, 'v) cache_call \<Rightarrow> bool" where
  "user_call (CRefresh k) = False"
| "user_call _ = True"

lemma closed_call:
  assumes q: "env c = quiet" and s: "closed s" "closeDone s" and u: "user_call call"
  shows "\<exists>n. snd (run_state (cache_do c call) s) = s\<lparr>ticks := n\<rparr>"
proof -
  have c: "closed (tick s)" using s by simp
  note e = closed_entry_points [OF run_yield [OF q] c]
  show ?thesis
  proof (cases call)
    case CStats
    show ?thesis
    proof (cases "l1_Metrics (l1 c)")
      case None
      then show ?thesis using CStats by (intro exI [of _ "ticks s"]) (simp add: cache_Stats_def)
    next
      case (Some f)
      then show ?thesis
        using CStats by (intro exI [of _ "Suc (ticks s)"]) (simp add: cache_Stats_def run_alone [OF q])
    qed
  next
    case CClose
    then show ?thesis using s by (intro exI [of _ "ticks s"]) (simp add: cache_Close_def)
  next
    case (CRefresh x)
    then show ?thesis using u by simp
  qed (use e in \<open>auto intro: exI [of _ "Suc (ticks s)"]\<close>)
qed

lemma closed_calls:
  assumes "env c = quiet"
  shows "closed s \<Longrightarrow> closeDone s \<Longrightarrow> list_all user_call calls \<Longrightarrow>
    \<exists>n. snd (run_state (for_each calls (cache_do c)) s) = s\<lparr>ticks := n\<rparr>"
proof (induction calls arbitrary: s)
  case Nil
  show ?case by (rule exI [of _ "ticks s"]) simp
next
  case (Cons call calls)
  obtain n where n: "snd (run_state (cache_do c call) s) = s\<lparr>ticks := n\<rparr>"
    using closed_call [OF assms Cons.prems(1,2)] Cons.prems(3) by auto
  show ?case
    using Cons.IH [of "s\<lparr>ticks := n\<rparr>"] Cons.prems n by (auto simp: split_beta)
qed

text \<open>
  C35: \<open>Close\<close> is final. It marks the cache closed, ends the bus subscription and closes the refresher,
  once: it reports the refresher's error, a second call reports the same error, and no later call
  (refreshes that were already running apart) changes any tier, the tag index, the counters, or
  publishes anything.
\<close>

theorem close_is_final:
  assumes "env c = quiet" "\<not> closeDone s" "list_all user_call calls"
    and "run_state (cache_Close c) s = (err, s1)"
    and "s2 = snd (run_state (for_each calls (cache_do c)) s1)"
  shows "closed s1 \<and> \<not> subscribed s1 \<and> (err, ref_st s1) = ref_Close (refresher c) (ref_st s)
    \<and> (\<exists>n. s2 = s1\<lparr>ticks := n\<rparr>) \<and> run_state (cache_Close c) s2 = (err, s2)"
proof -
  obtain r where r: "ref_Close (refresher c) (ref_st s) = (err, r)"
    and s1: "s1 = (tick s)\<lparr>closeDone := True, closed := True, subscribed := False, ref_st := r, closeErr := err\<rparr>"
    using assms(4) run_Close [OF assms(1,2)] by (auto split: prod.splits)
  then obtain n where "s2 = s1\<lparr>ticks := n\<rparr>"
    using closed_calls [OF assms(1) _ _ assms(3), of s1] assms(5) by auto
  then show ?thesis using r s1 by (auto simp: cache_Close_def)
qed

definition demo_local :: "(string, int, int memcache, int vstore, gokey list) cache" where
  "demo_local = demo_cache (\<lambda>_ _. Inr 8) (memory_ops demo_hash) None quiet"

theorem close_is_final_witness:
  "closed (snd (run_state (cache_Close demo_local) (demo_state vs_empty)))
    \<and> (\<exists>n. snd (run_state (for_each [CSet ''k'' 7 [''t''], CGetOrLoad ''k'', CClose] (cache_do demo_local))
          (snd (run_state (cache_Close demo_local) (demo_state vs_empty))))
        = (snd (run_state (cache_Close demo_local) (demo_state vs_empty)))\<lparr>ticks := n\<rparr>)"
proof -
  have d: "env demo_local = quiet" "\<not> closeDone (demo_state vs_empty)"
      "list_all user_call [CSet ''k'' (7::int) [''t''], CGetOrLoad ''k'', CClose]"
    by (simp_all add: demo_local_def demo_state_def)
  show ?thesis using close_is_final [OF d prod.collapse [symmetric] refl] by blast
qed

section \<open>Serving from L1\<close>

text \<open>
  C26: what \<open>GetOrLoad\<close> answers from L1 alone. A fresh entry is a hit, a fresh negative entry a negative
  hit that returns \<open>ErrNotFound\<close>, and a stale value is served at once, with a revalidation scheduled
  and counted if the refresher launched it. In these cases neither the loader nor the L2 is called:
  the L2, the clock, the tag index, the outbox and all other counters stay as they were.
\<close>

theorem served_from_L1:
  assumes "env c = quiet" "\<not> closed s"
    and "l1_Get (l1 c) (clock_now s) (keyString c key) (l1_st s) = ((e, True, err), a)"
    and "ref_Schedule (refresher c) (keyString c key) key (ref_st s) = (launched, r)"
  shows "(Fresh e (clock_now s) \<longrightarrow>
      run_state (GetOrLoad c key) s =
        (Return (if Negative e then Inl ErrNotFound else Inr (Value e)),
         s\<lparr>ticks := ticks s + 3, l1_st := a,
           stats := (if Negative e then negHits_update (\<lambda>n. n + 1) else id)
                      (hits_update (\<lambda>n. n + 1) (stats s))\<rparr>))
    \<and> (Stale e (clock_now s) \<and> \<not> Negative e \<longrightarrow>
      run_state (GetOrLoad c key) s =
        (Return (Inr (Value e)),
         s\<lparr>ticks := ticks s + 4, l1_st := a, ref_st := r,
           stats := (if launched then refreshes_update (\<lambda>n. n + 1) else id)
                      (staleHits_update (\<lambda>n. n + 1) (stats s))\<rparr>))"
  using assms
  by (auto simp: GetOrLoad_def scheduleRefresh_def run_alone Let_def numeral_eq_Suc Stale_def)

definition demo_held :: "int \<Rightarrow> int memcache" where
  "demo_held v = snd (mem_Set demo_hash 0 ''k'' \<lparr>Value = v, Version = 0, StoredAt = 900, FreshUntil = 950,
     StaleUntil = 1100, Negative = False\<rparr> demo_store)"

lemmas demo_eval = demo_store_def demo_hash_def memory_ops_def mem_Get_def mem_Set_def mem_SetIfNewer_def
  mem_Delete_def put_shard_def shardFor_def shard_index_def shard_setIfNewer_def shard_delete_def shard_eval
  entry_time_defs demo_refresher_def numeral_2_eq_2

theorem served_from_L1_witness:
  "fst (run_state (GetOrLoad demo_local ''k'') ((demo_state vs_empty)\<lparr>l1_st := demo_held 7\<rparr>)) = Return (Inr 7)"
proof -
  let ?s = "(demo_state vs_empty)\<lparr>l1_st := demo_held 7\<rparr> :: (int memcache, int vstore, gokey list) cstate"
  obtain a where a: "l1_Get (l1 demo_local) (clock_now ?s) (keyString demo_local ''k'') (l1_st ?s) =
      ((\<lparr>Value = 7, Version = 0, StoredAt = 900, FreshUntil = 950, StaleUntil = 1100, Negative = False\<rparr>, True, None), a)"
    by (simp add: demo_local_def demo_state_def demo_held_def demo_eval)
  show ?thesis
    using served_from_L1 [OF _ _ a prod.collapse [symmetric]]
    by (simp add: demo_local_def demo_state_def entry_time_defs)
qed

section \<open>When the L2 is out\<close>

text \<open>Every call on the L2 fails, with any error other than a version conflict.\<close>

definition l2_down :: "('b, 'v) l2_ops \<Rightarrow> bool" where
  "l2_down L2 \<longleftrightarrow>
     (\<forall>k b. \<exists>e err b'. l2_Load L2 k b = ((e, False, Some err), b'))
     \<and> (\<forall>k v x fu su ts b. \<exists>err b'. l2_SetCAS L2 k v x fu su ts b = (Inl err, b')
          \<and> \<not> errors_is err ErrVersionConflict)
     \<and> (\<forall>k x b. \<exists>nv del err b'. l2_CompareAndDelete L2 k x b = ((nv, del, Some err), b'))"

lemma run_window_frame: "\<exists>w n. run_state (window c now) s = (w, s\<lparr>jitter_draws := n\<rparr>)"
proof -
  have "\<exists>n. snd (run_state (window c now) s) = s\<lparr>jitter_draws := n\<rparr>"
    by (cases "0 < fresh c \<and> f64_less (Fin 0) (jitter c)")
      (auto simp: window_def Let_def intro: exI [of _ "jitter_draws s"] exI [of _ "Suc (jitter_draws s)"])
  then show ?thesis by (metis prod.collapse)
qed

text \<open>
  C23: degraded mode. While the L2 is out, a fill still calls the loader exactly once and returns what
  the loader returned (its value, \<open>ErrNotFound\<close>, or its error), caches nothing in L1, publishes
  nothing, and counts one L2 error for a value or a not-found and one load error otherwise.
\<close>

theorem l2_outage:
  assumes "env c = quiet" "l2 c = Some L2" "l2_down L2"
    and "run_state (fill c key ks) s = (r, s')" "origin = loader c key (ticks s + 3)"
  shows "l1_st s' = l1_st s \<and> outbox s' = outbox s \<and> tags s' = tags s
    \<and> loads (stats s') = loads (stats s) + 1
    \<and> (case origin of
         Inr v \<Rightarrow> r = Inr v \<and> l2Errors (stats s') = l2Errors (stats s) + 1
       | Inl err \<Rightarrow>
           if errors_is err ErrNotFound
           then r = Inl ErrNotFound \<and> l2Errors (stats s') = l2Errors (stats s) + 1
           else r = Inl err \<and> l2Errors (stats s') = l2Errors (stats s)
             \<and> loadErrors (stats s') = loadErrors (stats s) + 1)"
proof -
  obtain e err b1 where ld: "l2_Load L2 ks (l2_st s) = ((e, False, Some err), b1)"
    using assms(3) unfolding l2_down_def by blast
  have o: "loader c key (Suc (Suc (Suc (ticks s)))) = origin"
    using assms(5) by (simp add: numeral_3_eq_3)
  have slow: "run_state (fill c key ks) s = run_state (case origin of
        Inl err \<Rightarrow> if errors_is err ErrNotFound then fill_negative c L2 ks (Version e) (clock_now s)
           else do { add1 loadErrors_update; State_Monad.return (Inl err) }
      | Inr val \<Rightarrow> fill_value c L2 ks (Version e) (clock_now s) val)
      (s\<lparr>l2_st := b1, stats := loads_update (\<lambda>n. n + 1) (stats s), ticks := ticks s + 4\<rparr>)"
    using o by (cases origin)
      (simp_all add: fill_def assms(2) run_alone [OF assms(1)] ld Let_def numeral_eq_Suc)
  show ?thesis
  proof (cases origin)
    case (Inr val)
    let ?t = "s\<lparr>l2_st := b1, stats := loads_update (\<lambda>n. n + 1) (stats s), ticks := ticks s + 4\<rparr>"
    obtain fu su n where w: "run_state (window c (clock_now s)) ?t = ((fu, su), ?t\<lparr>jitter_draws := n\<rparr>)"
      using run_window_frame [of c "clock_now s" ?t] by auto
    obtain err' b2 where cas: "l2_SetCAS L2 ks val (Version e) fu su [] b1 = (Inl err', b2)"
        "\<not> errors_is err' ErrVersionConflict"
      using assms(3) unfolding l2_down_def by blast
    have "run_state (fill_value c L2 ks (Version e) (clock_now s) val) ?t =
        (Inr val, ?t\<lparr>jitter_draws := n, ticks := Suc (ticks ?t), l2_st := b2,
           stats := l2Errors_update (\<lambda>n. n + 1) (stats ?t)\<rparr>)"
      using w cas by (simp add: fill_value_def run_alone [OF assms(1)])
    then show ?thesis using Inr slow assms(4) by auto
  next
    case (Inl le)
    obtain nv del err' b2 where "l2_CompareAndDelete L2 ks (Version e) b1 = ((nv, del, Some err'), b2)"
      using assms(3) unfolding l2_down_def by blast
    then show ?thesis
      using Inl slow assms(4) by (auto simp: fill_negative_def run_alone [OF assms(1)])
  qed
qed

definition demo_down :: "(unit, int) l2_ops" where
  "demo_down = \<lparr>l2_Load = (\<lambda>_ b. ((zero_entry, False, Some (ErrMsg ''dial'')), b)),
     l2_SetCAS = (\<lambda>_ _ _ _ _ _ b. (Inl (ErrMsg ''dial''), b)),
     l2_CompareAndDelete = (\<lambda>_ _ b. ((0, False, Some (ErrMsg ''dial'')), b)),
     l2_DeleteByTag = (\<lambda>_ b. (([], Some (ErrMsg ''dial'')), b)), l2_TombstoneTTL = None\<rparr>"

theorem l2_outage_witness:
  "\<exists>s'. run_state (fill (demo_cache (\<lambda>_ _. Inr 8) (memory_ops demo_hash) (Some demo_down) quiet) ''k'' ''k'')
      (demo_state ()) = (Inr 8, s') \<and> l1_st s' = demo_store \<and> l2Errors (stats s') = 1"
proof -
  let ?c = "demo_cache (\<lambda>_ _. Inr 8) (memory_ops demo_hash) (Some demo_down) quiet"
  obtain r s' where run: "run_state (fill ?c ''k'' ''k'') (demo_state ()) = (r, s')" by force
  have "l2_down demo_down" by (auto simp: l2_down_def demo_down_def)
  from l2_outage [OF _ _ this run refl] show ?thesis
    using run by (simp add: demo_state_def zero_counters_def)
qed

end
