(* ===== verification/Cache_Sim.thy ===== *)
theory Cache_Sim
  imports Cache_Ops
begin

text \<open>
  The cache is parametric in its L2. If the answers of one L2 are those of another on related states, then
  every method of cache.go but \<open>InvalidateTag\<close>, run alone, gives over the one what it gives over the
  other: the same result, and states that differ in the L2 only and are related again. (\<open>InvalidateTag\<close>
  takes over the order in which the L2 lists the keys of a tag.)

  The relation has two strengths: \<open>ready\<close>, where the L2 can take a write, and \<open>linked\<close>, where the two still
  agree on what they hold. No method but \<open>InvalidateTag\<close> writes to the L2 twice.
\<close>

section \<open>The same cache over another L2\<close>

definition over :: "('c, 'v) l2_ops \<Rightarrow> ('k, 'v, 'a, 'b, 'r) cache \<Rightarrow> ('k, 'v, 'a, 'c, 'r) cache" where
  "over L2 c = \<lparr>loader = loader c, l1 = l1 c, l2 = Some L2, bus = bus c, refresher = refresher c, keyString = keyString c,
     originID = originID c, fresh = fresh c, staleWindow = staleWindow c, negTTL = negTTL c, maxTTL = maxTTL c,
     jitter = jitter c, env = quiet, xsf_Do = sf_alone, is_nil = is_nil c, crand = crand c, mrand = mrand c,
     f64_ovf = f64_ovf c, range_order = range_order c\<rparr>"

definition with_l2 :: "'c \<Rightarrow> ('a, 'b, 'r) cstate \<Rightarrow> ('a, 'c, 'r) cstate" where
  "with_l2 b s = \<lparr>l1_st = l1_st s, l2_st = b, ref_st = ref_st s, clock_now = clock_now s, dedupe_st = dedupe_st s,
     tags = tags s, closed = closed s, closeDone = closeDone s, closeErr = closeErr s, subscribed = subscribed s,
     stats = stats s, outbox = outbox s, ticks = ticks s, id_draws = id_draws s, jitter_draws = jitter_draws s\<rparr>"

lemma over_simps [simp]:
  "loader (over L2 c) = loader c" "l1 (over L2 c) = l1 c" "l2 (over L2 c) = Some L2" "bus (over L2 c) = bus c"
  "refresher (over L2 c) = refresher c" "keyString (over L2 c) = keyString c" "originID (over L2 c) = originID c"
  "fresh (over L2 c) = fresh c" "staleWindow (over L2 c) = staleWindow c" "negTTL (over L2 c) = negTTL c"
  "maxTTL (over L2 c) = maxTTL c" "jitter (over L2 c) = jitter c" "env (over L2 c) = quiet" "xsf_Do (over L2 c) = sf_alone"
  "is_nil (over L2 c) = is_nil c" "crand (over L2 c) = crand c" "mrand (over L2 c) = mrand c" "f64_ovf (over L2 c) = f64_ovf c"
  by (simp_all add: over_def)

lemma with_l2_simps [simp]:
  "l1_st (with_l2 b s) = l1_st s" "l2_st (with_l2 b s) = b" "ref_st (with_l2 b s) = ref_st s" "clock_now (with_l2 b s) = clock_now s"
  "dedupe_st (with_l2 b s) = dedupe_st s" "closed (with_l2 b s) = closed s" "closeDone (with_l2 b s) = closeDone s"
  "closeErr (with_l2 b s) = closeErr s" "stats (with_l2 b s) = stats s" "outbox (with_l2 b s) = outbox s"
  "ticks (with_l2 b s) = ticks s" "id_draws (with_l2 b s) = id_draws s" "jitter_draws (with_l2 b s) = jitter_draws s"
  by (simp_all add: with_l2_def)

text \<open>A cache whose methods run alone, over the L2 \<open>A\<close>; the calls but \<open>InvalidateTag\<close>.\<close>

definition alone :: "('b, 'v) l2_ops \<Rightarrow> ('k, 'v, 'a, 'b, 'r) cache \<Rightarrow> bool" where
  "alone A c \<longleftrightarrow> env c = quiet \<and> xsf_Do c = sf_alone \<and> l2 c = Some A"

fun by_tag :: "('k, 'v) cache_call \<Rightarrow> bool" where
  "by_tag (CInvalidateTag t) = True"
| "by_tag _ = False"

lemma negative_over [simp]: "negativeEntry (over L2 c) = negativeEntry c"
  unfolding negativeEntry_def over_simps ..

text \<open>Updates of the rest of the state do not mind the L2.\<close>

lemma with_l2_updates:
  "(with_l2 b s)\<lparr>l1_st := a\<rparr> = with_l2 b (s\<lparr>l1_st := a\<rparr>)" "(with_l2 b s)\<lparr>l2_st := b'\<rparr> = with_l2 b' (s\<lparr>l2_st := x\<rparr>)"
  "(with_l2 b s)\<lparr>ref_st := r\<rparr> = with_l2 b (s\<lparr>ref_st := r\<rparr>)" "(with_l2 b s)\<lparr>clock_now := t\<rparr> = with_l2 b (s\<lparr>clock_now := t\<rparr>)"
  "(with_l2 b s)\<lparr>dedupe_st := d\<rparr> = with_l2 b (s\<lparr>dedupe_st := d\<rparr>)" "(with_l2 b s)\<lparr>closed := p\<rparr> = with_l2 b (s\<lparr>closed := p\<rparr>)"
  "(with_l2 b s)\<lparr>closeDone := p\<rparr> = with_l2 b (s\<lparr>closeDone := p\<rparr>)" "(with_l2 b s)\<lparr>closeErr := e\<rparr> = with_l2 b (s\<lparr>closeErr := e\<rparr>)"
  "(with_l2 b s)\<lparr>subscribed := p\<rparr> = with_l2 b (s\<lparr>subscribed := p\<rparr>)" "(with_l2 b s)\<lparr>stats := st\<rparr> = with_l2 b (s\<lparr>stats := st\<rparr>)"
  "(with_l2 b s)\<lparr>outbox := evs\<rparr> = with_l2 b (s\<lparr>outbox := evs\<rparr>)" "(with_l2 b s)\<lparr>ticks := n\<rparr> = with_l2 b (s\<lparr>ticks := n\<rparr>)"
  "(with_l2 b s)\<lparr>id_draws := n\<rparr> = with_l2 b (s\<lparr>id_draws := n\<rparr>)" "(with_l2 b s)\<lparr>jitter_draws := n\<rparr> = with_l2 b (s\<lparr>jitter_draws := n\<rparr>)"
  by (simp_all add: with_l2_def)

section \<open>Corresponding programs\<close>

text \<open>
  \<open>corr P m n Q\<close>: where \<open>P\<close> relates the state of \<open>m\<close> and the L2 of \<open>n\<close>, whose states agree otherwise, both
  return the same, their states agree again, and \<open>Q\<close> holds.
\<close>

definition corr ::
  "(('a, 'b, 'r) cstate \<Rightarrow> 'c \<Rightarrow> bool) \<Rightarrow> ('a, 'b, 'r, 'x) prog \<Rightarrow> ('a, 'c, 'r, 'x) prog \<Rightarrow>
    ('x \<Rightarrow> ('a, 'b, 'r) cstate \<Rightarrow> 'c \<Rightarrow> bool) \<Rightarrow> bool" where
  "corr P m n Q \<longleftrightarrow> (\<forall>s b x s'. P s b \<longrightarrow> run_state m s = (x, s') \<longrightarrow>
     (\<exists>b'. run_state n (with_l2 b s) = (x, with_l2 b' s') \<and> Q x s' b'))"

lemma corrI:
  "(\<And>s b x s'. P s b \<Longrightarrow> run_state m s = (x, s') \<Longrightarrow> \<exists>b'. run_state n (with_l2 b s) = (x, with_l2 b' s') \<and> Q x s' b') \<Longrightarrow> corr P m n Q"
  by (simp add: corr_def)

lemma corrD:
  assumes "corr P m n Q" "P s b" "run_state m s = (x, s')"
  obtains b' where "run_state n (with_l2 b s) = (x, with_l2 b' s')" "Q x s' b'"
  using assms unfolding corr_def by blast

lemma corr_return: "(\<And>s b. P s b \<Longrightarrow> Q x s b) \<Longrightarrow> corr P (State_Monad.return x) (State_Monad.return x) Q"
  by (auto simp: corr_def)

lemma corr_bind:
  assumes "corr P m n R" "\<And>x. corr (R x) (f x) (g x) Q"
  shows "corr P (m \<bind> f) (n \<bind> g) Q"
proof (rule corrI)
  fix s b y s' assume P: "P s b" and run: "run_state (m \<bind> f) s = (y, s')"
  obtain x s1 where m: "run_state m s = (x, s1)" by fastforce
  obtain b1 where n: "run_state n (with_l2 b s) = (x, with_l2 b1 s1)" "R x s1 b1" by (rule corrD [OF assms(1) P m])
  have "run_state (f x) s1 = (y, s')" using run m by simp
  then obtain b' where "run_state (g x) (with_l2 b1 s1) = (y, with_l2 b' s')" "Q y s' b'" by (rule corrD [OF assms(2) n(2)])
  then show "\<exists>b'. run_state (n \<bind> g) (with_l2 b s) = (y, with_l2 b' s') \<and> Q y s' b'" using n(1) by auto
qed

lemma corr_weaken:
  "corr P' m n Q' \<Longrightarrow> (\<And>s b. P s b \<Longrightarrow> P' s b) \<Longrightarrow> (\<And>x s b. Q' x s b \<Longrightarrow> Q x s b) \<Longrightarrow> corr P m n Q"
  unfolding corr_def by meson

lemma corr_if: "(p \<Longrightarrow> corr P m n Q) \<Longrightarrow> (\<not> p \<Longrightarrow> corr P m' n' Q) \<Longrightarrow> corr P (if p then m else m') (if p then n else n') Q"
  by simp

lemma corr_prod: "(\<And>a b. corr P (f a b) (g a b) Q) \<Longrightarrow> corr P (case x of (a, b) \<Rightarrow> f a b) (case x of (a, b) \<Rightarrow> g a b) Q"
  by (cases x) simp

lemma corr_option:
  "corr P m n Q \<Longrightarrow> (\<And>a. corr P (f a) (g a) Q) \<Longrightarrow> corr P (case x of None \<Rightarrow> m | Some a \<Rightarrow> f a) (case x of None \<Rightarrow> n | Some a \<Rightarrow> g a) Q"
  by (cases x) auto

lemma corr_sum:
  "(\<And>a. corr P (f a) (g a) Q) \<Longrightarrow> (\<And>a. corr P (f' a) (g' a) Q) \<Longrightarrow>
    corr P (case x of Inl a \<Rightarrow> f a | Inr a \<Rightarrow> f' a) (case x of Inl a \<Rightarrow> g a | Inr a \<Rightarrow> g' a) Q"
  by (cases x) auto

lemma corr_let: "corr P (f x) (g x) Q \<Longrightarrow> corr P (Let x f) (Let x g) Q"
  by simp

lemma corr_for_each: "(\<And>x. corr P (f x) (g x) (\<lambda>_. P)) \<Longrightarrow> corr P (for_each xs f) (for_each xs g) (\<lambda>_. P)"
  by (induction xs) (auto intro: corr_return corr_bind)

text \<open>At time \<open>t\<close>, with the two L2s related by \<open>R\<close>: what the rest of the calls keeps.\<close>

abbreviation at_time :: "time \<Rightarrow> ('b \<Rightarrow> 'c \<Rightarrow> bool) \<Rightarrow> ('a, 'b, 'r) cstate \<Rightarrow> 'c \<Rightarrow> bool" where
  "at_time t R \<equiv> \<lambda>s b. clock_now s = t \<and> R (l2_st s) b"

abbreviation kept :: "time \<Rightarrow> ('b \<Rightarrow> 'c \<Rightarrow> bool) \<Rightarrow> ('a, 'b, 'r, 'x) prog \<Rightarrow> ('a, 'c, 'r, 'x) prog \<Rightarrow> bool" where
  "kept t R m n \<equiv> corr (at_time t R) m n (\<lambda>_. at_time t R)"

lemma corr_run:
  assumes "corr (at_time t R) m n (\<lambda>_. at_time t R')" "clock_now s = t" "R (l2_st s) b" "run_state m s = (x, s')"
  shows "\<exists>b'. run_state n (with_l2 b s) = (x, with_l2 b' s') \<and> R' (l2_st s') b'"
  using corrD [OF assms(1) _ assms(4), of b] assms(2,3) by blast

lemma kept_reading: "(\<And>b s. f (with_l2 b s) = g s) \<Longrightarrow> kept t R (reading g) (reading f)"
  by (auto simp: corr_def)

lemma kept_updating:
  "(\<And>b s. f (with_l2 b s) = with_l2 b (g s)) \<Longrightarrow> (\<And>s. clock_now (g s) = clock_now s \<and> l2_st (g s) = l2_st s) \<Longrightarrow> kept t R (updating g) (updating f)"
  by (auto simp: corr_def)

lemma kept_calls:
  assumes "env c = quiet"
  shows "kept t R (is_closed c) (is_closed (over B c))" "kept t R (l1_call c f) (l1_call (over B c) f)"
    "kept t R (ref_call c p) (ref_call (over B c) p)" "kept t R (load_origin c key) (load_origin (over B c) key)"
    "kept t R (publish c ev) (publish (over B c) ev)" "kept t R (newID c) (newID (over B c))"
    "kept t R (add1 upd) (add1 upd)" "kept t R (dedupe_Seen i) (dedupe_Seen i)"
  by (auto simp: corr_def run_alone [OF assms] run_alone [of "over B c"] with_l2_updates dedupe_Seen_def
      split: prod.splits option.splits)

lemma corr_Now:
  assumes "env c = quiet" "corr (at_time t R) (f t) (g t) Q"
  shows "corr (at_time t R) (Now c \<bind> f) (Now (over B c) \<bind> g) Q"
proof (rule corr_bind)
  show "corr (at_time t R) (Now c) (Now (over B c)) (\<lambda>x s b. at_time t R s b \<and> x = t)"
    by (auto simp: corr_def run_alone [OF assms(1)] run_alone [of "over B c"] with_l2_updates)
  show "corr (\<lambda>s b. at_time t R s b \<and> x = t) (f x) (g x) Q" for x
    using assms(2) by (cases "x = t") (auto simp: corr_def)
qed

text \<open>The deadlines of \<open>window\<close> fit the L2.\<close>

definition windows_fit :: "(time \<Rightarrow> bool) \<Rightarrow> ('k, 'v, 'a, 'b, 'r) cache \<Rightarrow> time \<Rightarrow> bool" where
  "windows_fit fits c t \<longleftrightarrow> (\<forall>s. fits (fst (fst (run_state (window c t) s))) \<and> fits (snd (fst (run_state (window c t) s))))"

lemma window_over:
  "run_state (window (over B c) t) (with_l2 b s) = (fst (run_state (window c t) s), with_l2 b (snd (run_state (window c t) s)))"
  "clock_now (snd (run_state (window c t) s)) = clock_now s" "l2_st (snd (run_state (window c t) s)) = l2_st s"
  unfolding window_def over_simps by (auto simp: with_l2_updates Let_def)

lemma corr_window:
  assumes "windows_fit fits c t" "\<And>fu su. fits fu \<Longrightarrow> fits su \<Longrightarrow> corr (at_time t R) (f (fu, su)) (g (fu, su)) Q"
  shows "corr (at_time t R) (window c t \<bind> f) (window (over B c) t \<bind> g) Q"
proof (rule corr_bind)
  have fit: "run_state (window c t) s = ((fu, su), s') \<Longrightarrow> fits fu \<and> fits su" for s fu su s'
    using assms(1) by (auto simp: windows_fit_def dest: spec [of _ s])
  show "corr (at_time t R) (window c t) (window (over B c) t) (\<lambda>x s b. at_time t R s b \<and> fits (fst x) \<and> fits (snd x))"
  proof (rule corrI)
    fix s b x s' assume s: "at_time t R s b" and run: "run_state (window c t) s = (x, s')"
    show "\<exists>b'. run_state (window (over B c) t) (with_l2 b s) = (x, with_l2 b' s') \<and> at_time t R s' b' \<and> fits (fst x) \<and> fits (snd x)"
      using window_over [where c = c and t = t and s = s] run s fit [of s "fst x" "snd x" s'] by (intro exI [of _ b]) auto
  qed
  show "corr (\<lambda>s b. at_time t R s b \<and> fits (fst x) \<and> fits (snd x)) (f x) (g x) Q" for x
    using assms(2) [of "fst x" "snd x"] by (cases "fits (fst x) \<and> fits (snd x)") (auto simp: corr_def)
qed

lemma kept_bind: "kept t R m n \<Longrightarrow> (\<And>x. corr (at_time t R) (f x) (g x) Q) \<Longrightarrow> corr (at_time t R) (m \<bind> f) (n \<bind> g) Q"
  by (simp only: prod.case | rule corr_bind)


section \<open>Methods correspond\<close>

locale l2_simulation =
  fixes A :: "('b, 'v::zero) l2_ops" and B :: "('c, 'v) l2_ops"
    and ready linked :: "'b \<Rightarrow> 'c \<Rightarrow> bool" and fits :: "time \<Rightarrow> bool"
  assumes ready_linked: "ready a b \<Longrightarrow> linked a b"
    and load_ready: "ready a b \<Longrightarrow> \<exists>a' b'. l2_Load A k a = (fst (l2_Load B k b), a') \<and> snd (l2_Load B k b) = b' \<and> ready a' b'"
    and load_linked: "linked a b \<Longrightarrow> \<exists>a' b'. l2_Load A k a = (fst (l2_Load B k b), a') \<and> snd (l2_Load B k b) = b' \<and> linked a' b'"
    and cas_linked: "ready a b \<Longrightarrow> fits fu \<Longrightarrow> fits su \<Longrightarrow>
      \<exists>a' b'. l2_SetCAS A k v x fu su ts a = (fst (l2_SetCAS B k v x fu su ts b), a') \<and> snd (l2_SetCAS B k v x fu su ts b) = b' \<and> linked a' b'"
    and delete_linked: "ready a b \<Longrightarrow>
      \<exists>a' b'. l2_CompareAndDelete A k x a = (fst (l2_CompareAndDelete B k x b), a') \<and> snd (l2_CompareAndDelete B k x b) = b' \<and> linked a' b'"
begin

lemma corr_l2_call:
  assumes "env c = quiet" "\<And>a b. R a b \<Longrightarrow> \<exists>a' b'. f a = (fst (g b), a') \<and> snd (g b) = b' \<and> R' a' b'"
    "\<And>x. corr (at_time t R') (p x) (q x) Q"
  shows "corr (at_time t R) (l2_call c f \<bind> p) (l2_call (over B c) g \<bind> q) Q"
proof (rule corr_bind [OF _ assms(3)], rule corrI)
  fix s b x s' assume s: "at_time t R s b" and run: "run_state (l2_call c f) s = (x, s')"
  obtain a' b' where ab: "f (l2_st s) = (fst (g b), a')" "snd (g b) = b'" "R' a' b'" using assms(2) s by blast
  then have x: "x = fst (g b)" "s' = (tick s)\<lparr>l2_st := a'\<rparr>" using run by (auto simp: run_alone [OF assms(1)])
  have "run_state (l2_call (over B c) g) (with_l2 b s) = (x, with_l2 b' s')"
    using ab(2) x by (simp add: run_alone [of "over B c"] split_beta with_l2_def)
  then show "\<exists>b'. run_state (l2_call (over B c) g) (with_l2 b s) = (x, with_l2 b' s') \<and> at_time t R' s' b'"
    using ab(3) s x by auto
qed

lemmas corr_Load = corr_l2_call [where R = ready and R' = ready, OF _ load_ready]
lemmas corr_Load2 = corr_l2_call [where R = linked and R' = linked, OF _ load_linked]
lemmas corr_SetCAS = corr_l2_call [where R = ready and R' = linked, OF _ cas_linked]
lemmas corr_CompareAndDelete = corr_l2_call [where R = ready and R' = linked, OF _ delete_linked]

lemma kept_installL1: "env c = quiet \<Longrightarrow> kept t R (installL1 c ks e) (installL1 (over B c) ks e)"
  unfolding installL1_def over_simps by (intro corr_option kept_bind kept_calls corr_return) auto

lemma corr_fill_negative:
  assumes "env c = quiet"
  shows "corr (at_time t ready) (fill_negative c A ks x now) (fill_negative (over B c) B ks x now) (\<lambda>_. at_time t linked)"
  unfolding fill_negative_def negative_over
  by (simp only: prod.case | rule corr_CompareAndDelete [OF assms] corr_Load2 [OF assms] corr_prod corr_if kept_bind kept_installL1 [OF assms] kept_calls [OF assms] corr_return | assumption | simp)+

lemma corr_fill_value:
  assumes "env c = quiet" "windows_fit fits c t"
  shows "corr (at_time t ready) (fill_value c A ks x t v) (fill_value (over B c) B ks x t v) (\<lambda>_. at_time t linked)"
  unfolding fill_value_def
  by (simp only: prod.case | rule corr_window [OF assms(2)] corr_SetCAS [OF assms(1)] corr_Load2 [OF assms(1)] corr_prod corr_sum corr_if kept_bind kept_installL1 [OF assms(1)] kept_calls [OF assms(1)] corr_return | assumption | simp)+

lemma corr_fill:
  assumes "alone A c" "windows_fit fits c t"
  shows "corr (at_time t ready) (fill c key ks) (fill (over B c) key ks) (\<lambda>_. at_time t linked)"
proof -
  have c: "env c = quiet" "l2 c = Some A" using assms(1) by (simp_all add: alone_def)
  show ?thesis
    unfolding fill_def c(2) over_simps option.case
    by (simp only: prod.case | rule corr_Now [OF c(1)] corr_Load [OF c(1)] corr_fill_negative [OF c(1)] corr_fill_value [OF c(1) assms(2)] corr_prod corr_sum corr_if corr_let kept_bind kept_installL1 [OF c(1)] kept_calls [OF c(1)] corr_return | assumption | simp add: ready_linked)+
qed

lemma corr_fill_sf:
  assumes "alone A c" "windows_fit fits c t"
  shows "corr (at_time t ready) (sf_Do c ks (fill c key ks)) (sf_Do (over B c) ks (fill (over B c) key ks)) (\<lambda>_. at_time t linked)"
proof -
  have x: "xsf_Do c = sf_alone" using assms(1) by (simp add: alone_def)
  have [simp]: "to_any (over B c) = to_any c" by (simp add: to_any_def fun_eq_iff)
  show ?thesis
    unfolding sf_Do_def x over_simps sf_alone_def
    by (intro corr_bind [where R = "\<lambda>_. at_time t linked"] corr_fill [OF assms]) (auto intro!: corr_return corr_prod)
qed

lemma weaken_linked: "kept t ready m n \<Longrightarrow> corr (at_time t ready) m n (\<lambda>_. at_time t linked)"
  by (erule corr_weaken) (simp_all add: ready_linked)

lemma corr_GetOrLoad:
  assumes "alone A c" "windows_fit fits c t"
  shows "corr (at_time t ready) (GetOrLoad c key) (GetOrLoad (over B c) key) (\<lambda>_. at_time t linked)"
proof -
  have c: "env c = quiet" using assms(1) by (simp add: alone_def)
  have ref: "kept t R (scheduleRefresh c key ks) (scheduleRefresh (over B c) key ks)" for R ks
    unfolding scheduleRefresh_def over_simps by (intro kept_bind kept_calls [OF c] corr_if corr_return)
  show ?thesis
    unfolding GetOrLoad_def over_simps
    by (simp only: prod.case | rule corr_Now [OF c] corr_bind [OF corr_fill_sf [OF assms]] ref corr_prod corr_if corr_let kept_bind kept_calls [OF c] corr_return
        | assumption | simp add: ready_linked)+
qed

lemma corr_Set:
  assumes "alone A c" "windows_fit fits c t"
  shows "corr (at_time t ready) (cache_Set c key v opts) (cache_Set (over B c) key v opts) (\<lambda>_. at_time t linked)"
proof -
  have c: "env c = quiet" "l2 c = Some A" using assms(1) by (simp_all add: alone_def)
  have [simp]: "key_event (over B c) = key_event c" by (simp add: key_event_def fun_eq_iff)
  show ?thesis
    unfolding cache_Set_def over_simps c(2) option.case
    by (simp only: prod.case | rule corr_Now [OF c(1)] corr_window [OF assms(2)] corr_SetCAS [OF c(1)] corr_prod corr_sum corr_if corr_let
        kept_bind kept_installL1 [OF c(1)] kept_calls [OF c(1)] corr_return | assumption | simp add: ready_linked)+
qed

lemma corr_Invalidate:
  assumes "alone A c"
  shows "corr (at_time t ready) (Invalidate c key) (Invalidate (over B c) key) (\<lambda>_. at_time t linked)"
proof -
  have c: "env c = quiet" "l2 c = Some A" using assms(1) by (simp_all add: alone_def)
  have [simp]: "key_event (over B c) = key_event c" by (simp add: key_event_def fun_eq_iff)
  show ?thesis
    unfolding Invalidate_def over_simps c(2) option.case bind_assoc
    by (simp only: prod.case | rule corr_Now [OF c(1)] corr_CompareAndDelete [OF c(1)] corr_prod corr_sum corr_if corr_let
        kept_bind kept_calls [OF c(1)] corr_return | assumption | simp add: ready_linked)+
qed

text \<open>The calls that do not ask the L2.\<close>

lemma kept_others:
  assumes "env c = quiet"
  shows "kept t R (cache_Get c key) (cache_Get (over B c) key)" "kept t R (onEvent c ev) (onEvent (over B c) ev)"
    "kept t R (cache_Stats c) (cache_Stats (over B c))" "kept t R (cache_Close c) (cache_Close (over B c))"
proof -
  show "kept t R (cache_Get c key) (cache_Get (over B c) key)" unfolding cache_Get_def over_simps
    by (simp only: prod.case | rule corr_Now [OF assms] corr_prod corr_if kept_bind kept_calls [OF assms] corr_return | assumption | simp)+
  show "kept t R (onEvent c ev) (onEvent (over B c) ev)" unfolding onEvent_def over_simps bus_evict_def
    by (rule corr_if corr_for_each kept_bind kept_calls [OF assms] corr_return | assumption | simp)+
  show "kept t R (cache_Stats c) (cache_Stats (over B c))" unfolding cache_Stats_def over_simps
    by (rule corr_option kept_bind kept_calls [OF assms] kept_reading corr_return | assumption | simp)+
  show "kept t R (cache_Close c) (cache_Close (over B c))" unfolding cache_Close_def over_simps
    by (rule corr_if kept_bind kept_calls [OF assms] kept_reading kept_updating corr_return | assumption | simp add: with_l2_updates)+
qed

lemma corr_call:
  assumes "alone A c" "windows_fit fits c t" "\<not> by_tag call"
  shows "corr (at_time t ready) (cache_do c call) (cache_do (over B c) call) (\<lambda>_. at_time t linked)"
proof -
  have c: "env c = quiet" using assms(1) by (simp add: alone_def)
  note calls = corr_fill [OF assms(1,2)] corr_GetOrLoad [OF assms(1,2)] corr_Set [OF assms(1,2)] corr_Invalidate [OF assms(1)]
    kept_others [OF c, THEN weaken_linked]
  show ?thesis
    using assms(3)
    by (cases call) (auto intro!: corr_bind [where R = "\<lambda>_. at_time t linked"] corr_return calls simp: refresh_run_def)
qed

end

end
