(* ===== verification/Go_Strconv.thy ===== *)
theory Go_Strconv
  imports Nimbus_Prelude
begin

text \<open>
  The decimal conversions of Go's \<open>strconv\<close> that builder.go and redisstore/redis.go use: \<open>FormatUint\<close>,
  \<open>FormatInt\<close>, \<open>ParseUint\<close> and \<open>ParseInt\<close> with base 10 and 64 bits. The parsers are the loops of the
  standard library on 64-bit words, with its three results: a number, a syntax error (value 0), a range
  error (value clamped).
\<close>

section \<open>Printing\<close>

definition digit_char :: "nat \<Rightarrow> char" where
  "digit_char d = char_of (48 + d)"

fun dec :: "nat \<Rightarrow> string" where
  "dec n = (if n < 10 then [digit_char n] else dec (n div 10) @ [digit_char (n mod 10)])"

declare dec.simps [simp del]

definition FormatUint :: "u64 \<Rightarrow> string" where
  "FormatUint w = dec (unat w)"

definition FormatInt :: "int \<Rightarrow> string" where
  "FormatInt i = (if i < 0 then CHR ''-'' # dec (nat (- i)) else dec (nat i))"

section \<open>Parsing\<close>

definition is_digit :: "char \<Rightarrow> bool" where
  "is_digit c \<longleftrightarrow> 48 \<le> (of_char c :: nat) \<and> (of_char c :: nat) \<le> 57"

definition digit_val :: "char \<Rightarrow> nat" where
  "digit_val c = of_char c - 48"

definition ErrSyntax :: go_error where "ErrSyntax = ErrMsg ''invalid syntax''"
definition ErrRange :: go_error where "ErrRange = ErrMsg ''value out of range''"

definition cutoff10 :: u64 where
  "cutoff10 = (- 1) div 10 + 1"

fun uint_loop :: "string \<Rightarrow> u64 \<Rightarrow> u64 \<times> go_error option" where
  "uint_loop [] n = (n, None)"
| "uint_loop (c # cs) n =
     (if \<not> is_digit c then (0, Some ErrSyntax)
      else if cutoff10 \<le> n then (- 1, Some ErrRange)
      else let n10 = n * 10; n1 = n10 + of_nat (digit_val c)
           in if n1 < n10 then (- 1, Some ErrRange) else uint_loop cs n1)"

definition ParseUint :: "string \<Rightarrow> u64 \<times> go_error option" where
  "ParseUint s = (if s = [] then (0, Some ErrSyntax) else uint_loop s 0)"

definition ParseInt :: "string \<Rightarrow> int \<times> go_error option" where
  "ParseInt s =
     (if s = [] then (0, Some ErrSyntax)
      else let neg = (hd s = CHR ''-''); body = (if hd s = CHR ''+'' \<or> neg then tl s else s);
               (un, err) = ParseUint body; u = uint un
           in if err \<noteq> None \<and> err \<noteq> Some ErrRange then (0, err)
              else if \<not> neg \<and> 2 ^ 63 \<le> u then (2 ^ 63 - 1, Some ErrRange)
              else if neg \<and> 2 ^ 63 < u then (- (2 ^ 63), Some ErrRange)
              else (if neg then - u else u, None))"

text \<open>The value of a string of digits.\<close>

definition dec_val :: "string \<Rightarrow> nat" where
  "dec_val s = foldl (\<lambda>n c. 10 * n + digit_val c) 0 s"

section \<open>Round trips\<close>

lemma of_char_digit: "d < 10 \<Longrightarrow> (of_char (digit_char d) :: nat) = 48 + d"
  by (simp add: digit_char_def)

lemma digit_char_props [simp]:
  "d < 10 \<Longrightarrow> is_digit (digit_char d)" "d < 10 \<Longrightarrow> digit_val (digit_char d) = d"
  by (simp_all add: is_digit_def digit_val_def of_char_digit)

lemma dec_small: "n < 10 \<Longrightarrow> dec n = [digit_char n]"
  by (simp add: dec.simps)

lemma dec_step: "\<not> n < 10 \<Longrightarrow> dec n = dec (n div 10) @ [digit_char (n mod 10)]"
  by (subst dec.simps) simp

lemma dec_nonempty [simp]: "dec n \<noteq> []"
  by (cases "n < 10") (simp_all add: dec_small dec_step)

lemma dec_digits: "c \<in> set (dec n) \<Longrightarrow> is_digit c"
proof (induction n rule: dec.induct)
  case (1 n)
  then show ?case by (cases "n < 10") (auto simp: dec_small dec_step)
qed

lemma dec_val_dec [simp]: "dec_val (dec n) = n"
proof (induction n rule: dec.induct)
  case (1 n)
  show ?case
  proof (cases "n < 10")
    case True
    then show ?thesis by (simp add: dec_small dec_val_def)
  next
    case False
    then show ?thesis using 1 by (simp add: dec_step dec_val_def)
  qed
qed

lemma dec_inj: "dec m = dec n \<longleftrightarrow> m = n"
  by (metis dec_val_dec)

lemma cutoff10_unat: "unat cutoff10 = 1844674407370955162"
  by (simp add: cutoff10_def)

lemma uint_step:
  assumes "m < 2 ^ 64"
  shows "uint_loop (digit_char (m mod 10) # cs) (of_nat (m div 10)) = uint_loop cs (of_nat m)"
proof -
  let ?n = "of_nat (m div 10) :: u64" and ?d = "of_nat (m mod 10) :: u64"
  have un: "unat ?n = m div 10" using assms by (simp add: unat_of_nat take_bit_nat_eq_self)
  have lt: "\<not> cutoff10 \<le> ?n" using assms un by (simp add: word_le_nat_alt cutoff10_unat)
  have u10: "unat (?n * 10) = m div 10 * 10"
    using assms un by (subst unat_mult_lem [THEN iffD1]) simp_all
  have sum: "?n * 10 + ?d = of_nat m" by (metis div_mult_mod_eq of_nat_add of_nat_mult of_nat_numeral)
  have "unat (of_nat m :: u64) = m" using assms by (simp add: unat_of_nat take_bit_nat_eq_self)
  then have "\<not> (of_nat m :: u64) < ?n * 10" using u10 by (simp add: word_less_nat_alt)
  then show ?thesis using lt sum by (simp add: Let_def)
qed

lemma uint_loop_dec: "m < 2 ^ 64 \<Longrightarrow> uint_loop (dec m @ cs) 0 = uint_loop cs (of_nat m)"
proof (induction m arbitrary: cs rule: dec.induct)
  case (1 m)
  show ?case
  proof (cases "m < 10")
    case True
    then show ?thesis using uint_step [OF 1(2), of cs] by (simp add: dec_small)
  next
    case False
    then show ?thesis using uint_step [OF 1(2), of cs] 1 by (simp add: dec_step)
  qed
qed

lemma ParseUint_dec: "m < 2 ^ 64 \<Longrightarrow> ParseUint (dec m) = (of_nat m, None)"
  using uint_loop_dec [of m "[]"] by (simp add: ParseUint_def)

lemma ParseUint_FormatUint: "ParseUint (FormatUint w) = (w, None)"
  using unsigned_less [of w, where 'a = nat] by (simp add: FormatUint_def ParseUint_dec)

lemma hd_dec: "hd (dec n) \<noteq> CHR ''-''" "hd (dec n) \<noteq> CHR ''+''"
  using dec_digits [of "hd (dec n)" n] by (auto simp: is_digit_def)

lemma uint_of_nat_small: "m < 2 ^ 64 \<Longrightarrow> uint (of_nat m :: u64) = int m"
  by (simp add: unsigned_of_nat take_bit_nat_eq_self)

lemma ParseInt_FormatInt:
  assumes "- (2 ^ 63) \<le> i" "i < 2 ^ 63"
  shows "ParseInt (FormatInt i) = (i, None)"
proof (cases "i < 0")
  case True
  let ?m = "nat (- i)"
  have m: "?m < 2 ^ 64" using assms(1) True by simp
  have "uint (of_nat ?m :: u64) = - i" using uint_of_nat_small [OF m] True by simp
  then show ?thesis
    using True assms by (simp add: ParseInt_def FormatInt_def ParseUint_dec [OF m] Let_def)
next
  case False
  let ?m = "nat i"
  have m: "?m < 2 ^ 64" using assms(2) False by simp
  have "uint (of_nat ?m :: u64) = i" using uint_of_nat_small [OF m] False by simp
  then show ?thesis
    using False assms by (simp add: ParseInt_def FormatInt_def ParseUint_dec [OF m] Let_def hd_dec)
qed

lemma FormatUint_inj: "FormatUint v = FormatUint w \<longleftrightarrow> v = w"
  by (simp add: FormatUint_def dec_inj word_unat_eq_iff)

lemma FormatInt_inj:
  "- (2 ^ 63) \<le> i \<Longrightarrow> i < 2 ^ 63 \<Longrightarrow> - (2 ^ 63) \<le> j \<Longrightarrow> j < 2 ^ 63 \<Longrightarrow> FormatInt i = FormatInt j \<longleftrightarrow> i = j"
  by (metis ParseInt_FormatInt fst_conv)

end
