(* ===== verification/Redis_Store.thy ===== *)
theory Redis_Store
  imports Go_Strconv Go_Float Go_Monad Versioned_Spec
begin

text \<open>
  The shared, authoritative L2 tier of redisstore/redis.go: its two Lua scripts, and the Go methods
  around them.

  The Redis server is not part of the repository. It is a parameter, a record of the commands the code
  issues over a server state; what the code relies on is the locale \<open>redis_server\<close> of Redis_Versions. Commands
  travel over a network: the \<open>n\<close>-th one reaches the server and its reply arrives, or the request is
  lost, or the reply is lost after the server acted (\<open>net\<close>). Before each command the rest of the
  world may have changed the server: other clients, and entries that expired (\<open>world\<close>).

  Numbers in the scripts are Lua's doubles: exact rationals with the rounding \<open>dbl\<close> after each
  operation. \<open>string.format('%d', x)\<close> converts to an integer; how the server renders a number given to
  \<open>redis.call\<close>, and what \<open>tonumber\<close> makes of a string that is not a plain decimal number, are
  parameters. The codec is a parameter too; the JSON codec that stands in for a nil one is the package encoding/json,
  a parameter, behind the same interface.
\<close>

section \<open>The server, the network, the store\<close>

record 'r redis =
  cmd_HGET :: "string \<Rightarrow> string \<Rightarrow> 'r \<Rightarrow> string option"
  cmd_HMGET :: "string \<Rightarrow> string list \<Rightarrow> 'r \<Rightarrow> string option list"
  cmd_DEL :: "string \<Rightarrow> 'r \<Rightarrow> 'r"
  cmd_HSET :: "string \<Rightarrow> (string \<times> string) list \<Rightarrow> 'r \<Rightarrow> 'r"
  cmd_PEXPIRE :: "string \<Rightarrow> string \<Rightarrow> 'r \<Rightarrow> 'r"
  cmd_TIME :: "'r \<Rightarrow> string \<times> string"
  cmd_SADD :: "string \<Rightarrow> string \<Rightarrow> 'r \<Rightarrow> 'r"
  cmd_SREM :: "string \<Rightarrow> string list \<Rightarrow> 'r \<Rightarrow> 'r"
  cmd_SSCAN :: "string \<Rightarrow> u64 \<Rightarrow> int \<Rightarrow> 'r \<Rightarrow> u64 \<times> string list"
  num_arg :: "rat \<Rightarrow> string"
  tonumber_other :: "string \<Rightarrow> rat option"

datatype fault = Reached | RequestLost go_error | ReplyLost go_error

record 'v codec =
  Encode :: "'v \<Rightarrow> go_error + string"
  Decode :: "string \<Rightarrow> go_error + 'v"

text \<open>What \<open>json.Unmarshal\<close> leaves in its target beside an error is not looked at by any caller of a codec.\<close>

record 'v encoding_json =
  json_Marshal :: "'v \<Rightarrow> go_error + string"
  json_Unmarshal :: "string \<Rightarrow> go_error + 'v"

definition JSON :: "'v encoding_json \<Rightarrow> 'v codec" where
  "JSON J = \<lparr>Encode = json_Marshal J, Decode = json_Unmarshal J\<rparr>"

record ('r, 'v) rstore =
  client :: "'r redis"
  net :: "nat \<Rightarrow> fault"
  world :: "nat \<Rightarrow> 'r \<Rightarrow> 'r"
  codec :: "'v codec"
  keyPrefix :: string
  tagPrefix :: string
  tombstoneTTL :: duration
  tagTTL :: duration

record 'r l2state =
  server :: 'r
  sent :: nat
  wall :: time

text \<open>A reply element of a \<open>RedisMessage\<close> array: nil or a bulk string.\<close>

datatype msg = MNil | Bulk string

definition msg_of :: "string option \<Rightarrow> msg" where
  "msg_of x = (case x of None \<Rightarrow> MNil | Some s \<Rightarrow> Bulk s)"

definition ErrNil :: go_error where "ErrNil = ErrMsg ''redis nil message''"

fun ToString :: "msg \<Rightarrow> go_error + string" where
  "ToString MNil = Inl ErrNil"
| "ToString (Bulk s) = Inr s"

definition send ::
  "('r, 'v) rstore \<Rightarrow> ('r \<Rightarrow> (go_error + 'x) \<times> 'r) \<Rightarrow> ('r l2state, go_error + 'x) state" where
  "send c f = State (\<lambda>s.
     let n = sent s; r = world c n (server s); s1 = s\<lparr>sent := Suc n, server := r\<rparr>
     in case net c n of
          Reached \<Rightarrow> (case f r of (x, r') \<Rightarrow> (x, s1\<lparr>server := r'\<rparr>))
        | RequestLost e \<Rightarrow> (Inl e, s1)
        | ReplyLost e \<Rightarrow> (Inl e, s1\<lparr>server := snd (f r)\<rparr>))"

section \<open>The Lua scripts\<close>

definition ErrLua :: go_error where "ErrLua = ErrMsg ''ERR user_script''"

definition lua_tonumber :: "'r redis \<Rightarrow> string \<Rightarrow> rat option" where
  "lua_tonumber R s = (if s \<noteq> [] \<and> list_all is_digit s then Some (dbl (of_nat (dec_val s)))
     else tonumber_other R s)"

definition lua_format_d :: "rat \<Rightarrow> string" where
  "lua_format_d x = FormatInt (i64 (if 0 \<le> x then \<lfloor>x\<rfloor> else \<lceil>x\<rceil>))"

definition lua_or_0 :: "rat option \<Rightarrow> rat" where
  "lua_or_0 x = (case x of Some n \<Rightarrow> n | None \<Rightarrow> 0)"

definition lua_cur :: "'r redis \<Rightarrow> string \<Rightarrow> 'r \<Rightarrow> rat option" where
  "lua_cur R key r = (case cmd_HGET R key ''ver'' r of None \<Rightarrow> None | Some s \<Rightarrow> lua_tonumber R s)"

definition mint :: "'r redis \<Rightarrow> rat option \<Rightarrow> 'r \<Rightarrow> rat option" where
  "mint R cur r = (case cur of
       Some n \<Rightarrow> Some (dbl (n + 1))
     | None \<Rightarrow>
         (case cmd_TIME R r of (t1, t2) \<Rightarrow>
           (case (lua_tonumber R t1, lua_tonumber R t2) of
              (Some a, Some b) \<Rightarrow>
                let ms = dbl (dbl (a * 1000) + of_int \<lfloor>dbl (b / 1000)\<rfloor>)
                in Some (dbl (dbl (ms * 1024) + 1))
            | _ \<Rightarrow> None)))"

definition setCAS_script ::
  "'r redis \<Rightarrow> string \<Rightarrow> string \<Rightarrow> string \<Rightarrow> string \<Rightarrow> string \<Rightarrow> string \<Rightarrow> string \<Rightarrow> string \<Rightarrow> 'r \<Rightarrow>
    (go_error + msg list) \<times> 'r" where
  "setCAS_script R key force expect val sa fu su ttl r =
     (let cur = lua_cur R key r
      in if force \<noteq> ''1'' \<and> lua_tonumber R expect \<noteq> Some (lua_or_0 cur)
         then (Inr [Bulk (lua_format_d (lua_or_0 cur)), Bulk ''0''], r)
         else case mint R cur r of
             None \<Rightarrow> (Inl ErrLua, r)
           | Some nv \<Rightarrow>
               let r1 = cmd_DEL R key r;
                   r2 = cmd_HSET R key [(''ver'', num_arg R nv), (''val'', val), (''sa'', sa), (''fu'', fu), (''su'', su)] r1
               in case lua_tonumber R ttl of
                    None \<Rightarrow> (Inl ErrLua, r2)
                  | Some t \<Rightarrow>
                      (Inr [Bulk (lua_format_d nv), Bulk ''1''],
                       if 0 < t then cmd_PEXPIRE R key (num_arg R t) r2 else r2))"

definition compareAndDelete_script ::
  "'r redis \<Rightarrow> string \<Rightarrow> string \<Rightarrow> string \<Rightarrow> string \<Rightarrow> 'r \<Rightarrow> (go_error + msg list) \<times> 'r" where
  "compareAndDelete_script R key force version ttl r =
     (let cur = lua_cur R key r
      in case (if force \<noteq> ''1'' then map_option (\<lambda>v. v < lua_or_0 cur) (lua_tonumber R version) else Some False) of
           None \<Rightarrow> (Inl ErrLua, r)
         | Some True \<Rightarrow> (Inr [Bulk (lua_format_d (lua_or_0 cur)), Bulk ''0''], r)
         | Some False \<Rightarrow>
             (case mint R cur r of
                None \<Rightarrow> (Inl ErrLua, r)
              | Some nv \<Rightarrow>
                  let r1 = cmd_DEL R key r;
                      r2 = cmd_HSET R key [(''ver'', num_arg R nv), (''del'', ''1'')] r1
                  in case lua_tonumber R ttl of
                       None \<Rightarrow> (Inl ErrLua, r2)
                     | Some t \<Rightarrow>
                         (Inr [Bulk (lua_format_d nv), Bulk ''1''],
                          if 0 < t then cmd_PEXPIRE R key (num_arg R t) r2 else r2)))"

section \<open>The methods of the store\<close>

definition redis_New ::
  "'v encoding_json \<Rightarrow> 'r redis \<Rightarrow> (nat \<Rightarrow> fault) \<Rightarrow> (nat \<Rightarrow> 'r \<Rightarrow> 'r) \<Rightarrow> 'v codec option \<Rightarrow>
    (('r, 'v) rstore \<Rightarrow> ('r, 'v) rstore) list \<Rightarrow> ('r, 'v) rstore" where
  "redis_New J R nw w cd opts = fold (\<lambda>f c. f c) opts
     \<lparr>client = R, net = nw, world = w, codec = (case cd of None \<Rightarrow> JSON J | Some x \<Rightarrow> x),
      keyPrefix = ''rc:k:'', tagPrefix = ''rc:t:'', tombstoneTTL = 60 * Second, tagTTL = 24 * Hour\<rparr>"

definition WithKeyPrefix :: "string \<Rightarrow> ('r, 'v) rstore \<Rightarrow> ('r, 'v) rstore" where
  "WithKeyPrefix p c = c\<lparr>keyPrefix := p\<rparr>"

definition WithTagPrefix :: "string \<Rightarrow> ('r, 'v) rstore \<Rightarrow> ('r, 'v) rstore" where
  "WithTagPrefix p c = c\<lparr>tagPrefix := p\<rparr>"

definition WithTombstoneTTL :: "duration \<Rightarrow> ('r, 'v) rstore \<Rightarrow> ('r, 'v) rstore" where
  "WithTombstoneTTL d c = c\<lparr>tombstoneTTL := d\<rparr>"

definition WithTagTTL :: "duration \<Rightarrow> ('r, 'v) rstore \<Rightarrow> ('r, 'v) rstore" where
  "WithTagTTL d c = c\<lparr>tagTTL := d\<rparr>"

definition store_k :: "('r, 'v) rstore \<Rightarrow> gokey \<Rightarrow> string" where
  "store_k c key = keyPrefix c @ key"

definition store_t :: "('r, 'v) rstore \<Rightarrow> string \<Rightarrow> string" where
  "store_t c tag = tagPrefix c @ tag"

definition Milliseconds :: "duration \<Rightarrow> int" where
  "Milliseconds d = go_div d Millisecond"

text \<open>\<open>time.Time.Sub\<close> saturates at the ends of the \<open>Duration\<close> range.\<close>

definition time_Sub :: "time \<Rightarrow> time \<Rightarrow> duration" where
  "time_Sub a b = max (- (2 ^ 63)) (min (2 ^ 63 - 1) (a - b))"

definition redisTTL :: "time \<Rightarrow> time \<Rightarrow> int" where
  "redisTTL staleUntil now = (let ms = Milliseconds (time_Sub staleUntil now) in if ms < 1000 then 1000 else ms)"

definition boolArg :: "bool \<Rightarrow> string" where
  "boolArg b = (if b then ''1'' else ''0'')"

definition UnixNano :: "time \<Rightarrow> int" where
  "UnixNano t = i64 t"

definition parseUnixNano :: "msg \<Rightarrow> time" where
  "parseUnixNano m = (case ToString m of
       Inl _ \<Rightarrow> zero_time
     | Inr s \<Rightarrow> (case ParseInt s of (n, Some _) \<Rightarrow> zero_time | (n, None) \<Rightarrow> n))"

definition parseVerFlag :: "msg list \<Rightarrow> u64 \<times> bool \<times> go_error option" where
  "parseVerFlag res =
     (if length res < 2 then (0, False, Some (ErrMsg ''redisstore: unexpected script reply length''))
      else case ToString (res ! 0) of
          Inl err \<Rightarrow> (0, False, Some err)
        | Inr verStr \<Rightarrow>
            (case ParseUint verStr of
               (_, Some err) \<Rightarrow> (0, False, Some err)
             | (ver, None) \<Rightarrow> (ver, ToString (res ! 1) = Inr ''1'', None)))"

definition redis_read ::
  "('r, 'v::zero) rstore \<Rightarrow> gokey \<Rightarrow> ('r l2state, 'v entry \<times> bool \<times> go_error option) state" where
  "redis_read c key = do {
     reply \<leftarrow> send c (\<lambda>r. (Inr (map msg_of (cmd_HMGET (client c) (store_k c key)
                            [''ver'', ''del'', ''val'', ''sa'', ''fu'', ''su''] r)), r));
     State_Monad.return (case reply of
         Inl err \<Rightarrow> (zero_entry, False, Some err)
       | Inr arr \<Rightarrow>
           if length arr < 6
           then (zero_entry, False, Some (ErrMsg (''redisstore: unexpected HMGET reply length '' @ FormatInt (int (length arr)))))
           else if arr ! 0 = MNil then (zero_entry, False, None)
           else
             let ver = (case ToString (arr ! 0) of Inr s \<Rightarrow> fst (ParseUint s) | Inl _ \<Rightarrow> fst (ParseUint []));
                 e = zero_entry\<lparr>Version := ver\<rparr>
             in if ToString (arr ! 1) = Inr ''1'' then (e, False, None)
                else case ToString (arr ! 2) of
                    Inl _ \<Rightarrow> (e, False, None)
                  | Inr valStr \<Rightarrow>
                      (case Decode (codec c) valStr of
                         Inl derr \<Rightarrow> (e, False, Some derr)
                       | Inr v \<Rightarrow>
                           (e\<lparr>Value := v, StoredAt := parseUnixNano (arr ! 3), FreshUntil := parseUnixNano (arr ! 4),
                              StaleUntil := parseUnixNano (arr ! 5)\<rparr>, True, None))) }"

definition redis_Load ::
  "('r, 'v::zero) rstore \<Rightarrow> gokey \<Rightarrow> ('r l2state, 'v entry \<times> bool \<times> go_error option) state" where
  "redis_Load c key = redis_read c key"

definition redis_Get ::
  "('r, 'v::zero) rstore \<Rightarrow> gokey \<Rightarrow> ('r l2state, 'v entry \<times> bool \<times> go_error option) state" where
  "redis_Get c key = redis_read c key"

text \<open>
  \<open>addTags\<close> sends every command of the pipeline, then returns the first error among the replies.
\<close>

fun do_multi :: "('r l2state, go_error + unit) state list \<Rightarrow> ('r l2state, go_error option) state" where
  "do_multi [] = State_Monad.return None"
| "do_multi (m # ms) = do {
     x \<leftarrow> m;
     rest \<leftarrow> do_multi ms;
     State_Monad.return (case x of Inl err \<Rightarrow> Some err | Inr _ \<Rightarrow> rest) }"

definition tag_cmds :: "('r, 'v) rstore \<Rightarrow> gokey \<Rightarrow> string \<Rightarrow> ('r l2state, go_error + unit) state list" where
  "tag_cmds c key tag =
     send c (\<lambda>r. (Inr (), cmd_SADD (client c) (store_t c tag) key r))
     # (if 0 < tagTTL c
        then [send c (\<lambda>r. (Inr (), cmd_PEXPIRE (client c) (store_t c tag) (FormatInt (Milliseconds (tagTTL c))) r))]
        else [])"

definition addTags :: "('r, 'v) rstore \<Rightarrow> gokey \<Rightarrow> string list \<Rightarrow> ('r l2state, go_error option) state" where
  "addTags c key ts = do_multi (concat (map (tag_cmds c key) ts))"

definition redis_SetCAS ::
  "('r, 'v) rstore \<Rightarrow> gokey \<Rightarrow> 'v \<Rightarrow> u64 \<Rightarrow> time \<Rightarrow> time \<Rightarrow> string list \<Rightarrow>
    ('r l2state, go_error + 'v entry) state" where
  "redis_SetCAS c key val expect freshUntil staleUntil ts = (case Encode (codec c) val of
       Inl err \<Rightarrow> State_Monad.return (Inl err)
     | Inr b \<Rightarrow> do {
         now \<leftarrow> reading wall;
         reply \<leftarrow> send c (setCAS_script (client c) (store_k c key)
            (boolArg (expect = ForceVersion)) (FormatUint expect) b (FormatInt (UnixNano now))
            (FormatInt (UnixNano freshUntil)) (FormatInt (UnixNano staleUntil)) (FormatInt (redisTTL staleUntil now)));
         case reply of
           Inl err \<Rightarrow> State_Monad.return (Inl err)
         | Inr res \<Rightarrow>
             (case parseVerFlag res of
                (_, _, Some perr) \<Rightarrow> State_Monad.return (Inl perr)
              | (newVer, ok, None) \<Rightarrow>
                  if \<not> ok then State_Monad.return (Inl ErrVersionConflict)
                  else do {
                    terr \<leftarrow> (if ts \<noteq> [] then addTags c key ts else State_Monad.return None);
                    State_Monad.return (case terr of
                        Some err \<Rightarrow> Inl err
                      | None \<Rightarrow> Inr \<lparr>Value = val, Version = newVer, StoredAt = now, FreshUntil = freshUntil,
                                   StaleUntil = staleUntil, Negative = False\<rparr>) }) })"

definition redis_Set :: "('r, 'v) rstore \<Rightarrow> gokey \<Rightarrow> 'v entry \<Rightarrow> ('r l2state, go_error option) state" where
  "redis_Set c key e = do {
     r \<leftarrow> redis_SetCAS c key (Value e) ForceVersion (FreshUntil e) (StaleUntil e) [];
     State_Monad.return (case r of Inl err \<Rightarrow> Some err | Inr _ \<Rightarrow> None) }"

definition redis_CompareAndDelete ::
  "('r, 'v) rstore \<Rightarrow> gokey \<Rightarrow> u64 \<Rightarrow> ('r l2state, u64 \<times> bool \<times> go_error option) state" where
  "redis_CompareAndDelete c key version = do {
     reply \<leftarrow> send c (compareAndDelete_script (client c) (store_k c key) (boolArg (version = ForceVersion))
        (FormatUint version) (FormatInt (Milliseconds (tombstoneTTL c))));
     State_Monad.return (case reply of Inl err \<Rightarrow> (0, False, Some err) | Inr res \<Rightarrow> parseVerFlag res) }"

definition redis_Delete :: "('r, 'v) rstore \<Rightarrow> gokey \<Rightarrow> ('r l2state, go_error option) state" where
  "redis_Delete c key = do {
     (_, _, err) \<leftarrow> redis_CompareAndDelete c key ForceVersion;
     State_Monad.return err }"

definition tagScanCount :: int where "tagScanCount = 256"
definition tagPipelineBatch :: nat where "tagPipelineBatch = 256"

text \<open>One pipelined batch: the members whose tombstone was written, and the first error.\<close>

fun exec_batch :: "('r, 'v) rstore \<Rightarrow> string \<Rightarrow> gokey list \<Rightarrow> ('r l2state, gokey list \<times> go_error option) state" where
  "exec_batch c ttl [] = State_Monad.return ([], None)"
| "exec_batch c ttl (key # ks) = do {
     r \<leftarrow> send c (compareAndDelete_script (client c) (store_k c key) ''1'' ''0'' ttl);
     (finished, batchErr) \<leftarrow> exec_batch c ttl ks;
     State_Monad.return (case r of
         Inl rerr \<Rightarrow> (finished, Some rerr)
       | Inr arr \<Rightarrow>
           (case parseVerFlag arr of
              (_, _, Some perr) \<Rightarrow> (finished, Some perr)
            | (_, _, None) \<Rightarrow> (key # finished, batchErr))) }"

fun tag_page ::
  "('r, 'v) rstore \<Rightarrow> string \<Rightarrow> string \<Rightarrow> gokey list list \<Rightarrow> gokey list \<Rightarrow>
    ('r l2state, gokey list \<times> go_error option) state" where
  "tag_page c setKey ttl [] processed = State_Monad.return (processed, None)"
| "tag_page c setKey ttl (batch # bs) processed = do {
     (finished, batchErr) \<leftarrow> exec_batch c ttl batch;
     serr \<leftarrow> (if finished \<noteq> []
        then do { x \<leftarrow> send c (\<lambda>r. (Inr (), cmd_SREM (client c) setKey finished r));
                  State_Monad.return (case x of Inl err \<Rightarrow> Some err | Inr _ \<Rightarrow> None) }
        else State_Monad.return None);
     if serr \<noteq> None then State_Monad.return (processed @ finished, serr)
     else if batchErr \<noteq> None then State_Monad.return (processed @ finished, batchErr)
     else tag_page c setKey ttl bs (processed @ finished) }"

text \<open>The cursor loop; it returns only if the server's scan ends.\<close>

partial_function (option) tag_scan ::
  "('r, 'v) rstore \<Rightarrow> string \<Rightarrow> string \<Rightarrow> u64 \<Rightarrow> gokey list \<Rightarrow> 'r l2state \<Rightarrow>
    ((gokey list \<times> go_error option) \<times> 'r l2state) option" where
  "tag_scan c setKey ttl cursor processed s =
     (case run_state (send c (\<lambda>r. (Inr (cmd_SSCAN (client c) setKey cursor tagScanCount r), r))) s of
        (Inl err, s1) \<Rightarrow> Some ((processed, Some err), s1)
      | (Inr (cursor', elements), s1) \<Rightarrow>
          (case run_state (tag_page c setKey ttl (chunks tagPipelineBatch 0 elements) processed) s1 of
             ((processed', Some err), s2) \<Rightarrow> Some ((processed', Some err), s2)
           | ((processed', None), s2) \<Rightarrow>
               if cursor' = 0 then Some ((processed', None), s2)
               else tag_scan c setKey ttl cursor' processed' s2))"

definition redis_DeleteByTag ::
  "('r, 'v) rstore \<Rightarrow> string \<Rightarrow> 'r l2state \<Rightarrow> ((gokey list \<times> go_error option) \<times> 'r l2state) option" where
  "redis_DeleteByTag c tag s =
     tag_scan c (store_t c tag) (FormatInt (Milliseconds (tombstoneTTL c))) 0 [] s"

definition redis_Close :: "('r, 'v) rstore \<Rightarrow> ('r l2state, go_error option) state" where
  "redis_Close c = State_Monad.return None"

definition redis_TombstoneTTL :: "('r, 'v) rstore \<Rightarrow> duration" where
  "redis_TombstoneTTL c = tombstoneTTL c"

text \<open>
  The store as the cache sees it. A scan that never ends would block the caller; the record of
  operations is total, so this case is given an error (\<open>tag_scan\<close> is proved to return where the
  scan ends).
\<close>

definition redis_ops :: "('r, 'v::zero) rstore \<Rightarrow> ('r l2state, 'v) l2_ops" where
  "redis_ops c = \<lparr>l2_Load = (\<lambda>k. run_state (redis_Load c k)),
     l2_SetCAS = (\<lambda>k v x fu su ts. run_state (redis_SetCAS c k v x fu su ts)),
     l2_CompareAndDelete = (\<lambda>k x. run_state (redis_CompareAndDelete c k x)),
     l2_DeleteByTag = (\<lambda>t s. case redis_DeleteByTag c t s of
         Some x \<Rightarrow> x | None \<Rightarrow> (([], Some (ErrMsg ''blocked'')), s)),
     l2_TombstoneTTL = Some (redis_TombstoneTTL c)\<rparr>"

end
