(* ===== verification/Redis_Versions.thy ===== *)
theory Redis_Versions
  imports Redis_Store
begin

text \<open>
  What the Lua scripts of redisstore/redis.go promise on a server that behaves as documented: which
  versions they mint, when the guards let a write through, and what is stored afterwards.

  The documented behaviour of the server is the locale \<open>redis_server\<close>, over a view of what is stored
  at a key and the server's clock in microseconds. It is interpreted on a reference server in
  \<open>Redis_Reference\<close>.
\<close>

section \<open>What is stored at a key\<close>

datatype robj = Missing | Hash "string \<rightharpoonup> string" | SetOf "string set"

text \<open>A command on a hash or a set treats a missing key as empty, and refuses the other type.\<close>

fun as_hash :: "robj \<Rightarrow> (string \<rightharpoonup> string) option" where
  "as_hash Missing = Some Map.empty"
| "as_hash (Hash h) = Some h"
| "as_hash (SetOf _) = None"

fun as_set :: "robj \<Rightarrow> string set option" where
  "as_set Missing = Some {}"
| "as_set (Hash _) = None"
| "as_set (SetOf S) = Some S"

definition of_set :: "string set \<Rightarrow> robj" where
  "of_set S = (if S = {} then Missing else SetOf S)"

locale redis_server =
  fixes R :: "'r redis"
    and obj :: "'r \<Rightarrow> string \<Rightarrow> robj"
    and micros :: "'r \<Rightarrow> nat"
  assumes HGET: "as_hash (obj r k) = Some h \<Longrightarrow> cmd_HGET R k f r = h f"
    and HMGET: "as_hash (obj r k) = Some h \<Longrightarrow> cmd_HMGET R k fs r = map h fs"
    and DEL: "obj (cmd_DEL R k r) = (obj r)(k := Missing)"
    and HSET: "as_hash (obj r k) = Some h \<Longrightarrow> distinct (map fst fvs) \<Longrightarrow> fvs \<noteq> [] \<Longrightarrow>
      obj (cmd_HSET R k fvs r) = (obj r)(k := Hash (h ++ map_of fvs))"
    and PEXPIRE: "obj (cmd_PEXPIRE R k (dec n) r) = (if 0 < n then obj r else (obj r)(k := Missing))"
    and SADD: "as_set (obj r k) = Some S \<Longrightarrow> obj (cmd_SADD R k m r) = (obj r)(k := SetOf (insert m S))"
    and SREM: "as_set (obj r k) = Some S \<Longrightarrow> obj (cmd_SREM R k ms r) = (obj r)(k := of_set (S - set ms))"
    and TIME: "cmd_TIME R r = (dec (micros r div 1000000), dec (micros r mod 1000000))"
    and CLOCK: "micros r div 1000 < 2 ^ 43"
    and NUM: "n < 10 ^ 17 \<Longrightarrow> num_arg R (of_nat n) = dec n"

section \<open>Versions\<close>

text \<open>
  The version of an entry key is what its field \<open>ver\<close> says, 0 where there is none. \<open>versioned\<close> is
  the type invariant of an entry key: empty, or a hash whose version is a positive decimal number
  that a double represents exactly.
\<close>

definition stored_version :: "(string \<rightharpoonup> string) \<Rightarrow> nat" where
  "stored_version h = (case h ''ver'' of None \<Rightarrow> 0 | Some x \<Rightarrow> dec_val x)"

definition versioned :: "(string \<rightharpoonup> string) \<Rightarrow> bool" where
  "versioned h \<longleftrightarrow> h ''ver'' = None \<or> (\<exists>v. 0 < v \<and> v \<le> 2 ^ 53 \<and> h ''ver'' = Some (dec v))"

definition entry_key :: "robj \<Rightarrow> bool" where
  "entry_key x \<longleftrightarrow> (\<exists>h. as_hash x = Some h \<and> versioned h)"

text \<open>
  What is minted next: one more than the stored version, until doubles run out of integers, or the
  seed from the clock.
\<close>

definition seed :: "nat \<Rightarrow> nat" where
  "seed us = us div 1000 * 1024 + 1"

definition next_version :: "nat \<Rightarrow> (string \<rightharpoonup> string) \<Rightarrow> nat" where
  "next_version us h = (case h ''ver'' of None \<Rightarrow> seed us | Some x \<Rightarrow> min (Suc (dec_val x)) (2 ^ 53))"

lemma stored_version_le: "versioned h \<Longrightarrow> stored_version h \<le> 2 ^ 53"
  by (auto simp: versioned_def stored_version_def)

lemma next_version_gt: "versioned h \<Longrightarrow> stored_version h < 2 ^ 53 \<Longrightarrow> stored_version h < next_version us h"
  by (auto simp: versioned_def stored_version_def next_version_def seed_def)

lemma next_version_bounds: "versioned h \<Longrightarrow> us div 1000 < 2 ^ 43 \<Longrightarrow> 0 < next_version us h \<and> next_version us h \<le> 2 ^ 53"
  by (auto simp: versioned_def next_version_def seed_def)

lemma versioned_ver: "0 < v \<Longrightarrow> v \<le> 2 ^ 53 \<Longrightarrow> h ''ver'' = Some (dec v) \<Longrightarrow> versioned h"
  by (auto simp: versioned_def)

text \<open>The hashes the scripts write.\<close>

abbreviation value_hash :: "nat \<Rightarrow> string \<Rightarrow> string \<Rightarrow> string \<Rightarrow> string \<Rightarrow> string \<rightharpoonup> string" where
  "value_hash v val sa fu su \<equiv> map_of [(''ver'', dec v), (''val'', val), (''sa'', sa), (''fu'', fu), (''su'', su)]"

abbreviation tomb_hash :: "nat \<Rightarrow> string \<rightharpoonup> string" where
  "tomb_hash v \<equiv> map_of [(''ver'', dec v), (''del'', ''1'')]"

lemma dbl_of_nat: "n \<le> 2 ^ 53 \<Longrightarrow> dbl (of_nat n) = of_nat n"
  using dbl_of_int [of "int n"] by simp

text \<open>Doubles keep apart a small number and any other natural number.\<close>

lemma dbl_of_nat_eq:
  assumes "v < 2 ^ 53"
  shows "dbl (of_nat n) = of_nat v \<longleftrightarrow> n = v"
proof (cases "n \<le> 2 ^ 53")
  case True
  then show ?thesis by (simp add: dbl_of_nat)
next
  case False
  then have "of_nat (2 ^ 53) \<le> (of_nat n :: rat)" by (simp only: of_nat_le_iff)
  then have "of_nat (2 ^ 53) \<le> dbl (of_nat n)" using dbl_mono dbl_of_nat [of "2 ^ 53"] by fastforce
  then show ?thesis using assms False by (metis nat_less_le not_le of_nat_less_iff order_refl)
qed

lemma dbl_of_nat_less:
  assumes "v \<le> 2 ^ 53"
  shows "dbl (of_nat n) < of_nat v \<longleftrightarrow> n < v"
proof (cases "n \<le> 2 ^ 53")
  case True
  then show ?thesis by (simp add: dbl_of_nat)
next
  case False
  then have "of_nat v \<le> (of_nat n :: rat)" using assms by (simp only: of_nat_le_iff)
  then have "of_nat v \<le> dbl (of_nat n)" using dbl_mono dbl_of_nat [OF assms] by fastforce
  then show ?thesis using assms False by linarith
qed

text \<open>The seed is computed exactly: no rounding happens while the clock is below \<open>2 ^ 43\<close> milliseconds.\<close>

lemma floor_dbl_thousandth:
  assumes "b < 1000000"
  shows "\<lfloor>dbl (of_nat b / 1000)\<rfloor> = int (b div 1000)"
proof -
  let ?x = "of_nat b / 1000 :: rat" and ?q = "b div 1000"
  have "?q * 1000 \<le> b" by (rule div_times_less_eq_dividend)
  then have "of_nat (?q * 1000) \<le> (of_nat b :: rat)" by (simp only: of_nat_le_iff)
  then have q: "of_nat ?q \<le> ?x" by (simp add: le_divide_eq)
  have "b \<le> ?q * 1000 + 999" using div_mult_mod_eq [of b 1000] mod_less_divisor [of 1000 b] by linarith
  then have "(of_nat b :: rat) \<le> of_nat (?q * 1000 + 999)" by (simp only: of_nat_le_iff)
  then have x: "?x \<le> of_nat ?q + 999 / 1000" by (simp add: divide_le_eq)
  have "dbl (of_int (int ?q)) = of_int (int ?q)" using assms by (intro dbl_of_int) simp
  then have lo: "of_nat ?q \<le> dbl ?x" using dbl_mono [OF q] by simp
  have "\<bar>?x\<bar> / 2 ^ 53 \<le> 1000 / 2 ^ 53" using assms by (intro divide_right_mono) (simp_all add: divide_le_eq)
  then have "\<bar>dbl ?x - ?x\<bar> \<le> 1000 / 2 ^ 53" using dbl_error [of ?x] by linarith
  moreover have "(1000 / 2 ^ 53 :: rat) < 1 / 1000" by simp
  ultimately have "dbl ?x < of_nat ?q + 1" using x by linarith
  then show ?thesis using lo by (intro floor_unique) simp_all
qed

lemma seed_exact:
  assumes "us div 1000 < 2 ^ 43"
  shows "dbl (dbl (dbl (dbl (of_nat (us div 1000000) * 1000) + of_int \<lfloor>dbl (of_nat (us mod 1000000) / 1000)\<rfloor>) * 1024) + 1)
    = of_nat (us div 1000 * 1024 + 1)"
proof -
  let ?s = "us div 1000000" and ?m = "us mod 1000000"
  have ms: "us div 1000 = ?s * 1000 + ?m div 1000"
  proof -
    have "us = ?m + (?s * 1000) * 1000" using div_mult_mod_eq [of us 1000000] by linarith
    then have "us div 1000 = (?m + (?s * 1000) * 1000) div 1000" by (rule arg_cong)
    then show ?thesis by (simp only: div_mult_self1)
  qed
  have d: "dbl (of_nat n) = of_nat n" if "n \<le> 2 ^ 53" for n using that dbl_of_int [of "int n"] by simp
  have "?s * 1000 \<le> 2 ^ 53" using ms assms by simp
  then have a: "dbl (of_nat ?s * 1000) = of_nat (?s * 1000)" using d [of "?s * 1000"] by simp
  have f: "\<lfloor>dbl (of_nat ?m / 1000)\<rfloor> = int (?m div 1000)" by (rule floor_dbl_thousandth) simp
  have b: "dbl (of_nat (?s * 1000) + of_int (int (?m div 1000))) = of_nat (us div 1000)"
    using d [of "us div 1000"] assms by (simp add: ms)
  have c: "dbl (of_nat (us div 1000) * 1024) = of_nat (us div 1000 * 1024)"
    using d [of "us div 1000 * 1024"] assms by simp
  show ?thesis using d [of "us div 1000 * 1024 + 1"] assms unfolding a f b c by (simp add: add.commute)
qed

text \<open>Above \<open>2 ^ 53\<close> adding one has no effect.\<close>

lemma dbl_stall: "dbl (2 ^ 53 + 1) = 2 ^ 53"
proof -
  have "dexp (2 ^ 53 + 1) = 53" by (rule dexp_unique) simp_all
  moreover have "\<lfloor>9007199254740993 / 2 :: rat\<rfloor> = 4503599627370496" by (rule floor_unique) simp_all
  then have "rne ((2 ^ 53 + 1) / 2) = 2 ^ 52" by (simp add: rne_def Let_def)
  ultimately show ?thesis by (simp add: dbl_eq)
qed

context redis_server
begin

lemma tonumber_dec: "lua_tonumber R (dec n) = Some (dbl (of_nat n))"
proof -
  have "list_all is_digit (dec n)" by (auto simp: list_all_iff intro: dec_digits)
  then show ?thesis by (simp add: lua_tonumber_def)
qed

lemma format_dec: "n \<le> 2 ^ 53 \<Longrightarrow> lua_format_d (of_nat n) = dec n"
  by (simp add: lua_format_d_def FormatInt_def i64_id)

lemma num_arg_dec: "n \<le> 2 ^ 53 \<Longrightarrow> num_arg R (of_nat n) = dec n"
  by (rule NUM) simp

lemma cur_or_0:
  assumes "as_hash (obj r k) = Some h" "versioned h"
  shows "lua_or_0 (lua_cur R k r) = of_nat (stored_version h)"
  using assms(2) by (auto simp: lua_cur_def HGET [OF assms(1)] versioned_def tonumber_dec dbl_of_nat lua_or_0_def stored_version_def)

lemma mint_next:
  assumes "as_hash (obj r k) = Some h" "versioned h"
  shows "mint R (lua_cur R k r) r = Some (of_nat (next_version (micros r) h))"
proof (cases "h ''ver''")
  case None
  have "micros r div 1000000 \<le> micros r div 1000" by (intro div_le_mono2) simp_all
  then have a: "micros r div 1000000 \<le> 2 ^ 53" using CLOCK [of r] by simp
  have b: "micros r mod 1000000 \<le> 2 ^ 53" using mod_less_divisor [of 1000000 "micros r"] by simp
  have "lua_cur R k r = None" using None by (simp add: lua_cur_def HGET [OF assms(1)])
  then show ?thesis using None seed_exact [OF CLOCK [of r]]
    by (simp add: mint_def TIME tonumber_dec dbl_of_nat [OF a] dbl_of_nat [OF b] Let_def seed_def next_version_def)
next
  case (Some x)
  then obtain v where v: "v \<le> 2 ^ 53" "x = dec v" using assms(2) by (auto simp: versioned_def)
  have "dbl (of_nat v + 1) = of_nat (min (Suc v) (2 ^ 53))"
  proof (cases "v = 2 ^ 53")
    case True
    then show ?thesis using dbl_stall by simp
  next
    case False
    then show ?thesis using v dbl_of_nat [of "Suc v"] by (simp add: add.commute)
  qed
  then show ?thesis using Some v by (simp add: lua_cur_def HGET [OF assms(1)] tonumber_dec dbl_of_nat mint_def next_version_def)
qed

lemma rewrite_hash:
  assumes "distinct (map fst fvs)" "fvs \<noteq> []"
  shows "obj (cmd_HSET R k fvs (cmd_DEL R k r)) = (obj r)(k := Hash (map_of fvs))"
  using HSET [of "cmd_DEL R k r" k Map.empty fvs] assms by (simp add: DEL)

lemma maybe_expire:
  assumes "t \<le> 2 ^ 53"
  shows "obj (if 0 < (of_nat t :: rat) then cmd_PEXPIRE R k (num_arg R (of_nat t)) r else r) = obj r"
  using PEXPIRE [of k t r] num_arg_dec [OF assms] by simp

text \<open>Every run of the scripts on an entry key, by the outcome of the guard.\<close>

lemma setCAS_run:
  assumes "as_hash (obj r k) = Some h" "versioned h" "t \<le> 2 ^ 53"
  defines "nv \<equiv> next_version (micros r) h"
  obtains r' where "obj r' = (obj r)(k := Hash (value_hash nv val sa fu su))"
    "setCAS_script R k force expect val sa fu su (dec t) r =
       (if force \<noteq> ''1'' \<and> lua_tonumber R expect \<noteq> Some (of_nat (stored_version h))
        then (Inr [Bulk (dec (stored_version h)), Bulk ''0''], r) else (Inr [Bulk (dec nv), Bulk ''1''], r'))"
proof -
  have nv: "nv \<le> 2 ^ 53" unfolding nv_def using next_version_bounds [OF assms(2) CLOCK] by simp
  let ?fvs = "[(''ver'', dec nv), (''val'', val), (''sa'', sa), (''fu'', fu), (''su'', su)]"
  let ?r1 = "cmd_HSET R k ?fvs (cmd_DEL R k r)"
  let ?r2 = "if 0 < (of_nat t :: rat) then cmd_PEXPIRE R k (num_arg R (of_nat t)) ?r1 else ?r1"
  show thesis
  proof (rule that)
    show "obj ?r2 = (obj r)(k := Hash (map_of ?fvs))" using rewrite_hash [of ?fvs k r] by (simp only: maybe_expire [OF assms(3)]) simp
  qed (use mint_next [OF assms(1,2)] in
      \<open>simp add: setCAS_script_def Let_def tonumber_dec dbl_of_nat [OF assms(3)] format_dec [OF nv] num_arg_dec [OF nv]
        cur_or_0 [OF assms(1,2)] format_dec [OF stored_version_le [OF assms(2)]] flip: nv_def\<close>)
qed

lemma compareAndDelete_run:
  assumes "as_hash (obj r k) = Some h" "versioned h" "t \<le> 2 ^ 53"
  defines "nv \<equiv> next_version (micros r) h"
  obtains r' where "obj r' = (obj r)(k := Hash (tomb_hash nv))"
    "compareAndDelete_script R k force (dec x) (dec t) r =
       (if force \<noteq> ''1'' \<and> x < stored_version h
        then (Inr [Bulk (dec (stored_version h)), Bulk ''0''], r) else (Inr [Bulk (dec nv), Bulk ''1''], r'))"
proof -
  have nv: "nv \<le> 2 ^ 53" unfolding nv_def using next_version_bounds [OF assms(2) CLOCK] by simp
  have guard: "dbl (of_nat x) < of_nat (stored_version h) \<longleftrightarrow> x < stored_version h"
    by (rule dbl_of_nat_less [OF stored_version_le [OF assms(2)]])
  let ?fvs = "[(''ver'', dec nv), (''del'', ''1'')]"
  let ?r1 = "cmd_HSET R k ?fvs (cmd_DEL R k r)"
  let ?r2 = "if 0 < (of_nat t :: rat) then cmd_PEXPIRE R k (num_arg R (of_nat t)) ?r1 else ?r1"
  show thesis
  proof (rule that)
    show "obj ?r2 = (obj r)(k := Hash (map_of ?fvs))" using rewrite_hash [of ?fvs k r] by (simp only: maybe_expire [OF assms(3)]) simp
  qed (use mint_next [OF assms(1,2)] in
      \<open>simp add: compareAndDelete_script_def Let_def tonumber_dec dbl_of_nat [OF assms(3)] format_dec [OF nv]
        num_arg_dec [OF nv] cur_or_0 [OF assms(1,2)] guard format_dec [OF stored_version_le [OF assms(2)]] flip: nv_def\<close>)
qed

lemma setCAS_guard:
  "stored_version h < 2 ^ 53 \<Longrightarrow> lua_tonumber R (dec x) = Some (of_nat (stored_version h)) \<longleftrightarrow> x = stored_version h"
  by (simp add: tonumber_dec dbl_of_nat_eq)

end

section \<open>The versions of a key over its life\<close>

text \<open>
  The life of one key on the server: the scripts run on it with any arguments, time passes and other
  keys change, and the hash expires. An entry lives at least a second and a tombstone with a TTL at
  least a millisecond, so a hash is never gone in the millisecond it was written in. The pace is the
  one the source relies on: the versions minted since the seed have not outrun 1024 per millisecond.
  The last argument lists the versions handed out, the latest first; the number before it is the
  millisecond of the last one.
\<close>

definition paced :: "nat \<Rightarrow> robj \<Rightarrow> bool" where
  "paced us x \<longleftrightarrow> (case x of Hash h \<Rightarrow> stored_version h < 1024 * (us div 1000 + 1) | _ \<Rightarrow> True)"

inductive key_life ::
  "'r redis \<Rightarrow> ('r \<Rightarrow> string \<Rightarrow> robj) \<Rightarrow> ('r \<Rightarrow> nat) \<Rightarrow> string \<Rightarrow> 'r \<Rightarrow> nat \<Rightarrow> nat list \<Rightarrow> bool"
  for R obj micros k where
  life_start: "obj r k = Missing \<Longrightarrow> key_life R obj micros k r 0 []"
| life_set: "key_life R obj micros k r ms vs \<Longrightarrow> paced (micros r) (obj r k) \<Longrightarrow> t \<le> 2 ^ 53 \<Longrightarrow>
    setCAS_script R k force expect val sa fu su (dec t) r = (Inr [Bulk x, Bulk ''1''], r') \<Longrightarrow>
    key_life R obj micros k r' (micros r div 1000) (dec_val x # vs)"
| life_tomb: "key_life R obj micros k r ms vs \<Longrightarrow> paced (micros r) (obj r k) \<Longrightarrow> t \<le> 2 ^ 53 \<Longrightarrow>
    compareAndDelete_script R k force (dec n) (dec t) r = (Inr [Bulk x, Bulk ''1''], r') \<Longrightarrow>
    key_life R obj micros k r' (micros r div 1000) (dec_val x # vs)"
| life_elsewhere: "key_life R obj micros k r ms vs \<Longrightarrow> obj r' k = obj r k \<Longrightarrow> micros r \<le> micros r' \<Longrightarrow>
    key_life R obj micros k r' ms vs"
| life_expire: "key_life R obj micros k r ms vs \<Longrightarrow> obj r' k = Missing \<Longrightarrow> ms < micros r' div 1000 \<Longrightarrow>
    key_life R obj micros k r' ms vs"

text \<open>
  What holds all along: the stored version is the last one handed out, it has not outrun the clock of
  its minting, and once the hash is gone the clock is past that millisecond.
\<close>

definition life_inv :: "('r \<Rightarrow> string \<Rightarrow> robj) \<Rightarrow> ('r \<Rightarrow> nat) \<Rightarrow> string \<Rightarrow> 'r \<Rightarrow> nat \<Rightarrow> nat list \<Rightarrow> bool" where
  "life_inv obj micros k r ms vs \<longleftrightarrow> sorted_wrt (>) vs \<and> (\<forall>v \<in> set vs. v \<le> 1024 * (ms + 1)) \<and>
     (case obj r k of
        Missing \<Rightarrow> vs = [] \<or> ms < micros r div 1000
      | Hash h \<Rightarrow> versioned h \<and> vs \<noteq> [] \<and> stored_version h = hd vs \<and> h ''ver'' \<noteq> None
      | SetOf _ \<Rightarrow> False)"

lemma life_inv_entry: "life_inv obj micros k r ms vs \<Longrightarrow> \<exists>h. as_hash (obj r k) = Some h \<and> versioned h"
  by (auto simp: life_inv_def versioned_def split: robj.splits)

text \<open>The version minted next is above every version handed out.\<close>

lemma life_inv_mint:
  assumes inv: "life_inv obj micros k r ms vs" and pace: "paced (micros r) (obj r k)"
    and h: "as_hash (obj r k) = Some h" and clk: "micros r div 1000 < 2 ^ 43"
  defines "nv \<equiv> next_version (micros r) h"
  shows "(\<forall>v \<in> set vs. v < nv) \<and> nv \<le> 1024 * (micros r div 1000 + 1)"
proof (cases "obj r k")
  case Missing
  then have "nv = seed (micros r)" using h by (auto simp: nv_def next_version_def)
  moreover have "v \<le> 1024 * (micros r div 1000)" if "v \<in> set vs" for v
  proof -
    have "ms < micros r div 1000" using inv Missing that by (auto simp: life_inv_def)
    then have "1024 * (ms + 1) \<le> 1024 * (micros r div 1000)" by simp
    then show ?thesis using inv that by (fastforce simp: life_inv_def)
  qed
  ultimately show ?thesis by (fastforce simp: seed_def)
next
  case (Hash h')
  then have h': "h' = h" using h by simp
  then have i: "versioned h" "vs \<noteq> []" "stored_version h = hd vs" "h ''ver'' \<noteq> None" "sorted_wrt (>) vs"
    using inv Hash by (simp_all add: life_inv_def)
  have p: "stored_version h < 1024 * (micros r div 1000 + 1)" using pace Hash h' by (simp add: paced_def)
  then have nv: "nv = Suc (stored_version h)"
    using i(4) clk by (auto simp: nv_def next_version_def stored_version_def)
  have "v \<le> hd vs" if "v \<in> set vs" for v using i(2,5) that by (cases vs) auto
  then show ?thesis using nv p i(3) by (auto simp: less_Suc_eq_le)
qed (use inv in \<open>simp add: life_inv_def\<close>)

lemma life_inv_write:
  assumes "life_inv obj micros k r ms vs" "paced (micros r) (obj r k)" "as_hash (obj r k) = Some h" "versioned h"
    "micros r div 1000 < 2 ^ 43" "obj r' k = Hash g" "g ''ver'' = Some (dec (next_version (micros r) h))"
  shows "life_inv obj micros k r' (micros r div 1000) (next_version (micros r) h # vs)"
proof -
  have "versioned g" using next_version_bounds [OF assms(4,5)] assms(7) by (intro versioned_ver) simp_all
  then show ?thesis using life_inv_mint [OF assms(1,2,3,5)] assms(1,6,7) by (auto simp: life_inv_def stored_version_def)
qed

context redis_server
begin

lemma life_inv_life: "key_life R obj micros k r ms vs \<Longrightarrow> life_inv obj micros k r ms vs"
proof (induction rule: key_life.induct)
  case (life_set r ms vs t force expect val sa fu su x r')
  obtain h where h: "as_hash (obj r k) = Some h" "versioned h" using life_inv_entry [OF life_set.IH] by blast
  obtain r1 where r1: "obj r1 = (obj r)(k := Hash (value_hash (next_version (micros r) h) val sa fu su))"
    "setCAS_script R k force expect val sa fu su (dec t) r =
       (if force \<noteq> ''1'' \<and> lua_tonumber R expect \<noteq> Some (of_nat (stored_version h))
        then (Inr [Bulk (dec (stored_version h)), Bulk ''0''], r) else (Inr [Bulk (dec (next_version (micros r) h)), Bulk ''1''], r1))"
    by (rule setCAS_run [OF h life_set.hyps(3)])
  then have "x = dec (next_version (micros r) h)" "r' = r1" using life_set.hyps(4) by (simp_all split: if_splits)
  then show ?case using life_inv_write [OF life_set.IH life_set.hyps(2) h CLOCK, of r'] r1(1) by simp
next
  case (life_tomb r ms vs t force n x r')
  obtain h where h: "as_hash (obj r k) = Some h" "versioned h" using life_inv_entry [OF life_tomb.IH] by blast
  obtain r1 where r1: "obj r1 = (obj r)(k := Hash (tomb_hash (next_version (micros r) h)))"
    "compareAndDelete_script R k force (dec n) (dec t) r =
       (if force \<noteq> ''1'' \<and> n < stored_version h
        then (Inr [Bulk (dec (stored_version h)), Bulk ''0''], r) else (Inr [Bulk (dec (next_version (micros r) h)), Bulk ''1''], r1))"
    by (rule compareAndDelete_run [OF h life_tomb.hyps(3)])
  then have "x = dec (next_version (micros r) h)" "r' = r1" using life_tomb.hyps(4) by (simp_all split: if_splits)
  then show ?case using life_inv_write [OF life_tomb.IH life_tomb.hyps(2) h CLOCK, of r'] r1(1) by simp
next
  case (life_elsewhere r ms vs r')
  have "micros r div 1000 \<le> micros r' div 1000" using life_elsewhere.hyps(3) by (rule div_le_mono)
  then show ?case using life_elsewhere.IH life_elsewhere.hyps(2) by (auto simp: life_inv_def split: robj.splits)
qed (auto simp: life_inv_def)

end

end
