(* ===== verification/Redis_Reference.thy ===== *)
theory Redis_Reference
  imports Redis_Versions
begin

text \<open>
  A reference server: an executable implementation of the Redis commands the store issues, on which
  \<open>redis_server\<close> is interpreted, so that the documented behaviour the proofs rest on is known to be
  consistent and every theorem about the store can be evaluated on it.

  A set is scanned in two pages, the members of even length under cursor 0 and those of odd length
  under cursor 1. Its clock is a register of 52 bits, in microseconds.
\<close>

datatype refobj = RMissing | RHash "(string \<times> string) list" | RSet "string list"

record ref_server =
  ref_at :: "string \<Rightarrow> refobj"
  ref_us :: "52 word"

fun ref_fields :: "refobj \<Rightarrow> (string \<times> string) list" where
  "ref_fields (RHash h) = h"
| "ref_fields _ = []"

fun ref_members :: "refobj \<Rightarrow> string list" where
  "ref_members (RSet xs) = xs"
| "ref_members _ = []"

definition ref_put :: "string \<Rightarrow> refobj \<Rightarrow> ref_server \<Rightarrow> ref_server" where
  "ref_put k x r = r\<lparr>ref_at := (ref_at r)(k := x)\<rparr>"

definition ref_HSET :: "string \<Rightarrow> (string \<times> string) list \<Rightarrow> ref_server \<Rightarrow> ref_server" where
  "ref_HSET k fvs r = (case ref_at r k of RSet _ \<Rightarrow> r | x \<Rightarrow> ref_put k (RHash (fvs @ ref_fields x)) r)"

definition ref_SADD :: "string \<Rightarrow> string \<Rightarrow> ref_server \<Rightarrow> ref_server" where
  "ref_SADD k m r = (case ref_at r k of RHash _ \<Rightarrow> r | x \<Rightarrow> ref_put k (RSet (List.insert m (ref_members x))) r)"

definition ref_SREM :: "string \<Rightarrow> string list \<Rightarrow> ref_server \<Rightarrow> ref_server" where
  "ref_SREM k ms r = (case ref_at r k of
       RSet xs \<Rightarrow> (let ys = filter (\<lambda>x. x \<notin> set ms) xs in ref_put k (if ys = [] then RMissing else RSet ys) r)
     | _ \<Rightarrow> r)"

definition ref_SSCAN :: "string \<Rightarrow> u64 \<Rightarrow> int \<Rightarrow> ref_server \<Rightarrow> u64 \<times> string list" where
  "ref_SSCAN k cursor n r = (if cursor = 0 then 1 else 0,
     filter (\<lambda>m. even (length m) = (cursor = 0)) (ref_members (ref_at r k)))"

definition ref_redis :: "ref_server redis" where
  "ref_redis = \<lparr>cmd_HGET = (\<lambda>k f r. map_of (ref_fields (ref_at r k)) f),
     cmd_HMGET = (\<lambda>k fs r. map (map_of (ref_fields (ref_at r k))) fs),
     cmd_DEL = (\<lambda>k. ref_put k RMissing),
     cmd_HSET = ref_HSET,
     cmd_PEXPIRE = (\<lambda>k n. if 0 < dec_val n then id else ref_put k RMissing),
     cmd_TIME = (\<lambda>r. (dec (unat (ref_us r) div 1000000), dec (unat (ref_us r) mod 1000000))),
     cmd_SADD = ref_SADD, cmd_SREM = ref_SREM, cmd_SSCAN = ref_SSCAN,
     num_arg = (\<lambda>q. dec (nat \<lfloor>q\<rfloor>)), tonumber_other = (\<lambda>_. None)\<rparr>"

text \<open>A set of no members is no key; the server never stores one.\<close>

definition ref_obj :: "ref_server \<Rightarrow> string \<Rightarrow> robj" where
  "ref_obj r k = (case ref_at r k of RMissing \<Rightarrow> Missing | RHash h \<Rightarrow> Hash (map_of h) | RSet xs \<Rightarrow> SetOf (set xs))"

definition ref_micros :: "ref_server \<Rightarrow> nat" where
  "ref_micros r = unat (ref_us r)"

lemma ref_obj_put: "ref_obj (ref_put k x r) = (ref_obj r)(k := (case x of RMissing \<Rightarrow> Missing | RHash h \<Rightarrow> Hash (map_of h) | RSet xs \<Rightarrow> SetOf (set xs)))"
  by (auto simp: ref_obj_def ref_put_def)

lemma ref_as_hash: "as_hash (ref_obj r k) = Some h \<Longrightarrow> map_of (ref_fields (ref_at r k)) = h"
  by (auto simp: ref_obj_def split: refobj.splits)

interpretation reference: redis_server ref_redis ref_obj ref_micros
proof unfold_locales
  fix r k h f fs
  assume "as_hash (ref_obj r k) = Some h"
  then show "cmd_HGET ref_redis k f r = h f" "cmd_HMGET ref_redis k fs r = map h fs"
    using ref_as_hash by (simp_all add: ref_redis_def)
next
  fix r k h and fvs :: "(string \<times> string) list"
  assume "as_hash (ref_obj r k) = Some h"
  then show "ref_obj (cmd_HSET ref_redis k fvs r) = (ref_obj r)(k := Hash (h ++ map_of fvs))"
    by (auto simp: ref_redis_def ref_HSET_def ref_obj_put ref_obj_def split: refobj.splits)
next
  fix r k S m ms
  assume S: "as_set (ref_obj r k) = Some S"
  then show "ref_obj (cmd_SADD ref_redis k m r) = (ref_obj r)(k := SetOf (insert m S))"
    by (auto simp: ref_redis_def ref_SADD_def ref_obj_put ref_obj_def split: refobj.splits)
  show "ref_obj (cmd_SREM ref_redis k ms r) = (ref_obj r)(k := of_set (S - set ms))"
    using S by (auto simp: ref_redis_def ref_SREM_def ref_obj_put ref_obj_def of_set_def Let_def filter_empty_conv
        fun_upd_idem set_diff_eq split: refobj.splits)
next
  fix r
  have "ref_micros r < 2 ^ 52" using unsigned_less [of "ref_us r", where 'a = nat] by (simp add: ref_micros_def)
  then show "ref_micros r div 1000 < 2 ^ 43" by simp
qed (auto simp: ref_redis_def ref_obj_put ref_micros_def)

section \<open>A store over the reference server\<close>

text \<open>A codec as the library behind the JSON codec.\<close>

definition encoding_of :: "'v codec \<Rightarrow> 'v encoding_json" where
  "encoding_of cd = \<lparr>json_Marshal = Encode cd, json_Unmarshal = Decode cd\<rparr>"

lemma JSON_encoding_of [simp]: "JSON (encoding_of cd) = cd"
  by (simp add: JSON_def encoding_of_def)

definition demo_codec :: "int codec" where
  "demo_codec = \<lparr>Encode = (\<lambda>v. Inr (FormatInt v)),
     Decode = (\<lambda>x. case ParseInt x of (n, None) \<Rightarrow> Inr n | (_, Some err) \<Rightarrow> Inl err)\<rparr>"

definition demo_redis :: "(ref_server, int) rstore" where
  "demo_redis = redis_New (encoding_of demo_codec) ref_redis (\<lambda>_. Reached) (\<lambda>_. id) None []"

text \<open>At version 5, key \<open>a\<close> is a tombstone and key \<open>b\<close> holds 7; both carry the tag \<open>t\<close>, like \<open>cc\<close>, which expired.\<close>

definition demo_server :: ref_server where
  "demo_server = \<lparr>ref_at = (\<lambda>_. RMissing)
     (''rc:k:a'' := RHash [(''ver'', ''5''), (''del'', ''1'')],
      ''rc:k:b'' := RHash [(''ver'', ''5''), (''val'', ''7''), (''sa'', ''0''), (''fu'', ''10''), (''su'', ''20'')],
      ''rc:t:t'' := RSet [''a'', ''b'', ''cc'']), ref_us = 3000000\<rparr>"

definition demo_l2 :: "ref_server l2state" where
  "demo_l2 = \<lparr>server = demo_server, sent = 0, wall = 1000\<rparr>"

lemmas demo_redis_defs = demo_redis_def redis_New_def demo_codec_def demo_l2_def store_k_def store_t_def

lemma demo_redis_simps [simp]:
  "client demo_redis = ref_redis" "net demo_redis n = Reached" "world demo_redis n = id"
  "codec demo_redis = demo_codec" "store_k demo_redis key = ''rc:k:'' @ key" "store_t demo_redis tag = ''rc:t:'' @ tag"
  "tombstoneTTL demo_redis = 60 * Second" "tagTTL demo_redis = 24 * Hour"
  "server demo_l2 = demo_server" "sent demo_l2 = 0" "wall demo_l2 = 1000"
  by (simp_all add: demo_redis_defs)

lemma dec_5: "dec 5 = ''5''"
  by code_simp

definition demo_b_hash :: "string \<rightharpoonup> string" where
  "demo_b_hash = map_of [(''ver'', dec 5), (''val'', ''7''), (''sa'', ''0''), (''fu'', ''10''), (''su'', ''20'')]"

lemma demo_obj:
  "ref_obj demo_server ''rc:k:a'' = Hash (tomb_hash 5)"
  "ref_obj demo_server ''rc:k:b'' = Hash demo_b_hash"
  "ref_obj demo_server ''rc:k:cc'' = Missing"
  "ref_obj demo_server ''rc:t:t'' = SetOf {''a'', ''b'', ''cc''}"
  by (simp_all add: ref_obj_def demo_server_def demo_b_hash_def dec_5)

lemma demo_server_ok: "redis_server (client demo_redis) ref_obj ref_micros"
  using reference.redis_server_axioms by simp

lemma demo_reached: "net demo_redis (sent demo_l2) = Reached"
  by simp

lemma demo_world: "demo_server = world demo_redis (sent demo_l2) (server demo_l2)"
  by simp

lemma demo_b:
  "as_hash (ref_obj demo_server (store_k demo_redis ''b'')) = Some demo_b_hash" "versioned demo_b_hash"
  "stored_version demo_b_hash < 2 ^ 53"
  by (auto simp: demo_obj demo_b_hash_def versioned_def stored_version_def dec_inj)

lemma demo_b_versions: "stored_version demo_b_hash = 5" "next_version us demo_b_hash = 6"
  by (simp_all add: demo_b_hash_def stored_version_def next_version_def)

lemma demo_encode: "Encode (codec demo_redis) 8 = Inr ''8''"
proof -
  have "FormatInt 8 = ''8''" by code_simp
  then show ?thesis by (simp add: demo_codec_def)
qed

lemma demo_decode: "Decode (codec demo_redis) ''8'' = Inr 8"
proof -
  have "ParseInt ''8'' = (8, None)" by code_simp
  then show ?thesis by (simp add: demo_codec_def)
qed

lemma demo_parse:
  "ParseUint (dec 5) = (5, None)" "ParseInt ''7'' = (7, None)" "ParseInt ''0'' = (0, None)"
  "ParseInt ''10'' = (10, None)" "ParseInt ''20'' = (20, None)"
  by code_simp+

end
