(* ===== verification/Redis_Ops.thy ===== *)
theory Redis_Ops
  imports Redis_Reference
begin

text \<open>
  The Go methods of redisstore/redis.go on a server that behaves as documented: compare-and-swap,
  tombstones, the round trip of an entry, the guard of a fill, and what a lost command leaves behind.
\<close>

section \<open>Commands and replies\<close>

lemma run_send_reached:
  "net c (sent s) = Reached \<Longrightarrow> run_state (send c f) s =
     (let r = world c (sent s) (server s)
      in (fst (f r), s\<lparr>sent := Suc (sent s), server := snd (f r)\<rparr>))"
  by (simp add: send_def Let_def split_beta)

lemma parseVerFlag_dec: "v \<le> 2 ^ 53 \<Longrightarrow> parseVerFlag [Bulk (dec v), Bulk x] = (of_nat v, x = ''1'', None)"
  by (simp add: parseVerFlag_def ParseUint_dec)

lemma version_roundtrip: "v \<le> 2 ^ 53 \<Longrightarrow> unat (of_nat v :: u64) = v"
  by (simp add: unat_of_nat take_bit_nat_eq_self)

lemma not_Force: "v \<le> 2 ^ 53 \<Longrightarrow> (of_nat v :: u64) \<noteq> ForceVersion"
  using version_roundtrip [of v] ForceVersion_unat by auto

text \<open>Every TTL the store sends is a natural number that a double represents.\<close>

lemma Milliseconds_dec:
  assumes "0 \<le> d" "d < 2 ^ 63"
  obtains t where "FormatInt (Milliseconds d) = dec t" "t \<le> 2 ^ 53"
proof
  have "Milliseconds d = d div 1000000" using assms(1) by (simp add: Milliseconds_def Millisecond_def go_div_nonneg)
  then show "FormatInt (Milliseconds d) = dec (nat (d div 1000000))" using assms(1) by (simp add: FormatInt_def pos_imp_zdiv_neg_iff)
  have "d div 1000000 \<le> 2 ^ 63 div 1000000" using assms(2) by (intro zdiv_mono1) simp_all
  then show "nat (d div 1000000) \<le> 2 ^ 53" by simp
qed

lemma redisTTL_dec:
  obtains t where "FormatInt (redisTTL su now) = dec t" "t \<le> 2 ^ 53"
proof (cases "0 \<le> time_Sub su now")
  case True
  obtain t where t: "FormatInt (Milliseconds (time_Sub su now)) = dec t" "t \<le> 2 ^ 53"
    by (rule Milliseconds_dec [OF True]) (simp add: time_Sub_def)
  show thesis
  proof (cases "Milliseconds (time_Sub su now) < 1000")
    case True
    then show ?thesis using that [of 1000] by (simp add: redisTTL_def FormatInt_def)
  next
    case False
    then show ?thesis using that [of t] t by (simp add: redisTTL_def)
  qed
next
  case False
  then have "Milliseconds (time_Sub su now) < 1000"
    by (simp add: Milliseconds_def go_div_def Millisecond_def)
  then show thesis using that [of 1000] by (simp add: redisTTL_def FormatInt_def)
qed

section \<open>Writes\<close>

lemma SetCAS_sent:
  "Encode (codec c) val = Inr b \<Longrightarrow> sent (snd (run_state (redis_SetCAS c key val x fu su []) s)) = Suc (sent s)"
  by (auto simp: redis_SetCAS_def send_def Let_def split_beta split: fault.splits sum.splits prod.splits option.splits)

text \<open>The hash of a value written at time \<open>now\<close>.\<close>

abbreviation entry_hash :: "nat \<Rightarrow> string \<Rightarrow> time \<Rightarrow> time \<Rightarrow> time \<Rightarrow> string \<rightharpoonup> string" where
  "entry_hash v b now fu su \<equiv>
     value_hash v b (FormatInt (UnixNano now)) (FormatInt (UnixNano fu)) (FormatInt (UnixNano su))"

context redis_server
begin

text \<open>The script call of \<open>SetCAS\<close>, decoded.\<close>

lemma SetCAS_exec:
  assumes "as_hash (obj r k) = Some h" "versioned h" "stored_version h < 2 ^ 53"
  defines "nv \<equiv> next_version (micros r) h"
  obtains r' where "obj r' = (obj r)(k := Hash (entry_hash nv b now fu su))"
    "setCAS_script R k (boolArg (expect = ForceVersion)) (FormatUint expect) b (FormatInt (UnixNano now))
        (FormatInt (UnixNano fu)) (FormatInt (UnixNano su)) (FormatInt (redisTTL su now)) r =
      (if expect = ForceVersion \<or> unat expect = stored_version h then (Inr [Bulk (dec nv), Bulk ''1''], r')
       else (Inr [Bulk (dec (stored_version h)), Bulk ''0''], r))"
proof -
  obtain t where t: "FormatInt (redisTTL su now) = dec t" "t \<le> 2 ^ 53" by (rule redisTTL_dec)
  show thesis
    by (rule setCAS_run [OF assms(1,2) t(2), where force = "boolArg (expect = ForceVersion)" and expect = "dec (unat expect)"], erule that [unfolded nv_def])
      (auto simp: t(1) boolArg_def FormatUint_def setCAS_guard [OF assms(3)])
qed

lemma CompareAndDelete_exec:
  assumes "as_hash (obj r k) = Some h" "versioned h" "0 \<le> ttl" "ttl < 2 ^ 63"
  defines "nv \<equiv> next_version (micros r) h"
  obtains r' where "obj r' = (obj r)(k := Hash (tomb_hash nv))"
    "compareAndDelete_script R k (boolArg (x = ForceVersion)) (FormatUint x) (FormatInt (Milliseconds ttl)) r =
      (if x = ForceVersion \<or> stored_version h \<le> unat x then (Inr [Bulk (dec nv), Bulk ''1''], r')
       else (Inr [Bulk (dec (stored_version h)), Bulk ''0''], r))"
proof -
  obtain t where t: "FormatInt (Milliseconds ttl) = dec t" "t \<le> 2 ^ 53" by (rule Milliseconds_dec [OF assms(3,4)])
  show thesis
    by (rule compareAndDelete_run [OF assms(1,2) t(2), where force = "boolArg (x = ForceVersion)" and x = "unat x"], erule that [unfolded nv_def])
      (auto simp: t(1) boolArg_def FormatUint_def)
qed

lemma SetCAS_spec:
  assumes c: "R = client c" "net c (sent s) = Reached" "r = world c (sent s) (server s)"
    and enc: "Encode (codec c) val = Inr b"
    and h: "as_hash (obj r (store_k c key)) = Some h" "versioned h" "stored_version h < 2 ^ 53"
    and run: "run_state (redis_SetCAS c key val expect fu su []) s = (res, s')"
  shows "if expect = ForceVersion \<or> unat expect = stored_version h
    then res = Inr \<lparr>Value = val, Version = of_nat (next_version (micros r) h), StoredAt = wall s,
                    FreshUntil = fu, StaleUntil = su, Negative = False\<rparr>
      \<and> obj (server s') = (obj r)(store_k c key := Hash (entry_hash (next_version (micros r) h) b (wall s) fu su))
    else res = Inl ErrVersionConflict \<and> server s' = r"
proof -
  have nv: "next_version (micros r) h \<le> 2 ^ 53" using next_version_bounds [OF h(2) CLOCK] by simp
  show ?thesis
    by (rule SetCAS_exec [OF h, of b "wall s" fu su expect])
      (use run in \<open>auto simp: redis_SetCAS_def enc run_send_reached [OF c(2)] Let_def parseVerFlag_dec [OF nv]
        parseVerFlag_dec [OF stored_version_le [OF h(2)]] simp flip: c(1,3)\<close>)
qed

lemma CompareAndDelete_spec:
  assumes c: "R = client c" "net c (sent s) = Reached" "r = world c (sent s) (server s)"
    and h: "as_hash (obj r (store_k c key)) = Some h" "versioned h"
    and ttl: "0 \<le> tombstoneTTL c" "tombstoneTTL c < 2 ^ 63"
    and run: "run_state (redis_CompareAndDelete c key x) s = (res, s')"
  shows "if x = ForceVersion \<or> stored_version h \<le> unat x
    then res = (of_nat (next_version (micros r) h), True, None)
      \<and> obj (server s') = (obj r)(store_k c key := Hash (tomb_hash (next_version (micros r) h)))
    else res = (of_nat (stored_version h), False, None) \<and> server s' = r"
proof -
  have nv: "next_version (micros r) h \<le> 2 ^ 53" using next_version_bounds [OF h(2) CLOCK] by simp
  show ?thesis
    by (rule CompareAndDelete_exec [OF h ttl, of x])
      (use run in \<open>auto simp: redis_CompareAndDelete_def run_send_reached [OF c(2)] Let_def parseVerFlag_dec [OF nv]
        parseVerFlag_dec [OF stored_version_le [OF h(2)]] simp flip: c(1,3)\<close>)
qed

end

text \<open>
  C8: Compare-and-swap. On an entry key whose version is below \<open>2 ^ 53\<close>, \<open>SetCAS\<close> (without tags, the
  command and its reply arriving) stores the encoded value with its times under a version greater than
  the current one and returns that entry, if the expected version is the current one (0 for a missing
  key) or the sentinel; otherwise it reports \<open>ErrVersionConflict\<close> and changes nothing. No other key
  changes.
\<close>

theorem redis_compare_and_swap:
  assumes server: "redis_server (client c) obj micros"
    and reply: "net c (sent s) = Reached" and enc: "Encode (codec c) val = Inr b"
    and r: "r = world c (sent s) (server s)"
    and h: "as_hash (obj r (store_k c key)) = Some h" "versioned h" "stored_version h < 2 ^ 53"
    and run: "run_state (redis_SetCAS c key val expect fu su []) s = (res, s')"
  shows "if expect = ForceVersion \<or> unat expect = stored_version h
    then stored_version h < next_version (micros r) h
      \<and> res = Inr \<lparr>Value = val, Version = of_nat (next_version (micros r) h), StoredAt = wall s,
                   FreshUntil = fu, StaleUntil = su, Negative = False\<rparr>
      \<and> obj (server s') = (obj r)(store_k c key := Hash (entry_hash (next_version (micros r) h) b (wall s) fu su))
    else res = Inl ErrVersionConflict \<and> server s' = r"
  using redis_server.SetCAS_spec [OF server refl reply r enc h run] next_version_gt [OF h(2,3)] by (simp split: if_splits)

theorem redis_compare_and_swap_witness:
  "fst (run_state (redis_SetCAS demo_redis ''b'' 8 5 100 200 []) demo_l2) =
      Inr \<lparr>Value = 8, Version = 6, StoredAt = 1000, FreshUntil = 100, StaleUntil = 200, Negative = False\<rparr>
   \<and> fst (run_state (redis_SetCAS demo_redis ''b'' 8 4 100 200 []) demo_l2) = Inl ErrVersionConflict
   \<and> server (snd (run_state (redis_SetCAS demo_redis ''b'' 8 4 100 200 []) demo_l2)) = demo_server"
  using redis_compare_and_swap [OF demo_server_ok demo_reached demo_encode demo_world demo_b prod.collapse [symmetric], of 5 100 200]
    redis_compare_and_swap [OF demo_server_ok demo_reached demo_encode demo_world demo_b prod.collapse [symmetric], of 4 100 200]
  by (simp add: demo_b_versions ForceVersion_def)

section \<open>Reads\<close>

text \<open>What \<open>read\<close> makes of the fields of a hash.\<close>

definition nano_field :: "string option \<Rightarrow> time" where
  "nano_field x = parseUnixNano (msg_of x)"

definition read_fields :: "('v::zero) codec \<Rightarrow> (string \<rightharpoonup> string) \<Rightarrow> 'v entry \<times> bool \<times> go_error option" where
  "read_fields cd h = (case h ''ver'' of
       None \<Rightarrow> (zero_entry, False, None)
     | Some x \<Rightarrow>
         let e = zero_entry\<lparr>Version := fst (ParseUint x)\<rparr>
         in if h ''del'' = Some ''1'' then (e, False, None)
            else case h ''val'' of
                None \<Rightarrow> (e, False, None)
              | Some b \<Rightarrow>
                  (case Decode cd b of
                     Inl err \<Rightarrow> (e, False, Some err)
                   | Inr v \<Rightarrow> (e\<lparr>Value := v, StoredAt := nano_field (h ''sa''), FreshUntil := nano_field (h ''fu''),
                                StaleUntil := nano_field (h ''su'')\<rparr>, True, None)))"

context redis_server
begin

lemma read_run:
  assumes "R = client c" "net c (sent s) = Reached" "r = world c (sent s) (server s)"
    "as_hash (obj r (store_k c key)) = Some h"
  shows "run_state (redis_read c key) s = (read_fields (codec c) h, s\<lparr>sent := Suc (sent s), server := r\<rparr>)"
proof -
  have "cmd_HMGET (client c) (store_k c key) fs r = map h fs" for fs using HMGET [OF assms(4)] assms(1) by simp
  then show ?thesis using assms(2)
    by (simp add: redis_read_def run_send_reached Let_def read_fields_def nano_field_def msg_of_def
        split: option.splits sum.splits flip: assms(3))
qed

end

definition in_i64 :: "int \<Rightarrow> bool" where
  "in_i64 t \<longleftrightarrow> - (2 ^ 63) \<le> t \<and> t < 2 ^ 63"

lemma nano_roundtrip: "in_i64 t \<Longrightarrow> nano_field (Some (FormatInt (UnixNano t))) = t"
  by (simp add: in_i64_def nano_field_def msg_of_def parseUnixNano_def UnixNano_def i64_id ParseInt_FormatInt)

lemma read_version: "versioned h \<Longrightarrow> Version (fst (read_fields cd h)) = of_nat (stored_version h)"
  by (auto simp: versioned_def read_fields_def stored_version_def Let_def ParseUint_dec split: option.splits sum.splits)

lemma read_entry_hash:
  assumes "Decode cd b = Inr val" "in_i64 now" "in_i64 fu" "in_i64 su" "v \<le> 2 ^ 53"
  shows "read_fields cd (entry_hash v b now fu su) =
    (\<lparr>Value = val, Version = of_nat v, StoredAt = now, FreshUntil = fu, StaleUntil = su, Negative = False\<rparr>, True, None)"
  using assms by (simp add: read_fields_def nano_roundtrip ParseUint_dec zero_entry_def)

lemma read_tomb_hash: "v \<le> 2 ^ 53 \<Longrightarrow> read_fields cd (tomb_hash v) = (zero_entry\<lparr>Version := of_nat v\<rparr>, False, None)"
  by (simp add: read_fields_def ParseUint_dec)

section \<open>The store refines its specification\<close>

text \<open>What the specification sees of a server state.\<close>

definition cell_of :: "('v::zero) codec \<Rightarrow> robj \<Rightarrow> 'v cell" where
  "cell_of cd x = (case as_hash x of
       None \<Rightarrow> Absent
     | Some h \<Rightarrow>
         if h ''ver'' = None then Absent
         else case read_fields cd h of (e, live, _) \<Rightarrow> if live then Live e else Tomb (Version e))"

definition spec_of :: "('r, 'v::zero) rstore \<Rightarrow> ('r \<Rightarrow> string \<Rightarrow> robj) \<Rightarrow> ('r \<Rightarrow> nat) \<Rightarrow> time \<Rightarrow> 'r \<Rightarrow> 'v vstore" where
  "spec_of c obj micros now r = \<lparr>cells = (\<lambda>key. cell_of (codec c) (obj r (store_k c key))), tagged = (\<lambda>_. []),
     vclock = now, vseed = of_nat (seed (micros r))\<rparr>"

definition decodable :: "('v::zero) codec \<Rightarrow> (string \<rightharpoonup> string) \<Rightarrow> bool" where
  "decodable cd h \<longleftrightarrow> (\<forall>b. h ''val'' = Some b \<longrightarrow> (\<exists>v. Decode cd b = Inr v))"

lemma store_k_inj [simp]: "store_k c k = store_k c j \<longleftrightarrow> k = j"
  by (simp add: store_k_def)

lemma cell_of_version: "as_hash x = Some h \<Longrightarrow> versioned h \<Longrightarrow> cell_version (cell_of cd x) = of_nat (stored_version h)"
  using read_version [of h cd] by (auto simp: cell_of_def stored_version_def split: prod.splits)

lemma cell_of_put: "(\<lambda>key. cell_of cd (((obj r)(store_k c k := x)) (store_k c key))) =
    (\<lambda>key. cell_of cd (obj r (store_k c key)))(k := cell_of cd x)"
  by auto

lemma spec_next:
  assumes "as_hash (obj r (store_k c key)) = Some h" "versioned h" "stored_version h < 2 ^ 53"
  shows "vs_next (spec_of c obj micros now r) key = of_nat (next_version (micros r) h)"
proof (cases "h ''ver''")
  case None
  then show ?thesis using assms(1) by (simp add: vs_next_def spec_of_def cell_of_def next_version_def)
next
  case (Some x)
  then have n: "next_version (micros r) h = Suc (stored_version h)"
    using assms(3) by (simp add: next_version_def stored_version_def)
  have "cell_of (codec c) (obj r (store_k c key)) \<noteq> Absent" using Some assms(1) by (simp add: cell_of_def split: prod.splits)
  then have "vs_next (spec_of c obj micros now r) key = cell_version (cell_of (codec c) (obj r (store_k c key))) + 1"
    by (simp add: vs_next_def spec_of_def split: cell.splits)
  then show ?thesis using n cell_of_version [OF assms(1,2)] by (simp add: add.commute)
qed

lemma spec_load:
  assumes "as_hash (obj r (store_k c key)) = Some h" "decodable (codec c) h"
  shows "fst (vs_Load key (spec_of c obj micros now r)) = read_fields (codec c) h"
  using assms by (auto simp: vs_Load_def spec_of_def cell_of_def read_fields_def decodable_def Let_def
      split: option.splits sum.splits)

text \<open>Equal answers, and states that the abstraction identifies.\<close>

definition simulates :: "('s \<Rightarrow> gokey \<Rightarrow> 'v cell) \<Rightarrow> 'a \<times> 's \<Rightarrow> 'a \<times> 'v vstore \<Rightarrow> bool" where
  "simulates f x y \<longleftrightarrow> fst x = fst y \<and> f (snd x) = cells (snd y)"

lemma of_version:
  assumes "v \<le> 2 ^ 53"
  shows "(x :: u64) = of_nat v \<longleftrightarrow> unat x = v" "x < of_nat v \<longleftrightarrow> unat x < v"
  using version_roundtrip [OF assms] by (auto simp: word_less_nat_alt)

text \<open>The method runs, seen through the specification's eyes.\<close>

context redis_server
begin

lemma SetCAS_refines:
  assumes c: "R = client c" "net c (sent s) = Reached" "r = world c (sent s) (server s)"
    and h: "as_hash (obj r (store_k c key)) = Some h" "versioned h" "stored_version h < 2 ^ 53"
    and cd: "Encode (codec c) val = Inr b" "Decode (codec c) b = Inr val"
    and t: "in_i64 (wall s)" "in_i64 fu" "in_i64 su"
    and run: "run_state (redis_SetCAS c key val expect fu su []) s = (res, s')"
    and spec: "vs_SetCAS key val expect fu su [] (spec_of c obj micros (wall s) r) = (res', b')"
  shows "res = res' \<and> cells (spec_of c obj micros now (server s')) = cells b'"
proof -
  let ?nv = "next_version (micros r) h" and ?B = "spec_of c obj micros (wall s) r"
  have nv: "?nv \<le> 2 ^ 53" using next_version_bounds [OF h(2) CLOCK] by simp
  have "cell_version (cells ?B key) = of_nat (stored_version h)"
    using cell_of_version [OF h(1,2)] by (simp add: spec_of_def)
  note spec' = this spec_next [of obj r c key, OF h] of_version(1) [OF less_imp_le [OF h(3)]]
  have cell: "cell_of (codec c) (Hash (entry_hash ?nv b (wall s) fu su)) =
      Live \<lparr>Value = val, Version = of_nat ?nv, StoredAt = wall s, FreshUntil = fu, StaleUntil = su, Negative = False\<rparr>"
    using read_entry_hash [OF cd(2) t nv] by (simp add: cell_of_def)
  show ?thesis
  proof (cases "expect = ForceVersion \<or> unat expect = stored_version h")
    case True
    then have "vs_SetCAS key val expect fu su [] ?B =
      (Inr \<lparr>Value = val, Version = of_nat ?nv, StoredAt = wall s, FreshUntil = fu, StaleUntil = su, Negative = False\<rparr>, b')"
      "cells b' = (cells ?B)(key := cell_of (codec c) (Hash (entry_hash ?nv b (wall s) fu su)))"
      using spec unfolding cell by (auto simp: vs_SetCAS_def spec' Let_def) (simp_all add: spec_of_def)
    then show ?thesis using True SetCAS_spec [OF c cd(1) h run] spec by (auto simp: spec_of_def cell_of_put)
  next
    case False
    then show ?thesis using SetCAS_spec [OF c cd(1) h run] spec
      by (simp add: vs_SetCAS_def spec' Let_def) (auto simp: spec_of_def)
  qed
qed

lemma CompareAndDelete_refines:
  assumes c: "R = client c" "net c (sent s) = Reached" "r = world c (sent s) (server s)"
    and h: "as_hash (obj r (store_k c key)) = Some h" "versioned h" "stored_version h < 2 ^ 53"
    and ttl: "0 \<le> tombstoneTTL c" "tombstoneTTL c < 2 ^ 63"
    and run: "run_state (redis_CompareAndDelete c key x) s = (res, s')"
    and spec: "vs_CompareAndDelete key x (spec_of c obj micros (wall s) r) = (res', b')"
  shows "res = res' \<and> cells (spec_of c obj micros now (server s')) = cells b'"
proof -
  let ?nv = "next_version (micros r) h" and ?B = "spec_of c obj micros (wall s) r"
  have nv: "?nv \<le> 2 ^ 53" using next_version_bounds [OF h(2) CLOCK] by simp
  have "cell_version (cells ?B key) = of_nat (stored_version h)"
    using cell_of_version [OF h(1,2)] by (simp add: spec_of_def)
  note spec' = this spec_next [of obj r c key, OF h] of_version(2) [OF less_imp_le [OF h(3)]]
  have cell: "cell_of (codec c) (Hash (tomb_hash ?nv)) = Tomb (of_nat ?nv)"
    using read_tomb_hash [OF nv, of "codec c"] by (simp add: cell_of_def)
  show ?thesis
  proof (cases "x = ForceVersion \<or> stored_version h \<le> unat x")
    case True
    then have "res' = (of_nat ?nv, True, None)" "cells b' = (cells ?B)(key := cell_of (codec c) (Hash (tomb_hash ?nv)))"
      using spec unfolding cell by (auto simp: vs_CompareAndDelete_def spec' Let_def not_less split: if_splits)
    then show ?thesis using True CompareAndDelete_spec [OF c h(1,2) ttl run] by (auto simp: spec_of_def cell_of_put)
  next
    case False
    then show ?thesis using CompareAndDelete_spec [OF c h(1,2) ttl run] spec
      by (simp add: vs_CompareAndDelete_def spec' Let_def) (auto simp: spec_of_def)
  qed
qed

end

text \<open>
  C4: Refinement. Where the command and its reply arrive, the key is an entry key below version
  \<open>2 ^ 53\<close> and the codec decodes what it encoded, \<open>Load\<close>, \<open>SetCAS\<close> (without tags) and
  \<open>CompareAndDelete\<close> of the Redis store return exactly what the abstract versioned store returns on the
  abstraction of the server state, and leave a server state whose abstraction holds the cells that the
  abstract store holds, for every key.
\<close>

theorem redis_refines_versioned_spec:
  assumes server: "redis_server (client c) obj micros"
    and c: "net c (sent s) = Reached" "r = world c (sent s) (server s)"
    and h: "as_hash (obj r (store_k c key)) = Some h" "versioned h" "stored_version h < 2 ^ 53" "decodable (codec c) h"
    and cd: "Encode (codec c) val = Inr b" "Decode (codec c) b = Inr val"
    and t: "in_i64 (wall s)" "in_i64 fu" "in_i64 su" "0 \<le> tombstoneTTL c" "tombstoneTTL c < 2 ^ 63"
    and B: "B = spec_of c obj micros (wall s) r"
  shows "simulates (cells \<circ> spec_of c obj micros now \<circ> server) (run_state (redis_Load c key) s) (vs_Load key B)
    \<and> simulates (cells \<circ> spec_of c obj micros now \<circ> server)
        (run_state (redis_SetCAS c key val expect fu su []) s) (vs_SetCAS key val expect fu su [] B)
    \<and> simulates (cells \<circ> spec_of c obj micros now \<circ> server)
        (run_state (redis_CompareAndDelete c key ver) s) (vs_CompareAndDelete key ver B)"
proof (intro conjI)
  have "run_state (redis_Load c key) s = (read_fields (codec c) h, s\<lparr>sent := Suc (sent s), server := r\<rparr>)"
    unfolding redis_Load_def by (rule redis_server.read_run [OF server refl c h(1)])
  moreover have "vs_Load key B = (read_fields (codec c) h, B)"
    using spec_load [of obj r c key h micros "wall s"] h(1,4) B by (auto simp: vs_Load_def split: cell.splits)
  ultimately show "simulates (cells \<circ> spec_of c obj micros now \<circ> server) (run_state (redis_Load c key) s) (vs_Load key B)"
    using B by (simp add: simulates_def spec_of_def)
qed (use redis_server.SetCAS_refines [OF server refl c h(1-3) cd t(1-3) prod.collapse [symmetric] prod.collapse [symmetric]]
    redis_server.CompareAndDelete_refines [OF server refl c h(1-3) t(4,5) prod.collapse [symmetric] prod.collapse [symmetric]]
    in \<open>simp_all add: simulates_def B\<close>)

text \<open>The key \<open>b\<close> of the reference server.\<close>

lemma demo_decodable: "decodable (codec demo_redis) demo_b_hash"
  by (auto simp: decodable_def demo_b_hash_def demo_codec_def demo_parse)

lemma demo_b_cell:
  "cells (spec_of demo_redis ref_obj ref_micros t demo_server) ''b'' =
     Live \<lparr>Value = 7, Version = 5, StoredAt = 0, FreshUntil = 10, StaleUntil = 20, Negative = False\<rparr>"
  by (simp add: spec_of_def cell_of_def demo_obj demo_b_hash_def read_fields_def demo_codec_def demo_parse
      nano_field_def msg_of_def parseUnixNano_def zero_entry_def)

theorem redis_refines_versioned_spec_witness:
  "let B = spec_of demo_redis ref_obj ref_micros 1000 demo_server
   in simulates (cells \<circ> spec_of demo_redis ref_obj ref_micros 1000 \<circ> server)
        (run_state (redis_CompareAndDelete demo_redis ''b'' 5) demo_l2) (vs_CompareAndDelete ''b'' 5 B)
    \<and> cells B ''b'' = Live \<lparr>Value = 7, Version = 5, StoredAt = 0, FreshUntil = 10, StaleUntil = 20, Negative = False\<rparr>"
  using redis_refines_versioned_spec [OF demo_server_ok demo_reached demo_world demo_b demo_decodable demo_encode demo_decode _ _ _ _ _ refl,
      of 0 0 1000 0 5] demo_b_cell
  by (simp add: Let_def in_i64_def duration_defs)

section \<open>Consequences\<close>

text \<open>
  C24: Round trip. Where the codec decodes what it encoded and the three times fit 64 bits of
  nanoseconds, a \<open>Load\<close> that follows a successful \<open>SetCAS\<close> of the key, with the key untouched in
  between, finds exactly the entry that \<open>SetCAS\<close> returned; and a \<open>Load\<close> that follows a successful
  \<open>CompareAndDelete\<close> finds nothing, but carries the tombstone's version.
\<close>

theorem redis_write_read_back:
  assumes server: "redis_server (client c) obj micros"
    and c: "net c (sent s) = Reached" "r = world c (sent s) (server s)" "net c (sent s') = Reached"
    and untouched: "obj (world c (sent s') (server s')) (store_k c key) = obj (server s') (store_k c key)"
    and h: "as_hash (obj r (store_k c key)) = Some h" "versioned h" "stored_version h < 2 ^ 53"
    and ttl: "0 \<le> tombstoneTTL c" "tombstoneTTL c < 2 ^ 63"
    and cd: "Encode (codec c) val = Inr b" "Decode (codec c) b = Inr val"
    and t: "in_i64 (wall s)" "in_i64 fu" "in_i64 su"
  shows "(run_state (redis_SetCAS c key val expect fu su []) s = (Inr e, s') \<longrightarrow>
      fst (run_state (redis_Load c key) s') = (e, True, None)) \<and>
    (run_state (redis_CompareAndDelete c key x) s = ((v, True, None), s') \<longrightarrow>
      fst (run_state (redis_Load c key) s') = (zero_entry\<lparr>Version := v\<rparr>, False, None))"
proof -
  have nv: "next_version (micros r) h \<le> 2 ^ 53" using next_version_bounds [OF h(2) redis_server.CLOCK [OF server]] by simp
  have load: "fst (run_state (redis_Load c key) s') = read_fields (codec c) g"
    if "obj (server s') (store_k c key) = Hash g" for g
    using redis_server.read_run [OF server refl c(3) refl, of key g] untouched that by (simp add: redis_Load_def)
  show ?thesis
  proof (intro conjI impI)
    assume "run_state (redis_SetCAS c key val expect fu su []) s = (Inr e, s')"
    note redis_server.SetCAS_spec [OF server refl c(1,2) cd(1) h this]
    then show "fst (run_state (redis_Load c key) s') = (e, True, None)"
      using load read_entry_hash [OF cd(2) t nv] by (simp split: if_splits)
  next
    assume "run_state (redis_CompareAndDelete c key x) s = ((v, True, None), s')"
    note redis_server.CompareAndDelete_spec [OF server refl c(1,2) h(1,2) ttl this]
    then show "fst (run_state (redis_Load c key) s') = (zero_entry\<lparr>Version := v\<rparr>, False, None)"
      using load read_tomb_hash [OF nv, of "codec c"] by (simp split: if_splits)
  qed
qed

theorem redis_write_read_back_witness:
  "fst (run_state (do { _ \<leftarrow> redis_SetCAS demo_redis ''b'' 8 5 100 200 []; redis_Load demo_redis ''b'' }) demo_l2) =
     (\<lparr>Value = 8, Version = 6, StoredAt = 1000, FreshUntil = 100, StaleUntil = 200, Negative = False\<rparr>, True, None)"
proof -
  let ?e = "\<lparr>Value = 8, Version = 6, StoredAt = 1000, FreshUntil = 100, StaleUntil = 200, Negative = False\<rparr> :: int entry"
  obtain res s1 where run: "run_state (redis_SetCAS demo_redis ''b'' 8 5 100 200 []) demo_l2 = (res, s1)" by fastforce
  then have "res = Inr ?e"
    using redis_server.SetCAS_spec [OF demo_server_ok refl demo_reached demo_world demo_encode demo_b run]
    by (simp add: demo_b_versions)
  then show ?thesis
    using redis_write_read_back [OF demo_server_ok demo_reached demo_world _ _ demo_b _ _ demo_encode demo_decode,
      of s1 100 200 5 ?e 0 0] run by (simp add: in_i64_def duration_defs)
qed

text \<open>
  The fill guard. A fill that carries the version its \<open>Load\<close> saw into \<open>SetCAS\<close> succeeds if and
  only if the key's version is still the same then, whatever happened to the server in between; when
  the key moved on (another write, an invalidation) the fill is refused with \<open>ErrVersionConflict\<close> and
  leaves the server as it found it.
\<close>

theorem redis_superseded_fill_refused:
  assumes server: "redis_server (client c) obj micros"
    and c: "net c (sent s) = Reached" "r = world c (sent s) (server s)"
    and h: "as_hash (obj r (store_k c key)) = Some h" "versioned h" "stored_version h < 2 ^ 53"
    and load: "run_state (redis_Load c key) s = ((e, found, err), s1)"
    and c1: "net c (sent s1) = Reached" "r1 = world c (sent s1) (server s1)"
    and h1: "as_hash (obj r1 (store_k c key)) = Some h1" "versioned h1" "stored_version h1 < 2 ^ 53"
    and enc: "Encode (codec c) val = Inr b"
    and cas: "run_state (redis_SetCAS c key val (Version e) fu su []) s1 = (res, s2)"
  shows "if stored_version h1 = stored_version h
    then \<exists>d. res = Inr d \<and> Version e < Version d
    else res = Inl ErrVersionConflict \<and> server s2 = r1"
proof -
  have "(e, found, err) = read_fields (codec c) h"
    using load redis_server.read_run [OF server refl c h(1)] by (simp add: redis_Load_def)
  then have e: "Version e = of_nat (stored_version h)" using read_version [OF h(2), of "codec c"] by (metis fst_conv)
  then have "unat (Version e) = stored_version h" "Version e \<noteq> ForceVersion"
    using version_roundtrip not_Force h(3) by (simp_all add: less_imp_le)
  moreover have nv: "next_version (micros r1) h1 \<le> 2 ^ 53"
    using next_version_bounds [OF h1(2) redis_server.CLOCK [OF server]] by simp
  have "of_nat (stored_version h) < (of_nat (next_version (micros r1) h1) :: u64)" if "stored_version h1 = stored_version h"
    using next_version_gt [OF h1(2,3)] that of_version(2) [OF nv] version_roundtrip [OF less_imp_le [OF h(3)]] by simp
  ultimately show ?thesis
    using redis_server.SetCAS_spec [OF server refl c1 enc h1 cas] e by (auto split: if_splits)
qed

text \<open>Key \<open>b\<close> is invalidated between the load and the write of a fill.\<close>

definition demo_raced :: "(ref_server, int) rstore" where
  "demo_raced = demo_redis\<lparr>world := (\<lambda>n. if n = 1 then ref_put ''rc:k:b'' (RHash [(''ver'', dec 6), (''del'', ''1'')]) else id)\<rparr>"

lemma demo_raced_simps [simp]:
  "client demo_raced = ref_redis" "net demo_raced n = Reached" "world demo_raced 0 = id"
  "world demo_raced (Suc 0) = ref_put ''rc:k:b'' (RHash [(''ver'', dec 6), (''del'', ''1'')])"
  "codec demo_raced = demo_codec" "store_k demo_raced key = ''rc:k:'' @ key"
  using demo_redis_simps(1,2,4,5) by (simp_all add: demo_raced_def store_k_def)

theorem redis_superseded_fill_refused_witness:
  "fst (run_state (do { (e, _, _) \<leftarrow> redis_Load demo_raced ''b'';
                        redis_SetCAS demo_raced ''b'' 8 (Version e) 100 200 [] }) demo_l2) = Inl ErrVersionConflict"
proof -
  have server: "redis_server (client demo_raced) ref_obj ref_micros" using reference.redis_server_axioms by simp
  have c: "net demo_raced (sent demo_l2) = Reached" "demo_server = world demo_raced (sent demo_l2) (server demo_l2)"
    and b: "as_hash (ref_obj demo_server (store_k demo_raced ''b'')) = Some demo_b_hash"
    and enc: "Encode (codec demo_raced) 8 = Inr ''8''"
    using demo_b(1) demo_encode by simp_all
  obtain e found err s1 where load: "run_state (redis_Load demo_raced ''b'') demo_l2 = ((e, found, err), s1)" by (metis prod.collapse)
  then have s1: "sent s1 = 1" "server s1 = demo_server"
    using redis_server.read_run [OF server refl c b] by (auto simp: redis_Load_def)
  let ?r1 = "ref_put ''rc:k:b'' (RHash [(''ver'', dec 6), (''del'', ''1'')]) demo_server"
  have c1: "net demo_raced (sent s1) = Reached" "?r1 = world demo_raced (sent s1) (server s1)" using s1 by simp_all
  have h1: "as_hash (ref_obj ?r1 (store_k demo_raced ''b'')) = Some (tomb_hash 6)" "versioned (tomb_hash 6)"
    "stored_version (tomb_hash 6) < 2 ^ 53"
    by (auto simp: ref_obj_put versioned_def stored_version_def dec_inj)
  have "stored_version (tomb_hash 6) \<noteq> stored_version demo_b_hash" by (simp add: demo_b_versions) (simp add: stored_version_def)
  then show ?thesis
    using redis_superseded_fill_refused [OF server c b demo_b(2,3) load c1 h1 enc prod.collapse [symmetric], of 100 200] load by simp
qed

text \<open>
  C21: Versions are never reused. Over the whole life of a key, through writes, tombstones, refused
  attempts and expiries, the versions the scripts hand out strictly increase, and the stored version
  is the last one handed out: a version seen once is never current again after a later one was minted.
\<close>

theorem versions_strictly_increase:
  assumes "redis_server R obj micros" "key_life R obj micros k r ms vs"
  shows "sorted_wrt (>) vs \<and> (\<forall>h. obj r k = Hash h \<longrightarrow> vs \<noteq> [] \<and> stored_version h = hd vs)"
  using redis_server.life_inv_life [OF assms] by (auto simp: life_inv_def)

theorem versions_strictly_increase_witness:
  "\<exists>r ms vs. key_life ref_redis ref_obj ref_micros ''rc:k:cc'' r ms vs \<and> length vs = 2 \<and> sorted_wrt (>) vs"
proof -
  let ?later = "\<lparr>ref_at = (\<lambda>_. RMissing), ref_us = 9000000\<rparr>" and ?k = "''rc:k:cc''"
  have empty: "as_hash Missing = Some Map.empty" "versioned Map.empty" by (simp_all add: versioned_def)
  have l: "ref_obj ?later ?k = Missing" by (simp add: ref_obj_def)
  have m: "ref_micros demo_server = 3000000" "ref_micros ?later = 9000000" by (simp_all add: ref_micros_def demo_server_def)
  obtain r1 where r1: "setCAS_script ref_redis ?k ''1'' [] ''7'' ''0'' ''0'' ''0'' (dec 1000) demo_server =
      (Inr [Bulk (dec (next_version (ref_micros demo_server) Map.empty)), Bulk ''1''], r1)"
    by (rule reference.setCAS_run [OF _ empty(2), of demo_server ?k 1000 "''7''" "''0''" "''0''" "''0''" "''1''" "[]"])
      (simp_all add: demo_obj)
  obtain r2 where r2: "setCAS_script ref_redis ?k ''1'' [] ''7'' ''0'' ''0'' ''0'' (dec 1000) ?later =
      (Inr [Bulk (dec (next_version (ref_micros ?later) Map.empty)), Bulk ''1''], r2)"
    by (rule reference.setCAS_run [OF _ empty(2), of ?later ?k 1000 "''7''" "''0''" "''0''" "''0''" "''1''" "[]"])
      (simp_all add: l)
  have "key_life ref_redis ref_obj ref_micros ?k r1 3000 [next_version 3000000 Map.empty]"
    using life_set [OF life_start [of ref_obj demo_server ?k ref_redis ref_micros] _ _ r1] by (simp add: demo_obj paced_def m)
  then have e2: "key_life ref_redis ref_obj ref_micros ?k ?later 3000 [next_version 3000000 Map.empty]"
    by (rule life_expire) (simp_all add: l m)
  then have "key_life ref_redis ref_obj ref_micros ?k r2 9000 [next_version 9000000 Map.empty, next_version 3000000 Map.empty]"
    using life_set [OF e2 _ _ r2] by (simp add: l paced_def m)
  then show ?thesis using versions_strictly_increase [OF reference.redis_server_axioms] by (intro exI conjI) auto
qed

text \<open>
  C37: A failed tag update is an error although the write landed. When the tag commands that follow a
  successful script call fail, \<open>SetCAS\<close> returns the error, yet the value is stored under its new
  version: the caller may not conclude that nothing was written.
\<close>

theorem redis_tag_error_after_write:
  assumes server: "redis_server (client c) obj micros"
    and c: "net c (sent s) = Reached" "r = world c (sent s) (server s)" "net c (Suc (sent s)) = RequestLost err"
    and calm: "\<And>n. sent s < n \<Longrightarrow> world c n = id" and apart: "store_t c tag \<noteq> store_k c key"
    and ttl: "tagTTL c < 2 ^ 63"
    and h: "as_hash (obj r (store_k c key)) = Some h" "versioned h" "stored_version h < 2 ^ 53"
    and enc: "Encode (codec c) val = Inr b" and ok: "expect = ForceVersion \<or> unat expect = stored_version h"
    and run: "run_state (redis_SetCAS c key val expect fu su [tag]) s = (res, s')"
  shows "res = Inl err
    \<and> obj (server s') (store_k c key) = Hash (entry_hash (next_version (micros r) h) b (wall s) fu su)"
proof -
  have nv: "next_version (micros r) h \<le> 2 ^ 53" using next_version_bounds [OF h(2) redis_server.CLOCK [OF server]] by simp
  have px: "obj (cmd_PEXPIRE (client c) (store_t c tag) (FormatInt (Milliseconds (tagTTL c))) x) (store_k c key) =
      obj x (store_k c key)" if "0 < tagTTL c" for x
    by (rule Milliseconds_dec [OF less_imp_le [OF that] ttl]) (use apart in \<open>simp add: redis_server.PEXPIRE [OF server]\<close>)
  have add: "fst (run_state (addTags c key [tag]) z) = Some err
      \<and> obj (server (snd (run_state (addTags c key [tag]) z))) (store_k c key) = obj (server z) (store_k c key)"
    if "sent z = Suc (sent s)" for z
    using that c(3) calm [of "Suc (sent s)"] calm [of "Suc (Suc (sent s))"]
    by (simp add: addTags_def tag_cmds_def send_def split_beta Let_def px split: fault.splits)
  obtain r' where r': "obj r' = (obj r)(store_k c key := Hash (entry_hash (next_version (micros r) h) b (wall s) fu su))"
    "setCAS_script (client c) (store_k c key) (boolArg (expect = ForceVersion)) (FormatUint expect) b
        (FormatInt (UnixNano (wall s))) (FormatInt (UnixNano fu)) (FormatInt (UnixNano su)) (FormatInt (redisTTL su (wall s))) r =
      (if expect = ForceVersion \<or> unat expect = stored_version h
       then (Inr [Bulk (dec (next_version (micros r) h)), Bulk ''1''], r')
       else (Inr [Bulk (dec (stored_version h)), Bulk ''0''], r))"
    by (rule redis_server.SetCAS_exec [OF server h])
  let ?z = "s\<lparr>sent := Suc (sent s), server := r'\<rparr>"
  have "run_state (redis_SetCAS c key val expect fu su [tag]) s =
      (Inl err, snd (run_state (addTags c key [tag]) ?z))"
    using ok add [of ?z] by (simp add: redis_SetCAS_def enc run_send_reached [OF c(1)] Let_def parseVerFlag_dec [OF nv]
        r'(2) split_beta flip: c(2))
  then show ?thesis using run add [of ?z] r'(1) by simp
qed

definition demo_lossy :: "(ref_server, int) rstore" where
  "demo_lossy = demo_redis\<lparr>net := (\<lambda>n. if n = 1 then RequestLost (ErrMsg ''EOF'') else Reached)\<rparr>"

lemma demo_lossy_simps [simp]:
  "client demo_lossy = ref_redis" "net demo_lossy 0 = Reached" "net demo_lossy (Suc 0) = RequestLost (ErrMsg ''EOF'')"
  "world demo_lossy n = id" "codec demo_lossy = demo_codec" "tagTTL demo_lossy = 24 * Hour"
  "store_k demo_lossy key = ''rc:k:'' @ key" "store_t demo_lossy tag = ''rc:t:'' @ tag"
  using demo_redis_simps by (simp_all add: demo_lossy_def store_k_def store_t_def)

theorem redis_tag_error_after_write_witness:
  "\<exists>s'. run_state (redis_SetCAS demo_lossy ''b'' 8 5 100 200 [''t'']) demo_l2 = (Inl (ErrMsg ''EOF''), s')
     \<and> ref_obj (server s') ''rc:k:b'' = Hash (entry_hash 6 ''8'' 1000 100 200)"
proof -
  obtain res s' where run: "run_state (redis_SetCAS demo_lossy ''b'' 8 5 100 200 [''t'']) demo_l2 = (res, s')" by fastforce
  have "res = Inl (ErrMsg ''EOF'')
    \<and> ref_obj (server s') (store_k demo_lossy ''b'') = Hash (entry_hash (next_version (ref_micros demo_server) demo_b_hash) ''8'' (wall demo_l2) 100 200)"
    by (rule redis_tag_error_after_write [OF _ _ _ _ _ _ _ _ demo_b(2,3) _ _ run])
      (use reference.redis_server_axioms demo_b(1) demo_encode in \<open>simp_all add: duration_defs demo_b_versions\<close>)
  then show ?thesis using run by (auto simp: demo_b_versions)
qed

end
