(* ===== verification/Redis_Tags.thy ===== *)
theory Redis_Tags
  imports Redis_Ops
begin

text \<open>
  The keyspace the Redis store maintains, under any faults of the network, and invalidation by tag.

  What Redis documents of \<open>SSCAN\<close> is the locale \<open>redis_scan\<close>: a page holds members of the set, a full
  iteration passes over every member that stays in the set, and an iteration ends. \<open>ahead cur\<close> is where
  an iteration at cursor \<open>cur\<close> still has to go.
\<close>

locale redis_scan = redis_server R obj micros
  for R :: "'r redis" and obj :: "'r \<Rightarrow> string \<Rightarrow> robj" and micros :: "'r \<Rightarrow> nat" +
  fixes rank :: "u64 \<Rightarrow> nat" and ahead :: "u64 \<Rightarrow> string set"
  assumes page_members: "as_set (obj r k) = Some S \<Longrightarrow> cmd_SSCAN R k cur n r = (cur', els) \<Longrightarrow> set els \<subseteq> S"
    and page_progress: "as_set (obj r k) = Some S \<Longrightarrow> cmd_SSCAN R k cur n r = (cur', els) \<Longrightarrow>
      S \<inter> ahead cur \<subseteq> set els \<union> (if cur' = 0 then {} else ahead cur')"
    and scan_ends: "cmd_SSCAN R k cur n r = (cur', els) \<Longrightarrow> cur' \<noteq> 0 \<Longrightarrow> rank cur' < rank cur"
    and scan_start: "ahead 0 = UNIV"

interpretation reference_scan: redis_scan ref_redis ref_obj ref_micros
  "\<lambda>cur. if cur = 0 then 1 else 0" "\<lambda>cur. if cur = 0 then UNIV else {m. odd (length m)}"
proof unfold_locales
  fix r k S cur n cur' els
  assume "as_set (ref_obj r k) = Some S" "cmd_SSCAN ref_redis k cur n r = (cur', els)"
  moreover from this have "set (ref_members (ref_at r k)) = S" by (auto simp: ref_obj_def split: refobj.splits)
  ultimately show "set els \<subseteq> S"
    "S \<inter> (if cur = 0 then UNIV else {m. odd (length m)}) \<subseteq>
      set els \<union> (if cur' = 0 then {} else if cur' = 0 then UNIV else {m. odd (length m)})"
    by (auto simp: ref_redis_def ref_SSCAN_def)
qed (auto simp: ref_redis_def ref_SSCAN_def split: if_splits)

section \<open>The keyspace\<close>

text \<open>
  Keys with the entry prefix hold entries, keys with the tag prefix hold sets, and the two prefixes
  lead to different keys. The TTLs are durations of 64 bits, the tombstone's not negative.
\<close>

definition keyspace :: "('r, 'v) rstore \<Rightarrow> ('r \<Rightarrow> string \<Rightarrow> robj) \<Rightarrow> 'r \<Rightarrow> bool" where
  "keyspace c obj r \<longleftrightarrow> (\<forall>key. entry_key (obj r (store_k c key))) \<and> (\<forall>tag. as_set (obj r (store_t c tag)) \<noteq> None)"

definition config_ok :: "('r, 'v) rstore \<Rightarrow> bool" where
  "config_ok c \<longleftrightarrow> (\<forall>key tag. store_k c key \<noteq> store_t c tag) \<and>
     0 \<le> tombstoneTTL c \<and> tombstoneTTL c < 2 ^ 63 \<and> tagTTL c < 2 ^ 63"

lemma keyspace_entry:
  assumes "keyspace c obj r"
  obtains h where "as_hash (obj r (store_k c key)) = Some h" "versioned h"
  using assms by (auto simp: keyspace_def entry_key_def)

lemma keyspace_tag:
  assumes "keyspace c obj r"
  obtains S where "as_set (obj r (store_t c tag)) = Some S"
  using assms by (auto simp: keyspace_def)

lemma keyspace_put_entry:
  assumes "keyspace c obj r" "config_ok c" "obj r' = (obj r)(store_k c key := Hash h)" "versioned h"
  shows "keyspace c obj r'"
proof -
  have "store_t c tag \<noteq> store_k c key" for tag using assms(2) unfolding config_ok_def by metis
  then show ?thesis using assms(1,4) by (auto simp: keyspace_def entry_key_def assms(3))
qed

lemma keyspace_put_tag:
  assumes "keyspace c obj r" "config_ok c" "obj r' = (obj r)(store_t c tag := x)" "as_set x \<noteq> None"
  shows "keyspace c obj r'"
  using assms by (auto simp: keyspace_def config_ok_def)

text \<open>The commands the store sends keep the keyspace.\<close>

context redis_server
begin

lemma setCAS_keyspace:
  assumes "keyspace c obj r" "config_ok c" "t \<le> 2 ^ 53"
  shows "keyspace c obj (snd (setCAS_script R (store_k c key) force expect b sa fu su (dec t) r))"
proof -
  obtain h where h: "as_hash (obj r (store_k c key)) = Some h" "versioned h" by (rule keyspace_entry [OF assms(1)])
  have "versioned (value_hash (next_version (micros r) h) b sa fu su)"
    using next_version_bounds [OF h(2) CLOCK] by (intro versioned_ver) auto
  then show ?thesis
    by (rule_tac setCAS_run [OF h assms(3), of b sa fu su force expect])
      (auto intro: keyspace_put_entry [OF assms(1,2)] simp: assms(1))
qed

lemma compareAndDelete_keyspace:
  assumes "keyspace c obj r" "config_ok c" "t \<le> 2 ^ 53"
  shows "keyspace c obj (snd (compareAndDelete_script R (store_k c key) force (dec x) (dec t) r))"
proof -
  obtain h where h: "as_hash (obj r (store_k c key)) = Some h" "versioned h" by (rule keyspace_entry [OF assms(1)])
  have "versioned (tomb_hash (next_version (micros r) h))"
    using next_version_bounds [OF h(2) CLOCK] by (intro versioned_ver) auto
  then show ?thesis
    by (rule_tac compareAndDelete_run [OF h assms(3), of force x])
      (auto intro: keyspace_put_entry [OF assms(1,2)] simp: assms(1))
qed

lemma SADD_keyspace:
  assumes "keyspace c obj r" "config_ok c"
  shows "keyspace c obj (cmd_SADD R (store_t c tag) m r)"
  by (rule keyspace_tag [OF assms(1), of tag]) (auto intro: keyspace_put_tag [OF assms SADD])

lemma SREM_keyspace:
  assumes "keyspace c obj r" "config_ok c"
  shows "keyspace c obj (cmd_SREM R (store_t c tag) ms r)"
  by (rule keyspace_tag [OF assms(1), of tag]) (auto intro: keyspace_put_tag [OF assms SREM] simp: of_set_def)

lemma PEXPIRE_keyspace:
  assumes "keyspace c obj r" "config_ok c"
  shows "keyspace c obj (cmd_PEXPIRE R (store_t c tag) (dec n) r)"
proof (cases "0 < n")
  case True
  then show ?thesis using assms(1) by (simp add: keyspace_def PEXPIRE)
next
  case False
  then show ?thesis using keyspace_put_tag [OF assms, of "cmd_PEXPIRE R (store_t c tag) (dec n) r" tag Missing] by (simp add: PEXPIRE)
qed

text \<open>So does every command of the pipelines, whatever the network does to it.\<close>

lemma keeps_send:
  assumes "\<And>n r. keyspace c obj r \<Longrightarrow> keyspace c obj (world c n r)"
    and "\<And>r. keyspace c obj r \<Longrightarrow> keyspace c obj (snd (f r))"
  shows "keeps (\<lambda>s. keyspace c obj (server s)) (send c f)"
  using assms by (auto simp: hoare_def send_def Let_def split_beta split: fault.splits)

lemma keeps_do_multi: "(\<And>m. m \<in> set ms \<Longrightarrow> keeps I m) \<Longrightarrow> keeps I (do_multi ms)"
  by (induction ms) (auto intro!: hoare_return hoare_bind)

end

text \<open>What one turn of the cursor loop keeps, the loop keeps.\<close>

lemma tag_scan_invariant:
  assumes scan: "\<And>cur. keeps I (send c (\<lambda>r. (Inr (cmd_SSCAN (client c) T cur tagScanCount r), r)))"
    and pages: "\<And>bs p. keeps I (tag_page c T ttl bs p)"
    and run: "tag_scan c T ttl cur p s = Some y" and start: "I s"
  shows "I (snd y)"
proof -
  have "c = c \<longrightarrow> T = T \<longrightarrow> ttl = ttl \<longrightarrow> I s \<longrightarrow> I (snd y)"
  proof (rule tag_scan.raw_induct [where P = "\<lambda>c' T' ttl' cur p s y. c' = c \<longrightarrow> T' = T \<longrightarrow> ttl' = ttl \<longrightarrow> I s \<longrightarrow> I (snd y)",
        OF _ run], goal_cases)
    case (1 rec c' T' ttl' cur p s y)
    show ?case
    proof (intro impI)
      assume eq: "c' = c" "T' = T" "ttl' = ttl" and s: "I s"
      let ?one = "run_state (send c (\<lambda>r. (Inr (cmd_SSCAN (client c) T cur tagScanCount r), r))) s"
      obtain x s1 where one: "?one = (x, s1)" by fastforce
      then have s1: "I s1" using hoareD [OF scan s] by blast
      show "I (snd y)"
      proof (cases x)
        case (Inl err)
        then show ?thesis using 1(2) one s1 by (auto simp: eq)
      next
        case (Inr z)
        obtain cur' els where z: "z = (cur', els)" by fastforce
        obtain p' e s2 where page: "run_state (tag_page c T ttl (chunks tagPipelineBatch 0 els) p) s1 = ((p', e), s2)"
          by (metis prod.collapse)
        then have s2: "I s2" using hoareD [OF pages s1] by blast
        show ?thesis
        proof (cases "e = None \<and> cur' \<noteq> 0")
          case True
          then have "rec c T ttl cur' p' s2 = Some y" using 1(2) one Inr z page by (simp add: eq)
          then show ?thesis using 1(1) s2 by blast
        next
          case False
          then have "Some ((p', e), s2) = Some y" using 1(2) one Inr z page by (cases e) (auto simp: eq)
          then show ?thesis using s2 by force
        qed
      qed
    qed
  qed
  then show ?thesis using start by blast
qed

text \<open>A store whose server is documented, configured sanely, in a world that keeps to the keyspace.\<close>

locale redis_client = redis_server "client c" obj micros
  for c :: "('r, 'v::zero) rstore" and obj :: "'r \<Rightarrow> string \<Rightarrow> robj" and micros :: "'r \<Rightarrow> nat" +
  assumes configured: "config_ok c" and world_keeps: "\<And>n r. keyspace c obj r \<Longrightarrow> keyspace c obj (world c n r)"
begin

abbreviation tidy :: "'r l2state \<Rightarrow> bool" where
  "tidy s \<equiv> keyspace c obj (server s)"

lemma tomb_ttl: obtains t where "FormatInt (Milliseconds (tombstoneTTL c)) = dec t" "t \<le> 2 ^ 53"
  by (rule Milliseconds_dec [of "tombstoneTTL c"]) (use configured in \<open>auto simp: config_ok_def\<close>)

lemma keeps_compareAndDelete:
  "keeps tidy (send c (compareAndDelete_script (client c) (store_k c key) force (dec x) (FormatInt (Milliseconds (tombstoneTTL c)))))"
  by (rule tomb_ttl) (auto intro!: keeps_send world_keeps compareAndDelete_keyspace configured)

lemma keeps_addTags: "keeps tidy (addTags c key ts)"
  unfolding addTags_def
proof (rule keeps_do_multi)
  fix m assume "m \<in> set (concat (map (tag_cmds c key) ts))"
  then obtain tag where m: "m \<in> set (tag_cmds c key tag)" by auto
  have "keeps tidy (send c (\<lambda>r. (Inr (), cmd_SADD (client c) (store_t c tag) key r)))"
    by (intro keeps_send world_keeps) (simp_all add: SADD_keyspace configured)
  moreover have "keeps tidy (send c (\<lambda>r. (Inr (), cmd_PEXPIRE (client c) (store_t c tag) (FormatInt (Milliseconds (tagTTL c))) r)))"
    if "0 < tagTTL c"
    by (rule Milliseconds_dec [of "tagTTL c"])
      (use that configured in \<open>auto intro!: keeps_send world_keeps PEXPIRE_keyspace simp: config_ok_def\<close>)
  ultimately show "keeps tidy m" using m by (auto simp: tag_cmds_def split: if_splits)
qed

lemma keeps_SetCAS: "keeps tidy (redis_SetCAS c key val expect fu su ts)"
proof -
  have "keeps tidy (send c (setCAS_script (client c) (store_k c key) force ex b sa f1 s1 (FormatInt (redisTTL s now))))"
    for force ex b sa f1 s1 s now
    by (rule redisTTL_dec [of s now]) (auto intro!: keeps_send world_keeps setCAS_keyspace configured)
  then show ?thesis unfolding redis_SetCAS_def
    by (intro hoare_sum hoare_bind [where R = "\<lambda>_. tidy"] hoare_reading hoare_return hoare_prod hoare_option hoare_if
        keeps_addTags) auto
qed

lemma keeps_CompareAndDelete: "keeps tidy (redis_CompareAndDelete c key x)"
  unfolding redis_CompareAndDelete_def FormatUint_def
  by (intro hoare_bind [where R = "\<lambda>_. tidy"] keeps_compareAndDelete hoare_return)

lemma keeps_read: "keeps tidy (redis_read c key)"
  unfolding redis_read_def
  by (intro hoare_bind [where R = "\<lambda>_. tidy"] keeps_send world_keeps hoare_return) simp_all

lemma keeps_exec_batch: "keeps tidy (exec_batch c (FormatInt (Milliseconds (tombstoneTTL c))) ks)"
proof (induction ks)
  case (Cons key ks)
  have "dec 0 = ''0''" by code_simp
  then have "keeps tidy (send c (compareAndDelete_script (client c) (store_k c key) ''1'' ''0'' (FormatInt (Milliseconds (tombstoneTTL c)))))"
    using keeps_compareAndDelete [of key "''1''" 0] by simp
  then show ?case using Cons
    by (auto intro!: hoare_bind [where R = "\<lambda>_. tidy"] hoare_prod hoare_return)
qed (simp add: hoare_return)

lemma keeps_tag_page: "keeps tidy (tag_page c (store_t c tag) (FormatInt (Milliseconds (tombstoneTTL c))) bs processed)"
proof (induction bs arbitrary: processed)
  case (Cons batch bs)
  have "keeps tidy (send c (\<lambda>r. (Inr (), cmd_SREM (client c) (store_t c tag) ms r)))" for ms
    by (intro keeps_send world_keeps) (simp_all add: SREM_keyspace configured)
  then show ?case using Cons
    by (auto intro!: hoare_bind [where R = "\<lambda>_. tidy"] hoare_prod hoare_if hoare_return keeps_exec_batch)
qed (simp add: hoare_return)

lemma DeleteByTag_keeps: "redis_DeleteByTag c tag s = Some y \<Longrightarrow> tidy s \<Longrightarrow> tidy (snd y)"
  unfolding redis_DeleteByTag_def
  by (erule tag_scan_invariant [rotated 2]) (auto intro!: keeps_send world_keeps keeps_tag_page)

end

section \<open>Any calls, any faults\<close>

datatype 'v redis_call =
    CLoad gokey
  | CGet gokey
  | CSet gokey "'v entry"
  | CSetCAS gokey 'v u64 time time "string list"
  | CCompareAndDelete gokey u64
  | CDelete gokey
  | CDeleteByTag string
  | CClose

text \<open>The state after a call, if it returns.\<close>

fun redis_do :: "('r, 'v::zero) rstore \<Rightarrow> 'v redis_call \<Rightarrow> 'r l2state \<Rightarrow> 'r l2state option" where
  "redis_do c (CLoad key) s = Some (snd (run_state (redis_Load c key) s))"
| "redis_do c (CGet key) s = Some (snd (run_state (redis_Get c key) s))"
| "redis_do c (CSet key e) s = Some (snd (run_state (redis_Set c key e) s))"
| "redis_do c (CSetCAS key val expect fu su ts) s = Some (snd (run_state (redis_SetCAS c key val expect fu su ts) s))"
| "redis_do c (CCompareAndDelete key x) s = Some (snd (run_state (redis_CompareAndDelete c key x) s))"
| "redis_do c (CDelete key) s = Some (snd (run_state (redis_Delete c key) s))"
| "redis_do c (CDeleteByTag tag) s = map_option snd (redis_DeleteByTag c tag s)"
| "redis_do c CClose s = Some (snd (run_state (redis_Close c) s))"

fun redis_calls :: "('r, 'v::zero) rstore \<Rightarrow> 'v redis_call list \<Rightarrow> 'r l2state \<Rightarrow> 'r l2state option" where
  "redis_calls c [] s = Some s"
| "redis_calls c (x # xs) s = (case redis_do c x s of None \<Rightarrow> None | Some s' \<Rightarrow> redis_calls c xs s')"

context redis_client
begin

lemma do_keeps:
  assumes "tidy s" "redis_do c x s = Some s'"
  shows "tidy s'"
proof -
  have "keeps tidy (redis_Set c key e)" "keeps tidy (redis_Delete c key)" for key e
    unfolding redis_Set_def redis_Delete_def
    by (auto intro!: hoare_bind [where R = "\<lambda>_. tidy"] keeps_SetCAS keeps_CompareAndDelete hoare_prod hoare_return)
  note this [THEN hoare_run, OF assms(1)]
    keeps_read [THEN hoare_run, OF assms(1)] keeps_SetCAS [THEN hoare_run, OF assms(1)]
    keeps_CompareAndDelete [THEN hoare_run, OF assms(1)]
  then show ?thesis using assms DeleteByTag_keeps by (cases x) (auto simp: redis_Load_def redis_Get_def redis_Close_def)
qed

lemma calls_keep: "tidy s \<Longrightarrow> redis_calls c xs s = Some s' \<Longrightarrow> tidy s'"
  by (induction xs arbitrary: s) (auto split: option.splits dest: do_keeps)

end

text \<open>
  C25: The keyspace is well typed. After any sequence of calls of the store, with any arguments, under
  any faults of the network (requests lost, replies lost after the server acted) and any interference
  that respects the keyspace (other writers, expiry), every key with the entry prefix is empty or a hash
  with a positive version below or at \<open>2 ^ 53\<close>, and every key with the tag prefix is empty or a set.
\<close>

theorem redis_keyspace_typed:
  assumes "redis_server (client c) obj micros" "config_ok c"
    and "\<And>n r. keyspace c obj r \<Longrightarrow> keyspace c obj (world c n r)"
    and "keyspace c obj (server s)" "redis_calls c xs s = Some s'"
  shows "(\<forall>key. entry_key (obj (server s') (store_k c key))) \<and> (\<forall>tag. as_set (obj (server s') (store_t c tag)) \<noteq> None)"
  using redis_client.calls_keep [OF redis_client.intro [OF assms(1) redis_client_axioms.intro [OF assms(2,3)]] assms(4,5)]
  by (simp add: keyspace_def)

lemma demo_keyspace: "keyspace demo_redis ref_obj demo_server"
  by (auto simp: keyspace_def entry_key_def ref_obj_def demo_server_def versioned_def dec_inj simp flip: dec_5)

lemma demo_config: "config_ok demo_redis"
  by (simp add: config_ok_def duration_defs)

interpretation demo_client: redis_client demo_redis ref_obj ref_micros
  by unfold_locales (use reference.redis_server_axioms demo_config in \<open>simp_all add: redis_server_def\<close>)

theorem redis_keyspace_typed_witness:
  "\<exists>s'. redis_calls demo_lossy [CSetCAS ''b'' 8 5 100 200 [''t''], CDelete ''a''] demo_l2 = Some s'
     \<and> entry_key (ref_obj (server s') ''rc:k:b'')"
proof -
  have k: "keyspace demo_lossy = keyspace demo_redis" by (intro ext) (simp add: keyspace_def)
  have "config_ok demo_lossy" using demo_config by (simp add: config_ok_def demo_lossy_def store_k_def store_t_def)
  then show ?thesis
    using redis_keyspace_typed [of demo_lossy ref_obj ref_micros demo_l2 "[CSetCAS ''b'' 8 5 100 200 [''t''], CDelete ''a'']"]
      reference.redis_server_axioms demo_keyspace k by (auto simp: all_conj_distrib)
qed

section \<open>Invalidation by tag\<close>

text \<open>
  One key became a tombstone of a later version. From \<open>r\<close> to \<open>r'\<close> this happened to the entries of the
  keys \<open>A\<close>, and nothing else changed, up to the tag set at \<open>T\<close>.
\<close>

definition tomb_from :: "robj \<Rightarrow> robj \<Rightarrow> bool" where
  "tomb_from x y \<longleftrightarrow> (\<exists>h v. as_hash x = Some h \<and> y = Hash (tomb_hash v) \<and> 0 < v \<and> v \<le> 2 ^ 53 \<and>
     (stored_version h < v \<or> v = 2 ^ 53))"

definition tombed :: "('r, 'v) rstore \<Rightarrow> ('r \<Rightarrow> string \<Rightarrow> robj) \<Rightarrow> string \<Rightarrow> gokey set \<Rightarrow> 'r \<Rightarrow> 'r \<Rightarrow> bool" where
  "tombed c obj T A r r' \<longleftrightarrow>
     (\<forall>k \<in> A. tomb_from (obj r (store_k c k)) (obj r' (store_k c k))) \<and>
     (\<forall>x. x \<notin> store_k c ` A \<longrightarrow> x \<noteq> T \<longrightarrow> obj r' x = obj r x)"

lemma tomb_from_entry: "tomb_from x y \<Longrightarrow> entry_key y"
  unfolding tomb_from_def entry_key_def by (metis as_hash.simps(2) map_of_Cons_code(2) versioned_ver)

lemma tomb_from_trans:
  assumes "tomb_from x y" "tomb_from y z" shows "tomb_from x z"
proof -
  obtain h v where 1: "as_hash x = Some h" "y = Hash (tomb_hash v)" "v \<le> 2 ^ 53" "stored_version h < v \<or> v = 2 ^ 53"
    using assms(1) by (auto simp: tomb_from_def)
  obtain g w where 2: "as_hash y = Some g" "z = Hash (tomb_hash w)" "0 < w" "w \<le> 2 ^ 53" "stored_version g < w \<or> w = 2 ^ 53"
    using assms(2) unfolding tomb_from_def by blast
  have "stored_version g = v" using 1(2) 2(1) by (auto simp: stored_version_def)
  then have "stored_version h < w \<or> w = 2 ^ 53" using 1(3,4) 2(4,5) by linarith
  then show ?thesis using 1(1) 2(2-4) unfolding tomb_from_def by blast
qed

lemma tombed_refl: "tombed c obj T {} r r"
  by (simp add: tombed_def)

lemma tombed_tag: "obj r' = (obj r)(T := x) \<Longrightarrow> tombed c obj T {} r r'"
  by (simp add: tombed_def)

lemma tombed_key:
  assumes "tombed c obj T A r r'" "store_k c k \<noteq> T"
  shows "if k \<in> A then tomb_from (obj r (store_k c k)) (obj r' (store_k c k)) else obj r' (store_k c k) = obj r (store_k c k)"
proof -
  have "k \<notin> A \<Longrightarrow> store_k c k \<notin> store_k c ` A" by auto
  then show ?thesis using assms by (simp add: tombed_def)
qed

lemma tombed_trans:
  assumes "tombed c obj T A r r'" "tombed c obj T B r' r''" "\<And>k. store_k c k \<noteq> T"
  shows "tombed c obj T (A \<union> B) r r''"
  unfolding tombed_def
proof (intro conjI ballI)
  fix k assume "k \<in> A \<union> B"
  then show "tomb_from (obj r (store_k c k)) (obj r'' (store_k c k))"
    using tombed_key [OF assms(1) assms(3), of k] tombed_key [OF assms(2) assms(3), of k] by (auto split: if_splits intro: tomb_from_trans)
next
  show "\<forall>x. x \<notin> store_k c ` (A \<union> B) \<longrightarrow> x \<noteq> T \<longrightarrow> obj r'' x = obj r x"
    using assms(1,2) by (simp add: tombed_def image_Un)
qed

lemma config_apart: "config_ok c \<Longrightarrow> store_k c key \<noteq> store_t c tag" "config_ok c \<Longrightarrow> store_t c tag \<noteq> store_k c key"
  unfolding config_ok_def by metis+

lemma tombed_keyspace:
  assumes "keyspace c obj r" "tombed c obj (store_t c tag) A r r'" "config_ok c" "as_set (obj r' (store_t c tag)) \<noteq> None"
  shows "keyspace c obj r'"
  unfolding keyspace_def
proof (intro conjI allI)
  show "entry_key (obj r' (store_k c key))" for key
    using tombed_key [OF assms(2) config_apart(1) [OF assms(3)], of key] assms(1)
    by (auto simp: keyspace_def split: if_splits intro: tomb_from_entry)
  show "as_set (obj r' (store_t c tag')) \<noteq> None" for tag'
    using assms(1,2,4) config_apart(2) [OF assms(3)]
    by (cases "store_t c tag' = store_t c tag") (auto simp: keyspace_def tombed_def image_iff)
qed

text \<open>A quiet run: every command arrives, every reply comes back, and nobody else touches the server.\<close>

definition quiet_net :: "('r, 'v) rstore \<Rightarrow> bool" where
  "quiet_net c \<longleftrightarrow> (\<forall>n. net c n = Reached \<and> world c n = id)"

lemma run_send_quiet:
  "quiet_net c \<Longrightarrow> run_state (send c f) s = (fst (f (server s)), s\<lparr>sent := Suc (sent s), server := snd (f (server s))\<rparr>)"
  by (simp add: quiet_net_def run_send_reached Let_def)

locale redis_quiet = redis_scan "client c" obj micros rank ahead
  for c :: "('r, 'v::zero) rstore" and obj :: "'r \<Rightarrow> string \<Rightarrow> robj" and micros rank ahead +
  fixes tag :: string
  assumes configured: "config_ok c" and quiet: "quiet_net c"
begin

abbreviation T :: string where "T \<equiv> store_t c tag"
abbreviation ttl :: string where "ttl \<equiv> FormatInt (Milliseconds (tombstoneTTL c))"

lemma apart: "store_k c key \<noteq> T"
  by (rule config_apart(1) [OF configured])

lemma tombstone_one:
  assumes "keyspace c obj r"
  obtains v r' where "compareAndDelete_script (client c) (store_k c key) ''1'' ''0'' ttl r = (Inr [Bulk (dec v), Bulk ''1''], r')"
    "v \<le> 2 ^ 53" "tombed c obj T {key} r r'" "obj r' T = obj r T"
proof -
  obtain h where h: "as_hash (obj r (store_k c key)) = Some h" "versioned h" by (rule keyspace_entry [OF assms])
  obtain t where t: "ttl = dec t" "t \<le> 2 ^ 53"
    by (rule Milliseconds_dec [of "tombstoneTTL c"]) (use configured in \<open>auto simp: config_ok_def\<close>)
  let ?nv = "next_version (micros r) h"
  have nv: "0 < ?nv" "?nv \<le> 2 ^ 53" using next_version_bounds [OF h(2) CLOCK] by simp_all
  have "stored_version h < ?nv \<or> ?nv = 2 ^ 53"
    using next_version_gt [OF h(2)] stored_version_le [OF h(2)] h(2)
    by (cases "stored_version h = 2 ^ 53") (auto simp: next_version_def stored_version_def split: option.splits)
  then have step: "tomb_from (obj r (store_k c key)) (Hash (tomb_hash ?nv))" using h(1) nv unfolding tomb_from_def by blast
  have "dec 0 = ''0''" by code_simp
  then obtain r' where r': "obj r' = (obj r)(store_k c key := Hash (tomb_hash ?nv))"
    "compareAndDelete_script (client c) (store_k c key) ''1'' ''0'' ttl r = (Inr [Bulk (dec ?nv), Bulk ''1''], r')"
    using compareAndDelete_run [OF h t(2), of "''1''" 0 thesis] t(1) by auto
  then have "tombed c obj T {key} r r'" "obj r' T = obj r T" using step apart [of key] by (auto simp: tombed_def)
  then show thesis using that [OF r'(2) nv(2)] by blast
qed

lemma exec_batch_quiet:
  "keyspace c obj (server s) \<Longrightarrow> \<exists>s'. run_state (exec_batch c ttl ks) s = ((ks, None), s') \<and>
     tombed c obj T (set ks) (server s) (server s') \<and> obj (server s') T = obj (server s) T"
proof (induction ks arbitrary: s)
  case (Cons key ks)
  obtain v r' where one: "compareAndDelete_script (client c) (store_k c key) ''1'' ''0'' ttl (server s) = (Inr [Bulk (dec v), Bulk ''1''], r')"
    "v \<le> 2 ^ 53" "tombed c obj T {key} (server s) r'" "obj r' T = obj (server s) T" by (rule tombstone_one [OF Cons.prems])
  let ?s1 = "s\<lparr>sent := Suc (sent s), server := r'\<rparr>"
  have "keyspace c obj r'"
    using tombed_keyspace [OF Cons.prems one(3) configured] one(4) Cons.prems by (simp add: keyspace_def)
  then obtain s' where rest: "run_state (exec_batch c ttl ks) ?s1 = ((ks, None), s')"
    "tombed c obj T (set ks) r' (server s')" "obj (server s') T = obj r' T" using Cons.IH [of ?s1] by auto
  have "tombed c obj T ({key} \<union> set ks) (server s) (server s')" by (rule tombed_trans [OF one(3) rest(2) apart])
  then show ?case using one(4) rest
    by (simp add: run_send_quiet [OF quiet] one(1) parseVerFlag_dec [OF one(2)])
qed (simp add: tombed_refl)

lemma tag_page_quiet:
  "keyspace c obj (server s) \<Longrightarrow> as_set (obj (server s) T) = Some S \<Longrightarrow>
   \<exists>s'. run_state (tag_page c T ttl bs p) s = ((p @ concat bs, None), s') \<and>
     tombed c obj T (set (concat bs)) (server s) (server s') \<and> as_set (obj (server s') T) = Some (S - set (concat bs))"
proof (induction bs arbitrary: s S p)
  case (Cons b bs)
  obtain s1 where s1: "run_state (exec_batch c ttl b) s = ((b, None), s1)"
    "tombed c obj T (set b) (server s) (server s1)" "obj (server s1) T = obj (server s) T"
    using exec_batch_quiet [OF Cons.prems(1)] by blast
  let ?s2 = "if b = [] then s1 else s1\<lparr>sent := Suc (sent s1), server := cmd_SREM (client c) T b (server s1)\<rparr>"
  have set: "as_set (obj (server s1) T) = Some S" using s1(3) Cons.prems(2) by simp
  have s2: "tombed c obj T {} (server s1) (server ?s2)" "as_set (obj (server ?s2) T) = Some (S - set b)"
    using SREM [OF set, of b] set by (auto simp: tombed_refl of_set_def intro: tombed_tag)
  have s02: "tombed c obj T (set b) (server s) (server ?s2)" using tombed_trans [OF s1(2) s2(1) apart] by simp
  obtain s' where s': "run_state (tag_page c T ttl bs (p @ b)) ?s2 = (((p @ b) @ concat bs, None), s')"
    "tombed c obj T (set (concat bs)) (server ?s2) (server s')" "as_set (obj (server s') T) = Some (S - set b - set (concat bs))"
    using Cons.IH [OF tombed_keyspace [OF Cons.prems(1) s02 configured] s2(2), of "p @ b"] s2(2) by auto
  have "tombed c obj T (set b \<union> set (concat bs)) (server s) (server s')" by (rule tombed_trans [OF s02 s'(2) apart])
  moreover have "run_state (tag_page c T ttl (b # bs) p) s = run_state (tag_page c T ttl bs (p @ b)) ?s2"
    by (simp add: s1(1) run_send_quiet [OF quiet])
  ultimately show ?case using s'(1,3) by (simp add: Diff_eq Int_assoc)
qed (simp add: tombed_refl)

lemma tag_scan_quiet:
  "keyspace c obj (server s) \<Longrightarrow> as_set (obj (server s) T) = Some S \<Longrightarrow> S \<subseteq> ahead cur \<Longrightarrow>
   \<exists>ks s'. tag_scan c T ttl cur p s = Some ((p @ ks, None), s') \<and> set ks = S \<and>
     tombed c obj T S (server s) (server s') \<and> as_set (obj (server s') T) = Some {}"
proof (induction "rank cur" arbitrary: cur p s S rule: less_induct)
  case less
  obtain cur' els where scan: "cmd_SSCAN (client c) T cur tagScanCount (server s) = (cur', els)" by fastforce
  let ?s1 = "s\<lparr>sent := Suc (sent s)\<rparr>"
  have els: "set els \<subseteq> S" "S - set els \<subseteq> (if cur' = 0 then {} else ahead cur')"
    using page_members [OF less.prems(2) scan] page_progress [OF less.prems(2) scan] less.prems(3) by (blast, fastforce)
  have ch: "concat (chunks tagPipelineBatch 0 els) = els"
    using chunks_spec [of tagPipelineBatch 0 els] by (simp add: tagPipelineBatch_def)
  obtain s2 where page: "run_state (tag_page c T ttl (chunks tagPipelineBatch 0 els) p) ?s1 = ((p @ els, None), s2)"
    "tombed c obj T (set els) (server s) (server s2)" "as_set (obj (server s2) T) = Some (S - set els)"
    using tag_page_quiet [of ?s1 S "chunks tagPipelineBatch 0 els" p] less.prems(1,2) by (auto simp: ch)
  have step: "tag_scan c T ttl cur p s =
      (if cur' = 0 then Some ((p @ els, None), s2) else tag_scan c T ttl cur' (p @ els) s2)"
    using page(1) by (subst tag_scan.simps) (simp add: run_send_quiet [OF quiet] scan)
  show ?case
  proof (cases "cur' = 0")
    case True
    then show ?thesis using step page els by auto
  next
    case False
    have k2: "keyspace c obj (server s2)" using tombed_keyspace [OF less.prems(1) page(2) configured] page(3) by simp
    obtain ks s' where rest: "tag_scan c T ttl cur' (p @ els) s2 = Some (((p @ els) @ ks, None), s')" "set ks = S - set els"
      "tombed c obj T (S - set els) (server s2) (server s')" "as_set (obj (server s') T) = Some {}"
      using less.hyps [OF scan_ends [OF scan False] k2 page(3), of "p @ els"] els(2) False by auto
    have "set els \<union> (S - set els) = S" using els(1) by blast
    then have "tombed c obj T S (server s) (server s')" using tombed_trans [OF page(2) rest(3) apart] by simp
    moreover have "set (els @ ks) = S" using rest(2) els(1) by auto
    ultimately show ?thesis using step False rest(1,4) by (intro exI [of _ "els @ ks"] exI [of _ s']) simp
  qed
qed

end

lemma demo_scan:
  "redis_scan (client demo_redis) ref_obj ref_micros (\<lambda>cur. if cur = 0 then 1 else 0)
     (\<lambda>cur. if cur = 0 then UNIV else {m. odd (length m)})"
  using reference_scan.redis_scan_axioms by simp

lemma demo_quiet: "quiet_net demo_redis"
  by (simp add: quiet_net_def)

interpretation demo_tag: redis_quiet demo_redis ref_obj ref_micros
  "\<lambda>cur. if cur = 0 then 1 else 0" "\<lambda>cur. if cur = 0 then UNIV else {m. odd (length m)}" "''t''"
  by (rule redis_quiet.intro [OF demo_scan redis_quiet_axioms.intro [OF demo_config demo_quiet]])

text \<open>
  C20: Tag invalidation is complete and terminates. On a server that scans as documented, with nothing
  lost and nobody interfering, \<open>DeleteByTag\<close> returns without an error, reports exactly the members of
  the tag, leaves each of them a tombstone of a later version (unless its version had reached
  \<open>2 ^ 53\<close>), leaves the tag empty, and touches no other key.
\<close>

theorem redis_tag_invalidated:
  fixes c :: "('r, 'v::zero) rstore"
  assumes "redis_scan (client c) obj micros rank ahead" "config_ok c" "quiet_net c"
    and "keyspace c obj (server s)" "as_set (obj (server s) (store_t c tag)) = Some S"
  shows "\<exists>ks s'. redis_DeleteByTag c tag s = Some ((ks, None), s') \<and> set ks = S
    \<and> as_set (obj (server s') (store_t c tag)) = Some {}
    \<and> (\<forall>k \<in> S. \<exists>h v. as_hash (obj (server s) (store_k c k)) = Some h \<and> obj (server s') (store_k c k) = Hash (tomb_hash v)
         \<and> (stored_version h < v \<or> v = 2 ^ 53))
    \<and> (\<forall>x. x \<notin> store_k c ` S \<longrightarrow> x \<noteq> store_t c tag \<longrightarrow> obj (server s') x = obj (server s) x)"
proof -
  have q: "redis_quiet c obj micros rank ahead"
    by (rule redis_quiet.intro [OF assms(1) redis_quiet_axioms.intro [OF assms(2,3)]])
  obtain ks s' where "redis_DeleteByTag c tag s = Some ((ks, None), s')" "set ks = S"
    "as_set (obj (server s') (store_t c tag)) = Some {}" "tombed c obj (store_t c tag) S (server s) (server s')"
    using redis_quiet.tag_scan_quiet [OF q assms(4,5), of 0 "[]"] redis_scan.scan_start [OF assms(1)]
    by (auto simp: redis_DeleteByTag_def)
  moreover from this have "\<forall>k \<in> S. \<exists>h v. as_hash (obj (server s) (store_k c k)) = Some h \<and> obj (server s') (store_k c k) = Hash (tomb_hash v)
      \<and> (stored_version h < v \<or> v = 2 ^ 53)" unfolding tombed_def tomb_from_def by blast
  ultimately show ?thesis by (intro exI [of _ ks] exI [of _ s']) (simp add: tombed_def)
qed

theorem redis_tag_invalidated_witness:
  "\<exists>ks s' v. redis_DeleteByTag demo_redis ''t'' demo_l2 = Some ((ks, None), s') \<and> set ks = {''a'', ''b'', ''cc''}
     \<and> ref_obj (server s') ''rc:k:b'' = Hash (tomb_hash v) \<and> 5 < v"
proof -
  have S: "as_set (ref_obj (server demo_l2) (store_t demo_redis ''t'')) = Some {''a'', ''b'', ''cc''}" by (simp add: demo_obj)
  have k: "keyspace demo_redis ref_obj (server demo_l2)" using demo_keyspace by simp
  obtain ks s' where r: "redis_DeleteByTag demo_redis ''t'' demo_l2 = Some ((ks, None), s')" "set ks = {''a'', ''b'', ''cc''}"
    "\<forall>k \<in> {''a'', ''b'', ''cc''}. \<exists>h v. as_hash (ref_obj (server demo_l2) (store_k demo_redis k)) = Some h
       \<and> ref_obj (server s') (store_k demo_redis k) = Hash (tomb_hash v) \<and> (stored_version h < v \<or> v = 2 ^ 53)"
    using redis_tag_invalidated [OF demo_scan demo_config demo_quiet k S] by (elim exE conjE) (rule that)
  from r(3) obtain h v where "as_hash (ref_obj (server demo_l2) (store_k demo_redis ''b'')) = Some h"
    "ref_obj (server s') (store_k demo_redis ''b'') = Hash (tomb_hash v)" "stored_version h < v \<or> v = 2 ^ 53"
    by (meson insertI1 insertI2)
  then have "ref_obj (server s') ''rc:k:b'' = Hash (tomb_hash v)" "5 < v"
    using demo_b(1) demo_b_versions(1) by auto
  then show ?thesis using r(1,2) by blast
qed

end
