(* ===== verification/Redis_Sim.thy ===== *)
theory Redis_Sim
  imports Cache_Sim Redis_Tags
begin

text \<open>
  The Redis store in place of the abstract one. On a server that behaves as documented, with nothing lost
  and nobody in between, the operations of redisstore/redis.go and of \<open>Versioned_Spec\<close> correspond, so that
  the locale \<open>l2_simulation\<close> applies and a cache over Redis does what it does over the specification.
\<close>

section \<open>Corresponding stores\<close>

text \<open>The server holds what the specification holds, in a well-typed keyspace of values that decode.\<close>

definition decodes :: "('r, 'v::zero) rstore \<Rightarrow> ('r \<Rightarrow> string \<Rightarrow> robj) \<Rightarrow> 'r \<Rightarrow> bool" where
  "decodes c obj r \<longleftrightarrow> (\<forall>key h. as_hash (obj r (store_k c key)) = Some h \<longrightarrow> decodable (codec c) h)"

definition redis_linked :: "('r, 'v::zero) rstore \<Rightarrow> ('r \<Rightarrow> string \<Rightarrow> robj) \<Rightarrow> 'r l2state \<Rightarrow> 'v vstore \<Rightarrow> bool" where
  "redis_linked c obj s b \<longleftrightarrow> keyspace c obj (server s) \<and> decodes c obj (server s)
     \<and> cells b = (\<lambda>key. cell_of (codec c) (obj (server s) (store_k c key)))"

text \<open>No key has come to version \<open>2 ^ 53\<close>.\<close>

definition uncrowded :: "('r, 'v) rstore \<Rightarrow> ('r \<Rightarrow> string \<Rightarrow> robj) \<Rightarrow> 'r \<Rightarrow> bool" where
  "uncrowded c obj r \<longleftrightarrow> (\<forall>key h. as_hash (obj r (store_k c key)) = Some h \<longrightarrow> stored_version h < 2 ^ 53)"

definition redis_ready ::
  "('r, 'v::zero) rstore \<Rightarrow> ('r \<Rightarrow> string \<Rightarrow> robj) \<Rightarrow> ('r \<Rightarrow> nat) \<Rightarrow> 'r l2state \<Rightarrow> 'v vstore \<Rightarrow> bool" where
  "redis_ready c obj micros s b \<longleftrightarrow> redis_linked c obj s b \<and> uncrowded c obj (server s) \<and> in_i64 (wall s)
     \<and> vclock b = wall s \<and> vseed b = of_nat (seed (micros (server s)))"

definition faithful :: "'v codec \<Rightarrow> bool" where
  "faithful cd \<longleftrightarrow> (\<forall>v. \<exists>b. Encode cd v = Inr b \<and> Decode cd b = Inr v)"

lemma quiet_netD: "quiet_net c \<Longrightarrow> net c n = Reached" "quiet_net c \<Longrightarrow> world c n = id"
  by (simp_all add: quiet_net_def)

section \<open>Tags do not matter for the entries\<close>

lemma do_multi_ok:
  "(\<And>m s. m \<in> set ms \<Longrightarrow> fst (run_state m s) = Inr ()) \<Longrightarrow> fst (run_state (do_multi ms) s) = None"
  by (induction ms arbitrary: s) (simp_all add: split_beta)

lemma addTags_ok: "quiet_net c \<Longrightarrow> fst (run_state (addTags c key ts) s) = None"
  unfolding addTags_def by (rule do_multi_ok) (auto simp: tag_cmds_def run_send_quiet split: if_splits)

lemma SetCAS_tags:
  assumes "quiet_net c"
  shows "fst (run_state (redis_SetCAS c key v x fu su ts) s) = fst (run_state (redis_SetCAS c key v x fu su []) s)"
    and "\<exists>ts'. server (snd (run_state (redis_SetCAS c key v x fu su ts) s)) =
      server (snd (run_state (addTags c key ts') (snd (run_state (redis_SetCAS c key v x fu su []) s))))"
proof -
  have [simp]: "run_state (addTags c key []) s = (None, s)" for s by (simp add: addTags_def)
  show "fst (run_state (redis_SetCAS c key v x fu su ts) s) = fst (run_state (redis_SetCAS c key v x fu su []) s)"
    by (auto simp: redis_SetCAS_def run_send_quiet [OF assms] split_beta addTags_ok [OF assms] split: sum.split option.split)
  show "\<exists>ts'. server (snd (run_state (redis_SetCAS c key v x fu su ts) s)) =
      server (snd (run_state (addTags c key ts') (snd (run_state (redis_SetCAS c key v x fu su []) s))))"
  proof (cases "\<exists>e. fst (run_state (redis_SetCAS c key v x fu su []) s) = Inr e")
    case True
    then show ?thesis
      by (intro exI [of _ ts]) (auto simp: redis_SetCAS_def run_send_quiet [OF assms] split_beta split: sum.splits option.splits if_splits)
  next
    case False
    then show ?thesis
      by (intro exI [of _ "[]"]) (auto simp: redis_SetCAS_def run_send_quiet [OF assms] split_beta split: sum.splits option.splits if_splits)
  qed
qed

lemma vs_SetCAS_tags:
  "fst (vs_SetCAS k v x fu su ts b) = fst (vs_SetCAS k v x fu su [] b)"
  "cells (snd (vs_SetCAS k v x fu su ts b)) = cells (snd (vs_SetCAS k v x fu su [] b))"
  by (simp_all add: vs_SetCAS_def Let_def)

lemma vs_cells:
  assumes "cells b = cells b'" "vclock b = vclock b'" "vseed b = vseed b'"
  shows "fst (vs_SetCAS k v x fu su ts b) = fst (vs_SetCAS k v x fu su ts b')"
    "cells (snd (vs_SetCAS k v x fu su ts b)) = cells (snd (vs_SetCAS k v x fu su ts b'))"
    "fst (vs_CompareAndDelete k x b) = fst (vs_CompareAndDelete k x b')"
    "cells (snd (vs_CompareAndDelete k x b)) = cells (snd (vs_CompareAndDelete k x b'))"
  using assms by (auto simp: vs_SetCAS_def vs_CompareAndDelete_def vs_next_def Let_def split: cell.split)


section \<open>The simulation\<close>

locale redis_shared = redis_client c obj micros
  for c :: "('r, 'v::zero) rstore" and obj :: "'r \<Rightarrow> string \<Rightarrow> robj" and micros :: "'r \<Rightarrow> nat" +
  assumes quiet: "quiet_net c" and codec_ok: "faithful (codec c)"
begin

lemmas net_ok = quiet_netD(1) [OF quiet]

lemma world_id [simp]: "world c n r = r"
  by (simp add: quiet_netD(2) [OF quiet])

lemma Load_corresponds:
  assumes "redis_linked c obj s b"
  shows "run_state (redis_Load c k) s = (fst (vs_Load k b), s\<lparr>sent := Suc (sent s)\<rparr>)" "snd (vs_Load k b) = b"
proof -
  obtain h where h: "as_hash (obj (server s) (store_k c k)) = Some h" "versioned h"
    using assms keyspace_entry unfolding redis_linked_def by metis
  have d: "decodable (codec c) h" using assms h(1) unfolding redis_linked_def decodes_def by blast
  have "cells (spec_of c obj micros (wall s) (server s)) = cells b" using assms by (simp add: redis_linked_def spec_of_def)
  then have "fst (vs_Load k b) = read_fields (codec c) h"
    using spec_load [of obj "server s" c k h micros "wall s"] h(1) d by (simp add: vs_Load_def split: cell.splits)
  then show "run_state (redis_Load c k) s = (fst (vs_Load k b), s\<lparr>sent := Suc (sent s)\<rparr>)"
    using read_run [OF refl net_ok refl, of s k h] h(1) by (simp add: redis_Load_def)
  show "snd (vs_Load k b) = b" by (simp add: vs_Load_def split: cell.split)
qed

text \<open>Adding tags leaves the entries alone.\<close>

lemma addTags_entries:
  "keyspace c obj (server s) \<Longrightarrow> obj (server (snd (run_state (addTags c key ts) s))) (store_k c k) = obj (server s) (store_k c k)"
proof -
  let ?I = "\<lambda>s'. tidy s' \<and> obj (server s') (store_k c k) = obj (server s) (store_k c k)"
  have ne: "store_k c k \<noteq> store_t c tag" for tag by (rule config_apart(1) [OF configured])
  have "keeps ?I (addTags c key ts)"
    unfolding addTags_def
  proof (rule keeps_do_multi)
    fix m assume "m \<in> set (concat (map (tag_cmds c key) ts))"
    then obtain tag where m: "m \<in> set (tag_cmds c key tag)" by auto
    have sadd: "keeps ?I (send c (\<lambda>r. (Inr (), cmd_SADD (client c) (store_t c tag) key r)))"
    proof (rule hoareI)
      fix s' assume s': "?I s'"
      obtain S where "as_set (obj (server s') (store_t c tag)) = Some S" using s' by (auto elim: keyspace_tag)
      then show "?I (snd (run_state (send c (\<lambda>r. (Inr (), cmd_SADD (client c) (store_t c tag) key r))) s'))"
        using s' SADD_keyspace [OF _ configured] ne [of tag] by (simp add: run_send_quiet [OF quiet] SADD)
    qed
    have "keeps ?I (send c (\<lambda>r. (Inr (), cmd_PEXPIRE (client c) (store_t c tag) (FormatInt (Milliseconds (tagTTL c))) r)))" if pos: "0 < tagTTL c"
    proof (rule hoareI)
      fix s' assume s': "?I s'"
      obtain n where n: "FormatInt (Milliseconds (tagTTL c)) = dec n"
        by (rule Milliseconds_dec [of "tagTTL c"]) (use pos configured in \<open>auto simp: config_ok_def\<close>)
      show "?I (snd (run_state (send c (\<lambda>r. (Inr (), cmd_PEXPIRE (client c) (store_t c tag) (FormatInt (Milliseconds (tagTTL c))) r))) s'))"
        using s' PEXPIRE_keyspace [OF _ configured] ne [of tag] by (simp add: n run_send_quiet [OF quiet] PEXPIRE)
    qed
    then show "keeps ?I m" using m sadd by (auto simp: tag_cmds_def split: if_splits)
  qed
  then show "keyspace c obj (server s) \<Longrightarrow> obj (server (snd (run_state (addTags c key ts) s))) (store_k c k) = obj (server s) (store_k c k)"
    using hoare_run [of ?I "addTags c key ts" "\<lambda>_. ?I" s] by simp
qed

lemma readyD:
  assumes "redis_ready c obj micros s b"
  obtains h where "as_hash (obj (server s) (store_k c k)) = Some h" "versioned h" "stored_version h < 2 ^ 53" "decodes c obj (server s)"
    "keyspace c obj (server s)" "in_i64 (wall s)"
    "cells b = cells (spec_of c obj micros (wall s) (server s))" "vclock b = vclock (spec_of c obj micros (wall s) (server s))"
    "vseed b = vseed (spec_of c obj micros (wall s) (server s))"
proof -
  have r: "keyspace c obj (server s)" "decodes c obj (server s)" "uncrowded c obj (server s)" using assms by (simp_all add: redis_ready_def redis_linked_def)
  obtain h where h: "as_hash (obj (server s) (store_k c k)) = Some h" "versioned h" by (rule keyspace_entry [OF r(1)])
  moreover have "stored_version h < 2 ^ 53" using r(3) h(1) unfolding uncrowded_def by blast
  ultimately show thesis by (rule that) (use assms r in \<open>simp_all add: redis_ready_def redis_linked_def spec_of_def\<close>)
qed

lemma decodes_put:
  "decodes c obj r \<Longrightarrow> obj r' = (obj r)(store_k c key := Hash h) \<Longrightarrow> decodable (codec c) h \<Longrightarrow> decodes c obj r'"
  by (auto simp: decodes_def split: if_splits)

lemma SetCAS_corresponds:
  assumes r: "redis_ready c obj micros s b" and t: "in_i64 fu" "in_i64 su"
  shows "fst (run_state (redis_SetCAS c k v x fu su []) s) = fst (vs_SetCAS k v x fu su [] b)"
    "redis_linked c obj (snd (run_state (redis_SetCAS c k v x fu su []) s)) (snd (vs_SetCAS k v x fu su [] b))"
proof -
  obtain h where h: "as_hash (obj (server s) (store_k c k)) = Some h" "versioned h" "stored_version h < 2 ^ 53" "decodes c obj (server s)"
    "keyspace c obj (server s)" "in_i64 (wall s)"
    and b: "cells b = cells (spec_of c obj micros (wall s) (server s))" "vclock b = vclock (spec_of c obj micros (wall s) (server s))"
      "vseed b = vseed (spec_of c obj micros (wall s) (server s))" by (rule readyD [OF r])
  obtain e where e: "Encode (codec c) v = Inr e" "Decode (codec c) e = Inr v" using codec_ok by (auto simp: faithful_def)
  obtain res s' where run: "run_state (redis_SetCAS c k v x fu su []) s = (res, s')" by fastforce
  have w: "server s = world c (sent s) (server s)" by simp
  note ref = SetCAS_refines [OF refl net_ok w h(1-3) e h(6) t run prod.collapse [symmetric]]
  have "decodes c obj (server s')"
    using SetCAS_spec [OF refl net_ok w e(1) h(1-3) run] decodes_put [OF h(4)] h(4) e(2) by (auto simp: decodable_def split: if_splits)
  moreover have "keyspace c obj (server s')" using hoareD [OF keeps_SetCAS h(5) run] .
  ultimately show "fst (run_state (redis_SetCAS c k v x fu su []) s) = fst (vs_SetCAS k v x fu su [] b)"
    "redis_linked c obj (snd (run_state (redis_SetCAS c k v x fu su []) s)) (snd (vs_SetCAS k v x fu su [] b))"
    using run ref vs_cells [OF b] by (simp_all add: redis_linked_def spec_of_def)
qed

lemma CompareAndDelete_corresponds:
  assumes r: "redis_ready c obj micros s b"
  shows "fst (run_state (redis_CompareAndDelete c k x) s) = fst (vs_CompareAndDelete k x b)"
    "redis_linked c obj (snd (run_state (redis_CompareAndDelete c k x) s)) (snd (vs_CompareAndDelete k x b))"
proof -
  obtain h where h: "as_hash (obj (server s) (store_k c k)) = Some h" "versioned h" "stored_version h < 2 ^ 53" "decodes c obj (server s)"
    "keyspace c obj (server s)"
    and b: "cells b = cells (spec_of c obj micros (wall s) (server s))" "vclock b = vclock (spec_of c obj micros (wall s) (server s))"
      "vseed b = vseed (spec_of c obj micros (wall s) (server s))" by (rule readyD [OF r])
  obtain res s' where run: "run_state (redis_CompareAndDelete c k x) s = (res, s')" by fastforce
  have w: "server s = world c (sent s) (server s)" by simp
  have ttl: "0 \<le> tombstoneTTL c" "tombstoneTTL c < 2 ^ 63" using configured by (simp_all add: config_ok_def)
  note ref = CompareAndDelete_refines [OF refl net_ok w h(1-3) ttl run prod.collapse [symmetric]]
  have "decodes c obj (server s')"
    using CompareAndDelete_spec [OF refl net_ok w h(1,2) ttl run] decodes_put [OF h(4)] h(4) by (auto simp: decodable_def split: if_splits)
  moreover have "keyspace c obj (server s')" using hoareD [OF keeps_CompareAndDelete h(5) run] .
  ultimately show "fst (run_state (redis_CompareAndDelete c k x) s) = fst (vs_CompareAndDelete k x b)"
    "redis_linked c obj (snd (run_state (redis_CompareAndDelete c k x) s)) (snd (vs_CompareAndDelete k x b))"
    using run ref vs_cells [OF b] by (simp_all add: redis_linked_def spec_of_def)
qed

text \<open>With tags, the entries are the same.\<close>

lemma SetCAS_tags_linked:
  assumes "redis_linked c obj (snd (run_state (redis_SetCAS c k v x fu su []) s)) b" "cells b = cells b'" "tidy s"
  shows "redis_linked c obj (snd (run_state (redis_SetCAS c k v x fu su ts) s)) b'"
proof -
  let ?s0 = "snd (run_state (redis_SetCAS c k v x fu su []) s)" and ?s1 = "snd (run_state (redis_SetCAS c k v x fu su ts) s)"
  obtain ts' where ts': "server ?s1 = server (snd (run_state (addTags c k ts') ?s0))" using SetCAS_tags(2) [OF quiet] by blast
  have tidy: "keyspace c obj (server ?s1)" "keyspace c obj (server ?s0)" using hoare_run [OF keeps_SetCAS assms(3)] by simp_all
  have "obj (server ?s1) (store_k c key) = obj (server ?s0) (store_k c key)" for key
    unfolding ts' by (rule addTags_entries [OF tidy(2)])
  then show ?thesis using assms(1,2) tidy(1) by (simp add: redis_linked_def decodes_def)
qed

end

sublocale redis_shared \<subseteq> shared: l2_simulation "redis_ops c" vs_ops "redis_ready c obj micros" "redis_linked c obj" in_i64
proof
  fix a b k v x fu su ts
  show linked: "redis_ready c obj micros a b \<Longrightarrow> redis_linked c obj a b" by (simp add: redis_ready_def)
  show "redis_linked c obj a b \<Longrightarrow> \<exists>a' b'. l2_Load (redis_ops c) k a = (fst (l2_Load vs_ops k b), a') \<and> snd (l2_Load vs_ops k b) = b' \<and> redis_linked c obj a' b'"
    using Load_corresponds [of a b k] by (simp add: redis_ops_def vs_ops_def redis_linked_def)
  show "redis_ready c obj micros a b \<Longrightarrow> \<exists>a' b'. l2_Load (redis_ops c) k a = (fst (l2_Load vs_ops k b), a') \<and> snd (l2_Load vs_ops k b) = b' \<and> redis_ready c obj micros a' b'"
    using Load_corresponds [of a b k] linked by (simp add: redis_ops_def vs_ops_def redis_ready_def redis_linked_def)
  show "redis_ready c obj micros a b \<Longrightarrow> \<exists>a' b'. l2_CompareAndDelete (redis_ops c) k x a = (fst (l2_CompareAndDelete vs_ops k x b), a')
      \<and> snd (l2_CompareAndDelete vs_ops k x b) = b' \<and> redis_linked c obj a' b'"
    using CompareAndDelete_corresponds [of a b k x] by (simp add: redis_ops_def vs_ops_def prod_eq_iff)
  assume r: "redis_ready c obj micros a b" "in_i64 fu" "in_i64 su"
  have "redis_linked c obj (snd (run_state (redis_SetCAS c k v x fu su ts) a)) (snd (vs_SetCAS k v x fu su ts b))"
    using r(1) by (intro SetCAS_tags_linked [OF SetCAS_corresponds(2) [OF r]]) (simp_all add: vs_SetCAS_tags(2) [of k v x fu su ts] redis_ready_def redis_linked_def)
  then show "\<exists>a' b'. l2_SetCAS (redis_ops c) k v x fu su ts a = (fst (l2_SetCAS vs_ops k v x fu su ts b), a')
      \<and> snd (l2_SetCAS vs_ops k v x fu su ts b) = b' \<and> redis_linked c obj a' b'"
    using SetCAS_corresponds(1) [OF r, of k v x] SetCAS_tags(1) [OF quiet, of k v x fu su ts a] vs_SetCAS_tags(1) [of k v x fu su ts b] by (simp add: redis_ops_def vs_ops_def prod_eq_iff)
qed


context redis_shared
begin

lemma simulation: "l2_simulation (redis_ops c) vs_ops (redis_ready c obj micros) (redis_linked c obj) in_i64"
  by (rule shared.l2_simulation_axioms)

end

section \<open>A cache over Redis\<close>

text \<open>
  C5: The cache over Redis refines the cache over the specification. On a documented server, with nothing lost
  and nobody in between, on a keyspace below version \<open>2 ^ 53\<close> and with a codec that decodes what it
  encodes, \<open>GetOrLoad\<close>, \<open>Set\<close> (with any options) and \<open>Invalidate\<close> return over the Redis store what they
  return over the abstract versioned store that holds the same; they leave L1, counters, events and the
  rest of the state the same, and Redis holding what the abstract store then holds, for every key.
\<close>

theorem redis_cache_refines:
  assumes redis: "redis_shared rc obj micros" and c: "alone (redis_ops rc) c" "windows_fit in_i64 c (clock_now s)"
    and b: "redis_ready rc obj micros (l2_st s) b"
  shows "(run_state (GetOrLoad c key) s = (out, s') \<longrightarrow>
      (\<exists>b'. run_state (GetOrLoad (over vs_ops c) key) (with_l2 b s) = (out, with_l2 b' s') \<and> redis_linked rc obj (l2_st s') b'))
    \<and> (run_state (cache_Set c key v opts) s = (err, s') \<longrightarrow>
      (\<exists>b'. run_state (cache_Set (over vs_ops c) key v opts) (with_l2 b s) = (err, with_l2 b' s') \<and> redis_linked rc obj (l2_st s') b'))
    \<and> (run_state (Invalidate c key) s = (err, s') \<longrightarrow>
      (\<exists>b'. run_state (Invalidate (over vs_ops c) key) (with_l2 b s) = (err, with_l2 b' s') \<and> redis_linked rc obj (l2_st s') b'))"
proof -
  note sim = redis_shared.simulation [OF redis]
  show ?thesis
    using corr_run [OF l2_simulation.corr_GetOrLoad [OF sim c] refl b] corr_run [OF l2_simulation.corr_Set [OF sim c] refl b]
      corr_run [OF l2_simulation.corr_Invalidate [OF sim c(1)] refl b] by (intro conjI impI)
qed

text \<open>An empty server, integers written as tallies, and a cache over it that loads 8.\<close>

definition tally :: "int codec" where
  "tally = \<lparr>Encode = (\<lambda>v. Inr ((if v < 0 then ''-'' else []) @ replicate (nat \<bar>v\<bar>) CHR ''1'')),
     Decode = (\<lambda>s. Inr (case s of CHR ''-'' # u \<Rightarrow> - int (length u) | _ \<Rightarrow> int (length s)))\<rparr>"

definition tally_redis :: "(ref_server, int) rstore" where
  "tally_redis = redis_New (encoding_of tally) ref_redis (\<lambda>_. Reached) (\<lambda>_. id) None []"

definition tally_l2 :: "ref_server l2state" where
  "tally_l2 = \<lparr>server = \<lparr>ref_at = (\<lambda>_. RMissing), ref_us = 3000000\<rparr>, sent = 0, wall = 1000\<rparr>"

lemma tally_faithful: "faithful tally"
  unfolding faithful_def tally_def
proof
  fix v :: int
  show "\<exists>b. Encode \<lparr>Encode = (\<lambda>v. Inr ((if v < 0 then ''-'' else []) @ replicate (nat \<bar>v\<bar>) CHR ''1'')),
     Decode = (\<lambda>s. Inr (case s of CHR ''-'' # u \<Rightarrow> - int (length u) | _ \<Rightarrow> int (length s)))\<rparr> v = Inr b
   \<and> Decode \<lparr>Encode = (\<lambda>v. Inr ((if v < 0 then ''-'' else []) @ replicate (nat \<bar>v\<bar>) CHR ''1'')),
     Decode = (\<lambda>s. Inr (case s of CHR ''-'' # u \<Rightarrow> - int (length u) | _ \<Rightarrow> int (length s)))\<rparr> b = Inr v"
    by (cases "nat \<bar>v\<bar>") (auto split: list.split char.split)
qed


lemma tally_simps [simp]:
  "client tally_redis = ref_redis" "net tally_redis n = Reached" "world tally_redis n = id" "codec tally_redis = tally"
  "store_k tally_redis key = ''rc:k:'' @ key" "store_t tally_redis tag = ''rc:t:'' @ tag"
  "tombstoneTTL tally_redis = 60 * Second" "tagTTL tally_redis = 24 * Hour"
  by (simp_all add: tally_redis_def redis_New_def store_k_def store_t_def)

interpretation tally_shared: redis_shared tally_redis ref_obj ref_micros
  by unfold_locales (use reference.redis_server_axioms tally_faithful in
      \<open>simp_all add: redis_server_def config_ok_def quiet_net_def duration_defs\<close>)

lemma tally_obj: "ref_obj (server tally_l2) k = Missing"
  by (simp add: tally_l2_def ref_obj_def)

lemma tally_ready: "redis_ready tally_redis ref_obj ref_micros tally_l2 (vs_empty\<lparr>vclock := 1000, vseed := of_nat (seed 3000000)\<rparr>)"
  by (auto simp: redis_ready_def redis_linked_def keyspace_def entry_key_def versioned_def decodes_def decodable_def uncrowded_def
      stored_version_def tally_obj in_i64_def vs_empty_def cell_of_def ref_micros_def) (simp_all add: tally_l2_def)

definition tally_cache :: "(string, int, int memcache, ref_server l2state, gokey list) cache" where
  "tally_cache = demo_cache (\<lambda>_ _. Inr 8) (memory_ops demo_hash) (Some (redis_ops tally_redis)) quiet"

theorem redis_cache_refines_witness:
  "\<exists>out s' b'. run_state (GetOrLoad tally_cache ''k'') (demo_state tally_l2) = (out, s')
     \<and> run_state (GetOrLoad (over vs_ops tally_cache) ''k'') (with_l2 (vs_empty\<lparr>vclock := 1000, vseed := of_nat (seed 3000000)\<rparr>) (demo_state tally_l2))
         = (out, with_l2 b' s') \<and> redis_linked tally_redis ref_obj (l2_st s') b'"
proof -
  obtain out s' where run: "run_state (GetOrLoad tally_cache ''k'') (demo_state tally_l2) = (out, s')" by fastforce
  have c: "alone (redis_ops tally_redis) tally_cache" by (simp add: alone_def tally_cache_def)
  have w: "windows_fit in_i64 tally_cache (clock_now (demo_state tally_l2 :: (int memcache, ref_server l2state, gokey list) cstate))"
    by (simp add: windows_fit_def window_def tally_cache_def demo_state_def in_i64_def duration_defs)
  have "redis_ready tally_redis ref_obj ref_micros (l2_st (demo_state tally_l2 :: (int memcache, ref_server l2state, gokey list) cstate))
      (vs_empty\<lparr>vclock := 1000, vseed := of_nat (seed 3000000)\<rparr>)"
    using tally_ready by (simp add: demo_state_def)
  from redis_cache_refines [OF tally_shared.redis_shared_axioms c w this] run show ?thesis by blast
qed

end
