(* ===== verification/Cache_Inval.thy ===== *)
theory Cache_Inval
  imports Cache_Ops
begin

text \<open>
  Invalidation: event IDs, applying a broadcast, invalidating a key or a tag and broadcasting it in
  chunks, the local tag index, and what a reader sees after a write.
\<close>

section \<open>Event IDs\<close>

lemma hextable_inj: "i < 16 \<Longrightarrow> j < 16 \<Longrightarrow> hextable ! i = hextable ! j \<longleftrightarrow> i = j"
  by (rule nth_eq_iff_index_eq) (simp_all add: hextable_def)

lemma nibbles:
  "unat (drop_bit 4 (b :: 8 word)) = unat b div 16" "unat (take_bit 4 (b :: 8 word)) = unat b mod 16"
  by (simp_all add: drop_bit_eq_div take_bit_eq_mod unat_div_distrib unat_mod_distrib)

lemma EncodeToString_Cons:
  "EncodeToString (b # bs) = hextable ! (unat b div 16) # hextable ! (unat b mod 16) # EncodeToString bs"
  by (simp add: EncodeToString_def nibbles)

lemma EncodeToString_inj: "EncodeToString xs = EncodeToString ys \<longleftrightarrow> xs = ys"
proof (induction xs arbitrary: ys)
  case Nil
  show ?case by (cases ys) (simp_all add: EncodeToString_Cons EncodeToString_def)
next
  case (Cons x xs)
  show ?case
  proof (cases ys)
    case Nil
    then show ?thesis by (simp add: EncodeToString_Cons) (simp add: EncodeToString_def)
  next
    case (Cons y ys')
    have less: "unat b div 16 < 16" for b :: "8 word" using unsigned_less [of b, where 'a = nat] by simp
    have "x = y" if "unat x div 16 = unat y div 16" "unat x mod 16 = unat y mod 16"
      using that div_mult_mod_eq [of "unat x" 16] div_mult_mod_eq [of "unat y" 16]
      by (metis word_unat_eq_iff)
    then show ?thesis
      using Cons.IH [of ys'] Cons less by (auto simp: EncodeToString_Cons hextable_inj)
  qed
qed

section \<open>Chunks\<close>

lemma tag_chunks_spec:
  "concat (tag_chunks keys) = keys
   \<and> (\<forall>ch \<in> set (tag_chunks keys). 0 < length ch \<and> length ch \<le> 256)
   \<and> length (tag_chunks keys) = (length keys + 255) div 256"
  using chunks_spec [of 256 0 keys] by (simp add: tag_chunks_def broadcastChunk_def)

section \<open>Evicting keys from the memory store\<close>

lemma restrict_evict: "(m(k := None)) |` (- A) = m |` (- insert k A)"
  by (auto simp: restrict_map_def fun_eq_iff)

lemma delete_loop:
  assumes q: "env c = quiet" and l1: "l1 c = memory_ops h"
  shows "mem_ok h cap (l1_st s) \<Longrightarrow>
    \<exists>a n. run_state (for_each keys (\<lambda>ks. do { _ \<leftarrow> l1_call c (\<lambda>_. l1_Delete (l1 c) ks); State_Monad.return () })) s
        = ((), s\<lparr>l1_st := a, ticks := n\<rparr>)
      \<and> mem_ok h cap a \<and> mem_held h a = mem_held h (l1_st s) |` (- set keys)"
proof (induction keys arbitrary: s)
  case Nil
  then show ?case by (intro exI [of _ "l1_st s"] exI [of _ "ticks s"]) (simp add: restrict_map_def)
next
  case (Cons k keys)
  obtain err a1 where d: "mem_Delete h k (l1_st s) = (err, a1)" by force
  from mem_Delete_law [OF Cons.prems this]
  have a1: "mem_ok h cap a1" "mem_held h a1 = (mem_held h (l1_st s))(k := None)" by auto
  let ?s = "s\<lparr>ticks := Suc (ticks s), l1_st := a1\<rparr>"
  have "mem_ok h cap (l1_st ?s)" using a1 by simp
  from Cons.IH [OF this] obtain a n where
      "run_state (for_each keys (\<lambda>ks. do { _ \<leftarrow> l1_call c (\<lambda>_. l1_Delete (l1 c) ks); State_Monad.return () })) ?s
        = ((), ?s\<lparr>l1_st := a, ticks := n\<rparr>)"
      "mem_ok h cap a" "mem_held h a = mem_held h (l1_st ?s) |` (- set keys)"
    by blast
  then show ?case
    using a1 d l1 by (intro exI [of _ a] exI [of _ n])
      (simp add: run_alone [OF q] memory_ops_def restrict_evict del: restrict_fun_upd)
qed

lemma evict_loop:
  assumes q: "env c = quiet" and l1: "l1 c = memory_ops h"
  shows "mem_ok h cap (l1_st s) \<Longrightarrow>
    \<exists>a n. run_state (for_each keys (bus_evict c)) s
        = ((), s\<lparr>l1_st := a, ticks := n,
             stats := busEvicts_update (\<lambda>x. x + of_nat (length keys)) (stats s)\<rparr>)
      \<and> mem_ok h cap a \<and> mem_held h a = mem_held h (l1_st s) |` (- set keys)"
proof (induction keys arbitrary: s)
  case Nil
  then show ?case by (intro exI [of _ "l1_st s"] exI [of _ "ticks s"]) (simp add: restrict_map_def)
next
  case (Cons k keys)
  obtain err a1 where d: "mem_Delete h k (l1_st s) = (err, a1)" by force
  from mem_Delete_law [OF Cons.prems this]
  have a1: "mem_ok h cap a1" "mem_held h a1 = (mem_held h (l1_st s))(k := None)" by auto
  have step: "run_state (bus_evict c k) s =
      ((), s\<lparr>ticks := Suc (ticks s), l1_st := a1, stats := busEvicts_update (\<lambda>x. x + 1) (stats s)\<rparr>)"
    using d l1 by (simp add: bus_evict_def run_alone [OF q] memory_ops_def)
  let ?s = "s\<lparr>ticks := Suc (ticks s), l1_st := a1, stats := busEvicts_update (\<lambda>x. x + 1) (stats s)\<rparr>"
  have "mem_ok h cap (l1_st ?s)" using a1 by simp
  from Cons.IH [OF this] obtain a n where
      "run_state (for_each keys (bus_evict c)) ?s = ((), ?s\<lparr>l1_st := a, ticks := n,
        stats := busEvicts_update (\<lambda>x. x + of_nat (length keys)) (stats ?s)\<rparr>)"
      "mem_ok h cap a" "mem_held h a = mem_held h (l1_st ?s) |` (- set keys)"
    by blast
  then show ?case
    using a1 d l1 by (intro exI [of _ a] exI [of _ n])
      (simp add: step restrict_evict comp_def add.assoc del: restrict_fun_upd)
qed

section \<open>Applying a broadcast\<close>

lemma onEvent_run:
  assumes "env c = quiet" "l1 c = memory_ops h" "mem_ok h cap (l1_st s)"
    and "dedupe_st s = Some d" "Seen (ID ev) d = (dup, d')"
  shows "\<exists>a n. mem_ok h cap a \<and>
    (if closed s \<or> OriginID ev = originID c
     then run_state (onEvent c ev) s = ((), s\<lparr>ticks := n\<rparr>)
     else if dup then run_state (onEvent c ev) s = ((), s\<lparr>ticks := n, dedupe_st := Some d'\<rparr>)
     else run_state (onEvent c ev) s = ((), s\<lparr>l1_st := a, ticks := n, dedupe_st := Some d',
            stats := busEvicts_update (\<lambda>x. x + of_nat (length (Keys ev))) (stats s)\<rparr>)
       \<and> mem_held h a = mem_held h (l1_st s) |` (- set (Keys ev)))"
proof (cases "closed s \<or> OriginID ev = originID c \<or> dup")
  case True
  then show ?thesis
    using assms(3-5) by (intro exI [of _ "l1_st s"] exI [of _ "Suc (ticks s)"])
      (auto simp: onEvent_def run_alone [OF assms(1)] dedupe_Seen_def)
next
  case False
  let ?s = "s\<lparr>ticks := Suc (ticks s), dedupe_st := Some d'\<rparr>"
  have "mem_ok h cap (l1_st ?s)" using assms(3) by simp
  from evict_loop [OF assms(1,2) this, of "Keys ev"] obtain a n where
      "run_state (for_each (Keys ev) (bus_evict c)) ?s = ((), ?s\<lparr>l1_st := a, ticks := n,
        stats := busEvicts_update (\<lambda>x. x + of_nat (length (Keys ev))) (stats ?s)\<rparr>)"
      "mem_ok h cap a" "mem_held h a = mem_held h (l1_st ?s) |` (- set (Keys ev))"
    by blast
  then show ?thesis
    using False assms(4,5) by (intro exI [of _ a] exI [of _ n])
      (auto simp: onEvent_def run_alone [OF assms(1)] dedupe_Seen_def)
qed

text \<open>
  C11: applying a broadcast. A broadcast of another instance, seen for the first time, evicts exactly its
  keys from L1, whatever their versions, and counts each of them; the event is remembered. A cache
  that is closed, its own broadcasts, and redeliveries of a remembered event change nothing in L1
  and no counter. (Nothing but the L1, the seen set, the eviction counter and the tick ever changes.)
\<close>

theorem broadcast_applied:
  assumes "env c = quiet" "l1 c = memory_ops h" "mem_ok h cap (l1_st s)"
    and "dedupe_st s = Some d" "Seen (ID ev) d = (dup, d')"
  shows "\<exists>a n. mem_ok h cap a \<and>
    (if closed s \<or> OriginID ev = originID c
     then run_state (onEvent c ev) s = ((), s\<lparr>ticks := n\<rparr>)
     else if dup then run_state (onEvent c ev) s = ((), s\<lparr>ticks := n, dedupe_st := Some d'\<rparr>)
     else run_state (onEvent c ev) s = ((), s\<lparr>l1_st := a, ticks := n, dedupe_st := Some d',
            stats := busEvicts_update (\<lambda>x. x + of_nat (length (Keys ev))) (stats s)\<rparr>)
       \<and> mem_held h a = mem_held h (l1_st s) |` (- set (Keys ev)))"
  by (rule onEvent_run [OF assms])

definition demo_remote :: event where
  "demo_remote = \<lparr>ID = ''e1'', Kind = KindKey, Keys = [''k''], Tag = [], EVersion = 3, OriginID = ''B'', EmittedAt = 0\<rparr>"

lemma demo_held_ok: "mem_ok demo_hash 1 (demo_held v)"
  using mem_Set_law [OF demo_store_ok [THEN conjunct1] prod.collapse [symmetric]] by (simp add: demo_held_def)

theorem broadcast_applied_witness:
  "\<exists>s'. run_state (onEvent demo_local demo_remote) ((demo_state vs_empty)\<lparr>l1_st := demo_held 7\<rparr>) = ((), s')
     \<and> mem_held demo_hash (l1_st s') ''k'' = None \<and> busEvicts (stats s') = 1"
proof -
  let ?s = "(demo_state vs_empty)\<lparr>l1_st := demo_held 7\<rparr> :: (int memcache, int vstore, gokey list) cstate"
  have d: "env demo_local = quiet" "l1 demo_local = memory_ops demo_hash" "mem_ok demo_hash 1 (l1_st ?s)"
      "dedupe_st ?s = Some (NewDedupe 4)" "fst (Seen (ID demo_remote) (NewDedupe 4)) = False"
    by (simp_all add: demo_local_def demo_held_ok demo_state_def demo_remote_def NewDedupe_def Seen_def Let_def)
  have e: "OriginID demo_remote \<noteq> originID demo_local" "Keys demo_remote = [''k'']" "\<not> closed ?s"
      "busEvicts (stats ?s) = 0"
    by (simp_all add: demo_remote_def demo_local_def demo_state_def zero_counters_def)
  from broadcast_applied [OF d(1-4) prod.collapse [symmetric, of "Seen (ID demo_remote) (NewDedupe 4)"]]
  obtain a n where "run_state (onEvent demo_local demo_remote) ?s = ((), ?s\<lparr>l1_st := a, ticks := n,
        dedupe_st := Some (snd (Seen (ID demo_remote) (NewDedupe 4))),
        stats := busEvicts_update (\<lambda>x. x + of_nat (length (Keys demo_remote))) (stats ?s)\<rparr>)"
      "mem_held demo_hash a = mem_held demo_hash (l1_st ?s) |` (- set (Keys demo_remote))"
    using d(5) e by auto
  then show ?thesis using e by (intro exI conjI) (assumption, simp_all)
qed

section \<open>Invalidating a tag\<close>

definition tag_events ::
  "('k, 'v, 'a, 'b, 'r) cache \<Rightarrow> string \<Rightarrow> time \<Rightarrow> nat \<Rightarrow> gokey list list \<Rightarrow> event list" where
  "tag_events c tag t n chs = map (\<lambda>(i, ch). \<lparr>ID = EncodeToString (crand c i), Kind = KindTag, Keys = ch,
     Tag = tag, EVersion = 0, OriginID = originID c, EmittedAt = t\<rparr>) (List.enumerate n chs)"

lemma tag_events_simps:
  "map Keys (tag_events c tag t n chs) = chs"
  "map ID (tag_events c tag t n chs) = map (\<lambda>i. EncodeToString (crand c i)) [n..<n + length chs]"
  "ev \<in> set (tag_events c tag t n chs) \<Longrightarrow> Kind ev = KindTag \<and> Tag ev = tag \<and> OriginID ev = originID c"
  "length (tag_events c tag t n chs) = length chs"
proof -
  show "map Keys (tag_events c tag t n chs) = chs" "length (tag_events c tag t n chs) = length chs"
    by (simp_all add: tag_events_def comp_def split_def)
  show "map ID (tag_events c tag t n chs) = map (\<lambda>i. EncodeToString (crand c i)) [n..<n + length chs]"
  proof -
    have "map ID (tag_events c tag t n chs) = map (\<lambda>i. EncodeToString (crand c i)) (map fst (List.enumerate n chs))"
      by (simp add: tag_events_def comp_def split_def del: map_fst_enumerate)
    then show ?thesis by (simp only: map_fst_enumerate)
  qed
  show "ev \<in> set (tag_events c tag t n chs) \<Longrightarrow> Kind ev = KindTag \<and> Tag ev = tag \<and> OriginID ev = originID c"
    by (auto simp: tag_events_def)
qed

lemma broadcast_loop:
  assumes q: "env c = quiet" "bus c"
  shows "\<exists>n. run_state (for_each chs (broadcast c tag)) s =
     ((), s\<lparr>outbox := outbox s @ tag_events c tag (clock_now s) (id_draws s) chs, ticks := n,
            id_draws := id_draws s + length chs\<rparr>)"
proof (induction chs arbitrary: s)
  case Nil
  then show ?case by (intro exI [of _ "ticks s"]) (simp add: tag_events_def)
next
  case (Cons ch chs)
  let ?s = "snd (run_state (broadcast c tag ch) s)"
  have st: "run_state (broadcast c tag ch) s = ((), s\<lparr>outbox := outbox s @ tag_events c tag (clock_now s) (id_draws s) [ch],
      ticks := Suc (Suc (ticks s)), id_draws := Suc (id_draws s)\<rparr>)"
    using q by (simp add: broadcast_def run_alone [OF q(1)] tag_events_def)
  obtain n where "run_state (for_each chs (broadcast c tag)) ?s =
     ((), ?s\<lparr>outbox := outbox ?s @ tag_events c tag (clock_now ?s) (id_draws ?s) chs, ticks := n,
            id_draws := id_draws ?s + length chs\<rparr>)"
    using Cons.IH by blast
  then show ?case by (intro exI [of _ n]) (simp add: st tag_events_def)
qed

text \<open>The keys of a tag, resolved by the L2 or by the local index.\<close>

lemma tag_resolved:
  assumes "env c = quiet"
    and "case l2 c of
        Some L2 \<Rightarrow> fst (l2_DeleteByTag L2 tag (l2_st s)) = (keys, resErr)
      | None \<Rightarrow> keys = range_order c (case map_of (tags s) tag of None \<Rightarrow> [] | Some ks \<Rightarrow> ks) \<and> resErr = None"
  obtains s1 where "run_state (case l2 c of Some L2 \<Rightarrow> l2_call c (l2_DeleteByTag L2 tag)
        | None \<Rightarrow> do { keys \<leftarrow> take_tag c tag; State_Monad.return (keys, None) }) s = ((keys, resErr), s1)"
      "l1_st s1 = l1_st s" "outbox s1 = outbox s"
proof (cases "l2 c")
  case None
  show ?thesis using assms(2) None by (intro that [of "s\<lparr>tags := AList.delete tag (tags s)\<rparr>"]) (simp_all add: take_tag_def)
next
  case (Some L2)
  obtain b where "l2_DeleteByTag L2 tag (l2_st s) = ((keys, resErr), b)"
    using assms(2) Some by (cases "l2_DeleteByTag L2 tag (l2_st s)") auto
  then show ?thesis using Some by (intro that [of "(tick s)\<lparr>l2_st := b\<rparr>"]) (simp_all add: run_alone [OF assms(1)])
qed

lemma tag_events_carry:
  assumes "evs = tag_events c tag t n (tag_chunks keys)" "inj (crand c)"
  shows "concat (map Keys evs) = keys" "length evs = (length keys + 255) div 256" "distinct (map ID evs)"
    "\<forall>ev \<in> set evs. Kind ev = KindTag \<and> Tag ev = tag \<and> OriginID ev = originID c \<and> 0 < length (Keys ev) \<and> length (Keys ev) \<le> 256"
proof -
  show "concat (map Keys evs) = keys" "length evs = (length keys + 255) div 256"
    unfolding assms(1) tag_events_simps(1,4) using tag_chunks_spec [of keys] by simp_all
  show "distinct (map ID evs)"
    unfolding assms(1) tag_events_simps(2) using assms(2) by (auto simp: distinct_map inj_on_def EncodeToString_inj)
  have "Keys ev \<in> set (tag_chunks keys)" if "ev \<in> set evs" for ev
  proof -
    have "Keys ev \<in> set (map Keys evs)" using that by simp
    then show ?thesis unfolding assms(1) tag_events_simps(1) .
  qed
  then show "\<forall>ev \<in> set evs. Kind ev = KindTag \<and> Tag ev = tag \<and> OriginID ev = originID c \<and> 0 < length (Keys ev) \<and> length (Keys ev) \<le> 256"
    using tag_chunks_spec [of keys] tag_events_simps(3) assms(1) by blast
qed

text \<open>
  C12: \<open>InvalidateTag\<close> evicts and broadcasts everything it resolved. Whatever keys the tag index gave,
  also those of a resolution that failed half way, none of them is left in L1; the outbox gets tag
  events of this instance that carry exactly these keys in their order, in chunks of 1 to 256 keys,
  as few as possible, each under its own ID (as long as \<open>crypto/rand\<close> does not repeat itself), so that
  no receiver mistakes a chunk for a redelivery; and the error of the resolution is returned.
\<close>

theorem tag_invalidated:
  assumes "env c = quiet" "bus c" "l1 c = memory_ops h" "mem_ok h cap (l1_st s)" "\<not> closed s" "inj (crand c)"
    and "case l2 c of
        Some L2 \<Rightarrow> fst (l2_DeleteByTag L2 tag (l2_st s)) = (keys, resErr)
      | None \<Rightarrow> keys = range_order c (case map_of (tags s) tag of None \<Rightarrow> [] | Some ks \<Rightarrow> ks) \<and> resErr = None"
  shows "\<exists>s' evs. run_state (InvalidateTag c tag) s = (resErr, s') \<and> outbox s' = outbox s @ evs
    \<and> concat (map Keys evs) = keys \<and> length evs = (length keys + 255) div 256
    \<and> (\<forall>ev \<in> set evs. Kind ev = KindTag \<and> Tag ev = tag \<and> OriginID ev = originID c
          \<and> 0 < length (Keys ev) \<and> length (Keys ev) \<le> 256)
    \<and> distinct (map ID evs)
    \<and> mem_held h (l1_st s') = mem_held h (l1_st s) |` (- set keys)"
proof -
  obtain s1 where s1: "run_state (case l2 c of Some L2 \<Rightarrow> l2_call c (l2_DeleteByTag L2 tag)
        | None \<Rightarrow> do { keys \<leftarrow> take_tag c tag; State_Monad.return (keys, None) }) (tick s) = ((keys, resErr), s1)"
      "l1_st s1 = l1_st s" "outbox s1 = outbox s"
    by (rule tag_resolved [OF assms(1), where s = "tick s" and tag = tag and keys = keys and resErr = resErr])
      (use assms(7) in \<open>simp_all split: option.splits\<close>)
  have ok1: "mem_ok h cap (l1_st s1)" using assms(4) s1(2) by simp
  obtain a m where del: "run_state (for_each keys (\<lambda>ks. do { _ \<leftarrow> l1_call c (\<lambda>_. l1_Delete (l1 c) ks); State_Monad.return () })) s1
        = ((), s1\<lparr>l1_st := a, ticks := m\<rparr>)" "mem_held h a = mem_held h (l1_st s1) |` (- set keys)"
    using delete_loop [OF assms(1,3) ok1, of keys] by blast
  let ?s2 = "s1\<lparr>l1_st := a, ticks := m\<rparr>"
  let ?evs = "tag_events c tag (clock_now ?s2) (id_draws ?s2) (tag_chunks keys)"
  obtain n where bc: "run_state (for_each (tag_chunks keys) (broadcast c tag)) ?s2 =
     ((), ?s2\<lparr>outbox := outbox ?s2 @ ?evs, ticks := n, id_draws := id_draws ?s2 + length (tag_chunks keys)\<rparr>)"
    using broadcast_loop [OF assms(1,2)] by blast
  have run: "run_state (InvalidateTag c tag) s =
      (resErr, ?s2\<lparr>outbox := outbox ?s2 @ ?evs, ticks := n, id_draws := id_draws ?s2 + length (tag_chunks keys)\<rparr>)"
    using assms(5) s1(1) del(1) bc by (simp add: InvalidateTag_def run_alone [OF assms(1)])
  have "mem_held h a = mem_held h (l1_st s) |` (- set keys)" using del(2) s1(2) by simp
  then show ?thesis
    using s1(3) run tag_events_carry [OF refl assms(6), of tag "clock_now ?s2" "id_draws ?s2" keys]
    by - (rule exI, rule exI [of _ ?evs], rule conjI, assumption, simp)
qed

definition demo_tagged :: "(int memcache, int vstore, gokey list) cstate" where
  "demo_tagged = (demo_state vs_empty)\<lparr>l1_st := demo_held 7, tags := [(''t'', [''k'', ''x''])]\<rparr>"

definition demo_ids :: "(string, int, int memcache, int vstore, gokey list) cache" where
  "demo_ids = demo_local\<lparr>crand := (\<lambda>n. replicate n 1)\<rparr>"

lemma demo_ids_crand: "crand demo_ids n = replicate n 1"
  by (simp add: demo_ids_def)

theorem tag_invalidated_witness:
  "\<exists>s' evs. run_state (InvalidateTag demo_ids ''t'') demo_tagged = (None, s') \<and> outbox s' = evs
     \<and> concat (map Keys evs) = [''k'', ''x''] \<and> mem_held demo_hash (l1_st s') ''k'' = None"
proof -
  have d: "env demo_ids = quiet" "bus demo_ids" "l1 demo_ids = memory_ops demo_hash"
      "mem_ok demo_hash 1 (l1_st demo_tagged)" "\<not> closed demo_tagged"
    by (simp_all add: demo_ids_def demo_local_def demo_tagged_def demo_held_ok demo_state_def)
  have inj: "inj (crand demo_ids)" by (rule injI) (metis demo_ids_crand length_replicate)
  have res: "case l2 demo_ids of
        Some L2 \<Rightarrow> fst (l2_DeleteByTag L2 ''t'' (l2_st demo_tagged)) = ([''k'', ''x''], None)
      | None \<Rightarrow> [''k'', ''x''] = range_order demo_ids (case map_of (tags demo_tagged) ''t'' of None \<Rightarrow> [] | Some ks \<Rightarrow> ks)
          \<and> None = (None :: go_error option)"
    by (simp add: demo_ids_def demo_local_def demo_tagged_def)
  have "outbox demo_tagged = []" by (simp add: demo_tagged_def demo_state_def)
  with tag_invalidated [OF d inj res] show ?thesis by (auto simp: restrict_map_def)
qed

section \<open>Reading after writing, without an L2\<close>

lemma mem_Get_hit:
  assumes "mem_ok h cap a" "mem_held h a k = Some e" "\<not> Expired e now"
  shows "\<exists>a'. mem_Get h now k a = ((e, True, None), a')"
proof -
  obtain e' found err a' where g: "mem_Get h now k a = ((e', found, err), a')" by (metis prod_cases3 surj_pair)
  from mem_Get_law [OF assms(1) g] assms(2,3) g show ?thesis by (cases found) auto
qed

lemma index_tag_view: "map_of (index_tag ks t m) t = Some ks' \<Longrightarrow> ks \<in> set ks'"
  by (auto simp: index_tag_def split: option.splits)

lemma index_tag_keeps: "map_of m u = Some ks' \<Longrightarrow> \<exists>ks''. map_of (index_tag ks t m) u = Some ks'' \<and> set ks' \<subseteq> set ks''"
  by (auto simp: index_tag_def split: option.splits)

lemma index_tags_mem:
  "t \<in> set ts \<or> (\<exists>ks'. map_of m t = Some ks' \<and> ks \<in> set ks') \<Longrightarrow>
    \<exists>ks'. map_of (fold (index_tag ks) ts m) t = Some ks' \<and> ks \<in> set ks'"
proof (induction ts arbitrary: m)
  case (Cons u ts)
  have "t \<in> set ts \<or> (\<exists>ks'. map_of (index_tag ks u m) t = Some ks' \<and> ks \<in> set ks')"
    using Cons.prems index_tag_keeps [of m t _ ks u]
    by (auto simp: index_tag_def split: option.splits)
  then show ?case using Cons.IH by simp
qed simp

text \<open>
  C36: without an L2, a write is read back and can be invalidated by tag. After \<open>Set\<close> with tags, \<open>Get\<close>
  returns the value at any time before the entry's stale deadline, one event for the key went to the
  bus, and every tag of the write leads to the key in the local index, so that \<open>InvalidateTag\<close> of any
  of them will evict it.
\<close>

theorem local_write_read_back:
  assumes "env c = quiet" "l1 c = memory_ops h" "l2 c = None" "mem_ok h cap (l1_st s)" "\<not> closed s" "bus c"
    and "run_state (cache_Set c key val [WithTags ts]) s = (err, s1)"
    and "\<exists>fu. run_state (window c (clock_now s)) (s\<lparr>ticks := ticks s + 2\<rparr>) = ((fu, su), s\<lparr>ticks := ticks s + 2, jitter_draws := n\<rparr>)"
    and "t < su"
  shows "err = None \<and> fst (run_state (cache_Get c key) (s1\<lparr>clock_now := t\<rparr>)) = (val, True, None)
    \<and> (\<exists>ev. outbox s1 = outbox s @ [ev] \<and> Keys ev = [keyString c key] \<and> OriginID ev = originID c)
    \<and> (\<forall>tag \<in> set ts. \<exists>ks. map_of (tags s1) tag = Some ks \<and> keyString c key \<in> set ks)"
proof -
  let ?k = "keyString c key"
  obtain fu where w: "run_state (window c (clock_now s)) (s\<lparr>ticks := Suc (Suc (ticks s))\<rparr>) =
      ((fu, su), s\<lparr>ticks := Suc (Suc (ticks s)), jitter_draws := n\<rparr>)"
    using assms(8) by (auto simp: numeral_2_eq_2)
  let ?e = "\<lparr>Value = val, Version = 0, StoredAt = clock_now s, FreshUntil = fu, StaleUntil = su, Negative = False\<rparr>"
  obtain e1 a where a: "mem_Set h (clock_now s) ?k ?e (l1_st s) = (e1, a)" by force
  from mem_Set_law [OF assms(4) a] have ok: "mem_ok h cap a" "mem_held h a ?k = Some ?e" "e1 = None" by auto
  have r: "err = None" "l1_st s1 = a" "closed s1 = closed s"
      "tags s1 = (if ts = [] then tags s else fold (index_tag ?k) ts (tags s))"
      "outbox s1 = outbox s @ [key_event c ?k 0 (clock_now s) (EncodeToString (crand c (id_draws s)))]"
    using assms(2,3,5,6,7) w a ok(3)
    by (auto simp: cache_Set_def run_alone [OF assms(1)] WithTags_def indexTags_def memory_ops_def Let_def
        split: if_splits)
  obtain a' where "mem_Get h t ?k a = ((?e, True, None), a')"
    using mem_Get_hit [OF ok(1,2), of t] assms(9) by (auto simp: Expired_def)
  then have "fst (run_state (cache_Get c key) (s1\<lparr>clock_now := t\<rparr>)) = (val, True, None)"
    using r assms(2,5,9) by (simp add: cache_Get_def run_alone [OF assms(1)] memory_ops_def Expired_def)
  then show ?thesis
    using r index_tags_mem [of _ ts "tags s" ?k] by (auto simp: key_event_def)
qed

theorem local_write_read_back_witness:
  "\<exists>s1. run_state (cache_Set demo_local ''k'' 7 [WithTags [''t'']]) (demo_state vs_empty) = (None, s1)
     \<and> fst (run_state (cache_Get demo_local ''k'') (s1\<lparr>clock_now := 1149\<rparr>)) = (7, True, None)"
proof -
  obtain err s1 where run: "run_state (cache_Set demo_local ''k'' 7 [WithTags [''t'']]) (demo_state vs_empty) = (err, s1)"
    by force
  have d: "env demo_local = quiet" "l1 demo_local = memory_ops demo_hash" "l2 demo_local = None"
      "mem_ok demo_hash 1 (l1_st (demo_state vs_empty))" "\<not> closed (demo_state vs_empty)" "bus demo_local"
    by (simp_all add: demo_local_def demo_state_def demo_store_ok)
  have "\<exists>fu. run_state (window demo_local (clock_now (demo_state vs_empty)))
        ((demo_state vs_empty)\<lparr>ticks := ticks (demo_state vs_empty) + 2\<rparr>) =
      ((fu, 1150), (demo_state vs_empty)\<lparr>ticks := ticks (demo_state vs_empty) + 2, jitter_draws := 0\<rparr>)"
    by (simp add: window_def demo_local_def demo_state_def Let_def)
  from local_write_read_back [OF d run this, of 1149] run show ?thesis by auto
qed

text \<open>
  Negative caching without an L2. When the loader reports not-found, \<open>fill\<close> returns \<open>ErrNotFound\<close> and
  until the negative TTL is over (the fresh TTL if it is not set, a hundred years if neither is)
  \<open>GetOrLoad\<close> answers \<open>ErrNotFound\<close> without calling the loader.
\<close>

theorem negative_cached:
  assumes "env c = quiet" "l1 c = memory_ops h" "l2 c = None" "mem_ok h cap (l1_st s)" "\<not> closed s"
    and "loader c key (ticks s + 1) = Inl err" "errors_is err ErrNotFound"
    and "t < clock_now s + (if 0 < negTTL c then negTTL c else if 0 < fresh c then fresh c else noExpiry)"
  shows "\<exists>s1 s2. run_state (fill c key (keyString c key)) s = (Inl ErrNotFound, s1)
    \<and> loads (stats s1) = loads (stats s) + 1
    \<and> run_state (GetOrLoad c key) (s1\<lparr>clock_now := t\<rparr>) = (Return (Inl ErrNotFound), s2)
    \<and> loads (stats s2) = loads (stats s1)"
proof -
  let ?k = "keyString c key"
  let ?e = "negativeEntry c (clock_now s) 0"
  obtain e1 a where a: "mem_Set h (clock_now s) ?k ?e (l1_st s) = (e1, a)" by force
  from mem_Set_law [OF assms(4) a] have ok: "mem_ok h cap a" "mem_held h a ?k = Some ?e" by auto
  have fr: "Fresh ?e t" "\<not> Expired ?e t" "Negative ?e"
    using assms(8) by (auto simp: negativeEntry_def Let_def entry_time_defs split: if_splits)
  obtain a' where g: "mem_Get h t ?k a = ((?e, True, None), a')" using mem_Get_hit [OF ok fr(2)] by blast
  let ?s1 = "s\<lparr>stats := loads_update (\<lambda>n. n + 1) (stats s), ticks := ticks s + 3, l1_st := a\<rparr>"
  have f: "run_state (fill c key ?k) s = (Inl ErrNotFound, ?s1)"
    using assms(2,3,6,7) a by (simp add: fill_def fill_local_def run_alone [OF assms(1)] memory_ops_def numeral_eq_Suc)
  have "\<exists>s2. run_state (GetOrLoad c key) (?s1\<lparr>clock_now := t\<rparr>) = (Return (Inl ErrNotFound), s2)
      \<and> loads (stats s2) = loads (stats ?s1)"
    using assms(2,5) g fr by (simp add: GetOrLoad_def run_alone [OF assms(1)] memory_ops_def Let_def)
  then show ?thesis using f by - (rule exI [of _ ?s1], auto)
qed

theorem negative_cached_witness:
  "\<exists>s1 s2. run_state (fill (demo_cache (\<lambda>_ _. Inl ErrNotFound) (memory_ops demo_hash) None quiet) ''k'' ''k'')
        (demo_state ()) = (Inl ErrNotFound, s1)
     \<and> run_state (GetOrLoad (demo_cache (\<lambda>_ _. Inl ErrNotFound) (memory_ops demo_hash) None quiet) ''k'')
        (s1\<lparr>clock_now := 1009\<rparr>) = (Return (Inl ErrNotFound), s2) \<and> loads (stats s2) = 1"
proof -
  let ?c = "demo_cache (\<lambda>_ _. Inl ErrNotFound) (memory_ops demo_hash) None quiet"
  let ?s = "demo_state () :: (int memcache, unit, gokey list) cstate"
  have "loads (stats ?s) = 0" by (simp add: demo_state_def zero_counters_def)
  moreover have d: "env ?c = quiet" "l1 ?c = memory_ops demo_hash" "l2 ?c = None" "mem_ok demo_hash 1 (l1_st ?s)"
      "\<not> closed ?s" "loader ?c ''k'' (ticks ?s + 1) = Inl ErrNotFound" "errors_is ErrNotFound ErrNotFound"
      "1009 < clock_now ?s + (if 0 < negTTL ?c then negTTL ?c else if 0 < fresh ?c then fresh ?c else noExpiry)"
    by (simp_all add: demo_state_def demo_store_ok)
  ultimately show ?thesis using negative_cached [OF d] by auto
qed

end
