(* ===== verification/Fleet_Node.thy ===== *)
theory Fleet_Node
  imports Cache_Inval
begin

text \<open>
  One instance of a fleet: a cache over the memory store and the shared versioned store of theory
  \<open>Versioned_Spec\<close>. For every method of cache.go, run to its end, this theory says what it may have
  done: to the shared tier (\<open>l2_post\<close>), to the instance's own L1 (\<open>l1_post\<close>) and to the bus
  (\<open>out_post\<close>). Theory \<open>Fleet\<close> puts many instances together.
\<close>

section \<open>What a method does to the shared tier and to its own L1\<close>

text \<open>
  \<open>roomy\<close>: the versions of the store are below \<open>2 ^ 53\<close>, where the Redis scripts are exact, and a tag
  lists a key once. \<open>dated\<close>: whatever an L1 holds is older than the next version of its key.
\<close>

abbreviation fresh_live :: "'v vstore \<Rightarrow> gokey \<Rightarrow> time \<Rightarrow> bool" where
  "fresh_live b k t \<equiv> \<exists>e. cells b k = Live e \<and> Fresh e t"

definition roomy :: "'v vstore \<Rightarrow> bool" where
  "roomy b \<longleftrightarrow> vseed b < 2 ^ 53 \<and> (\<forall>k. cell_version (cells b k) < 2 ^ 53) \<and> (\<forall>t. distinct (tagged b t))"

definition dated :: "(gokey \<Rightarrow> u64) \<Rightarrow> 'v memcache \<Rightarrow> 'v vstore \<Rightarrow> bool" where
  "dated h a b \<longleftrightarrow> (\<forall>k e. mem_held h a k = Some e \<longrightarrow> Version e < vs_next b k)"

text \<open>
  Afterwards an L1 entry is the live entry of the shared tier, or a negative entry with the version of its
  tombstone, or it was there before and its key has not changed in the shared tier.
\<close>

definition l1_post :: "(gokey \<Rightarrow> u64) \<Rightarrow> int \<Rightarrow> 'v memcache \<Rightarrow> 'v vstore \<Rightarrow> 'v memcache \<Rightarrow> 'v vstore \<Rightarrow> bool" where
  "l1_post h cap a b a' b' \<longleftrightarrow> mem_ok h cap a'
     \<and> (\<forall>k e. mem_held h a' k = Some e \<longrightarrow> cells b' k = Live e \<or> Negative e \<and> cells b' k = Tomb (Version e)
          \<or> mem_held h a k = Some e \<and> cells b' k = cells b k)"

text \<open>
  A key changes in the shared tier only to its next version, and only if the instance has announced it
  (\<open>K\<close> are the keys of its events) or if nothing fresh was stored at it.
\<close>

definition l2_post :: "time \<Rightarrow> gokey set \<Rightarrow> 'v vstore \<Rightarrow> 'v vstore \<Rightarrow> bool" where
  "l2_post t K b b' \<longleftrightarrow> vseed b' = vseed b \<and> (\<forall>t. distinct (tagged b' t))
     \<and> (\<forall>k. cells b' k = cells b k
          \<or> cells b' k \<noteq> Absent \<and> cell_version (cells b' k) = vs_next b k \<and> (k \<in> K \<or> \<not> fresh_live b k t))"

text \<open>The events published carry the instance's ID and one fresh random ID each.\<close>

definition out_post :: "('k, 'v, 'a, 'b, 'r) cache \<Rightarrow> ('a, 'b, 'r) cstate \<Rightarrow> ('a, 'b, 'r) cstate \<Rightarrow> event list \<Rightarrow> bool" where
  "out_post c s s' evs \<longleftrightarrow> outbox s' = outbox s @ evs \<and> id_draws s' = id_draws s + length evs
     \<and> map ID evs = map (\<lambda>n. EncodeToString (crand c n)) [id_draws s ..< id_draws s']
     \<and> (\<forall>ev \<in> set evs. OriginID ev = originID c)
     \<and> dedupe_st s' = dedupe_st s \<and> clock_now s' = clock_now s \<and> (closed s \<longrightarrow> closed s')"

definition node_post ::
  "(gokey \<Rightarrow> u64) \<Rightarrow> int \<Rightarrow> ('k, 'v, 'v memcache, 'v vstore, 'r) cache \<Rightarrow>
    ('v memcache, 'v vstore, 'r) cstate \<Rightarrow> ('v memcache, 'v vstore, 'r) cstate \<Rightarrow> bool" where
  "node_post h cap c s s' \<longleftrightarrow> (\<exists>evs. out_post c s s' evs
     \<and> l1_post h cap (l1_st s) (l2_st s) (l1_st s') (l2_st s')
     \<and> l2_post (clock_now s) (\<Union>ev \<in> set evs. set (Keys ev)) (l2_st s) (l2_st s'))"

text \<open>The caches considered, and the states their methods start from.\<close>

definition member :: "(gokey \<Rightarrow> u64) \<Rightarrow> ('k, 'v::zero, 'v memcache, 'v vstore, 'r) cache \<Rightarrow> bool" where
  "member h c \<longleftrightarrow> env c = quiet \<and> l1 c = memory_ops h \<and> l2 c = Some vs_ops \<and> bus c \<and> singleflight_law (xsf_Do c)"

lemma memberD:
  "member h c \<Longrightarrow> env c = quiet" "member h c \<Longrightarrow> l1 c = memory_ops h" "member h c \<Longrightarrow> l2 c = Some vs_ops"
  "member h c \<Longrightarrow> bus c" "member h c \<Longrightarrow> singleflight_law (xsf_Do c)"
  by (simp_all add: member_def)

definition node_ok :: "(gokey \<Rightarrow> u64) \<Rightarrow> int \<Rightarrow> ('v memcache, 'v vstore, 'r) cstate \<Rightarrow> bool" where
  "node_ok h cap s \<longleftrightarrow> mem_ok h cap (l1_st s) \<and> dated h (l1_st s) (l2_st s) \<and> roomy (l2_st s)"

section \<open>Reading and filling\<close>

text \<open>A step that publishes nothing and leaves the shared tier alone.\<close>

lemma node_post_local:
  assumes "node_ok h cap s" "mem_ok h cap (l1_st s')" "mem_held h (l1_st s') \<subseteq>\<^sub>m mem_held h (l1_st s)"
    "l2_st s' = l2_st s" "outbox s' = outbox s" "id_draws s' = id_draws s" "dedupe_st s' = dedupe_st s"
    "clock_now s' = clock_now s" "closed s \<longrightarrow> closed s'"
  shows "node_post h cap c s s'"
proof -
  have "l1_post h cap (l1_st s) (l2_st s) (l1_st s') (l2_st s')"
    using assms(2-4) by (auto simp: l1_post_def map_le_def dom_def)
  moreover have "l2_post (clock_now s) {} (l2_st s) (l2_st s')"
    using assms(1,4) by (simp add: l2_post_def node_ok_def roomy_def)
  ultimately show ?thesis
    using assms(5-9) by (auto simp: node_post_def out_post_def intro!: exI [of _ "[]"])
qed

lemma run_installL1:
  assumes "member h c"
  shows "run_state (installL1 c ks e) s = ((), (tick s)\<lparr>l1_st := snd (mem_SetIfNewer h (clock_now s) ks e (l1_st s))\<rparr>)"
  by (simp add: installL1_def memberD [OF assms] memory_ops_def run_alone [OF memberD(1) [OF assms]] split: prod.split)

lemma map_le_updD: "m \<subseteq>\<^sub>m n(k \<mapsto> e) \<Longrightarrow> m j = Some d \<Longrightarrow> n j = Some d \<or> j = k \<and> d = e"
  by (metis domI fun_upd_apply map_le_def option.inject)

lemma install_held:
  assumes "mem_ok h cap a"
  shows "mem_ok h cap (snd (mem_SetIfNewer h t ks e a))"
    and "mem_held h (snd (mem_SetIfNewer h t ks e a)) k = Some d \<Longrightarrow> mem_held h a k = Some d \<or> k = ks \<and> d = e"
    and "(\<And>d. mem_held h a ks = Some d \<Longrightarrow> Version d < Version e) \<Longrightarrow> mem_held h (snd (mem_SetIfNewer h t ks e a)) ks = Some e"
proof -
  obtain b err a' where r: "mem_SetIfNewer h t ks e a = ((b, err), a')" by (metis prod.collapse)
  note law = mem_SetIfNewer_law [OF assms r]
  show "mem_ok h cap (snd (mem_SetIfNewer h t ks e a))" using law r by simp
  show "mem_held h (snd (mem_SetIfNewer h t ks e a)) k = Some d \<Longrightarrow> mem_held h a k = Some d \<or> k = ks \<and> d = e"
    using law r map_le_updD [of "mem_held h a'" "mem_held h a" ks e k d] by (cases b) auto
  show "(\<And>d. mem_held h a ks = Some d \<Longrightarrow> Version d < Version e) \<Longrightarrow> mem_held h (snd (mem_SetIfNewer h t ks e a)) ks = Some e"
    using law r by (cases b) (auto dest: leD)
qed

text \<open>Installing what the shared tier holds now at a key, after at most that key changed there.\<close>

lemma l1_post_install:
  assumes "mem_ok h cap a" "dated h a b" "cells b' ks = Live e \<or> Negative e \<and> cells b' ks = Tomb (Version e)"
    "\<And>k. k \<noteq> ks \<Longrightarrow> cells b' k = cells b k" "cells b' ks = cells b ks \<or> Version e = vs_next b ks"
  shows "l1_post h cap a b (snd (mem_SetIfNewer h t ks e a)) b'"
  unfolding l1_post_def
proof (intro conjI allI impI)
  show "mem_ok h cap (snd (mem_SetIfNewer h t ks e a))" by (rule install_held(1) [OF assms(1)])
  fix k d assume d: "mem_held h (snd (mem_SetIfNewer h t ks e a)) k = Some d"
  show "cells b' k = Live d \<or> Negative d \<and> cells b' k = Tomb (Version d) \<or> mem_held h a k = Some d \<and> cells b' k = cells b k"
  proof (cases "k = ks \<and> cells b' ks \<noteq> cells b ks")
    case True
    then have "mem_held h (snd (mem_SetIfNewer h t ks e a)) ks = Some e"
      using assms(1,2,5) by (intro install_held(3)) (auto simp: dated_def)
    then show ?thesis using d True assms(3) by auto
  next
    case False
    then have "cells b' k = cells b k" using assms(4) by (cases "k = ks") auto
    then show ?thesis using install_held(2) [OF assms(1) d] assms(3) by auto
  qed
qed


lemma vs_ops_calls [simp]:
  "l2_Load vs_ops = vs_Load" "l2_SetCAS vs_ops = vs_SetCAS" "l2_CompareAndDelete vs_ops = vs_CompareAndDelete"
  "l2_DeleteByTag vs_ops = vs_DeleteByTag" "l2_TombstoneTTL vs_ops = None"
  by (simp_all add: vs_ops_def)

text \<open>A step that publishes nothing: a fill.\<close>

lemma node_post_fill:
  assumes "s' = s\<lparr>l1_st := a, l2_st := b, ticks := n, stats := st, jitter_draws := j\<rparr>"
    "l2_post (clock_now s) {} (l2_st s) b" "l1_post h cap (l1_st s) (l2_st s) a b"
  shows "node_post h cap c s s'"
  using assms by (auto simp: node_post_def out_post_def intro!: exI [of _ "[]"])

lemma l2_post_put:
  assumes "roomy b" "cells b' = (cells b)(ks := x)" "x \<noteq> Absent" "cell_version x = vs_next b ks" "vseed b' = vseed b"
    "\<And>t. distinct (tagged b' t)" "ks \<in> K \<or> \<not> fresh_live b ks t"
  shows "l2_post t K b b'"
  using assms by (auto simp: l2_post_def)

text \<open>
  The write-back of a fill, of a value and of a missing one, with the version \<open>x\<close> that was read before the
  load. Where that version is still the current one, the key holds nothing fresh; where it is not, the
  write is refused and what the shared tier holds is installed.
\<close>

definition outdated :: "'v vstore \<Rightarrow> time \<Rightarrow> gokey \<Rightarrow> u64 \<Rightarrow> bool" where
  "outdated b t ks x \<longleftrightarrow> x \<noteq> ForceVersion \<and> (cell_version (cells b ks) \<le> x \<longrightarrow> \<not> fresh_live b ks t)"

lemma current_outdated:
  assumes "roomy b" "\<not> fresh_live b ks t" shows "outdated b t ks (cell_version (cells b ks))"
proof -
  have "cell_version (cells b ks) < 2 ^ 53" using assms(1) unfolding roomy_def by blast
  then have "cell_version (cells b ks) \<noteq> ForceVersion" by (auto simp: ForceVersion_def)
  then show ?thesis using assms(2) by (simp add: outdated_def)
qed

lemma install_live_post:
  assumes s: "node_ok h cap s" and e: "cells (l2_st s) ks = Live e"
    and s': "s' = s\<lparr>l1_st := snd (mem_SetIfNewer h t ks e (l1_st s)), l2_st := l2_st s, ticks := n, stats := st, jitter_draws := j\<rparr>"
  shows "node_post h cap c s s'"
proof -
  have "l2_post (clock_now s) {} (l2_st s) (l2_st s)" using s by (simp add: l2_post_def node_ok_def roomy_def)
  then show ?thesis using s e by (intro node_post_fill [OF s'] l1_post_install) (simp_all add: node_ok_def)
qed

lemma fill_negative_post:
  assumes c: "member h c" and s: "node_ok h cap s" and x: "outdated (l2_st s) (clock_now s) ks x"
  shows "node_post h cap c s (snd (run_state (fill_negative c vs_ops ks x (clock_now s)) (s\<lparr>stats := st, ticks := n\<rparr>)))"
proof (cases "x < cell_version (cells (l2_st s) ks)")
  case True
  note run = fill_negative_def run_alone [OF memberD(1) [OF c]] run_installL1 [OF c] memberD(3) [OF c] vs_CompareAndDelete_def Let_def
  have ok: "mem_ok h cap (l1_st s)" using s by (simp add: node_ok_def)
  show ?thesis
  proof (cases "cells (l2_st s) ks")
    case (Live e)
    then show ?thesis using True x
      by (intro install_live_post [OF s Live, where t = "clock_now s" and n = "Suc (Suc (Suc n))" and st = st and j = "jitter_draws s"]) (simp add: run vs_Load_def outdated_def)
  qed (use True x ok in \<open>auto simp: run vs_Load_def outdated_def intro!: node_post_local [OF s]\<close>)
next
  case False
  have ok: "mem_ok h cap (l1_st s)" "dated h (l1_st s) (l2_st s)" "roomy (l2_st s)" using s by (auto simp: node_ok_def)
  let ?b = "l2_st s" and ?t = "clock_now s" let ?n = "vs_next ?b ks"
  let ?b' = "?b\<lparr>cells := (cells ?b)(ks := Tomb ?n)\<rparr>" and ?e = "negativeEntry c ?t ?n"
  have e: "Negative ?e" "Version ?e = ?n" by (simp_all add: negativeEntry_def Let_def)
  have "snd (run_state (fill_negative c vs_ops ks x ?t) (s\<lparr>stats := st, ticks := n\<rparr>)) =
      s\<lparr>l1_st := snd (mem_SetIfNewer h ?t ks ?e (l1_st s)), l2_st := ?b', ticks := Suc (Suc n), stats := st, jitter_draws := jitter_draws s\<rparr>"
    using False by (simp add: fill_negative_def run_alone [OF memberD(1) [OF c]] run_installL1 [OF c] memberD(3) [OF c] vs_CompareAndDelete_def Let_def)
  moreover have "l2_post ?t {} ?b ?b'" using False x ok(3) by (intro l2_post_put) (auto simp: roomy_def outdated_def)
  ultimately show ?thesis by (rule node_post_fill) (use l1_post_install [OF ok(1,2), of ?b' ks ?e ?t] e in simp)
qed

lemma fill_value_post:
  assumes c: "member h c" and s: "node_ok h cap s" and x: "outdated (l2_st s) (clock_now s) ks x"
  shows "node_post h cap c s (snd (run_state (fill_value c vs_ops ks x (clock_now s) val) (s\<lparr>stats := st, ticks := n\<rparr>)))"
proof -
  have ok: "mem_ok h cap (l1_st s)" "dated h (l1_st s) (l2_st s)" "roomy (l2_st s)" using s by (auto simp: node_ok_def)
  let ?b = "l2_st s" and ?t = "clock_now s" let ?n = "vs_next ?b ks" and ?s1 = "s\<lparr>stats := st, ticks := n\<rparr>"
  obtain fu su j where w: "run_state (window c ?t) ?s1 = ((fu, su), ?s1\<lparr>jitter_draws := j\<rparr>)"
    using run_window_frame [of c ?t ?s1] by auto
  note run = fill_value_def w run_alone [OF memberD(1) [OF c]] run_installL1 [OF c] memberD(3) [OF c] vs_SetCAS_def Let_def
  show ?thesis
  proof (cases "x = cell_version (cells ?b ks)")
    case True
    let ?e = "\<lparr>Value = val, Version = ?n, StoredAt = vclock ?b, FreshUntil = fu, StaleUntil = su, Negative = False\<rparr>"
    let ?b' = "?b\<lparr>cells := (cells ?b)(ks := Live ?e)\<rparr>"
    have "snd (run_state (fill_value c vs_ops ks x ?t val) ?s1) =
        s\<lparr>l1_st := snd (mem_SetIfNewer h ?t ks ?e (l1_st s)), l2_st := ?b', ticks := Suc (Suc n), stats := st, jitter_draws := j\<rparr>"
      using True by (simp add: run)
    moreover have "l2_post ?t {} ?b ?b'" using True x ok(3) by (intro l2_post_put) (auto simp: roomy_def outdated_def)
    ultimately show ?thesis by (rule node_post_fill) (use l1_post_install [OF ok(1,2), of ?b' ks ?e ?t] in simp)
  next
    case False
    show ?thesis
    proof (cases "cells ?b ks")
      case (Live e)
      then show ?thesis using False x
        by (intro install_live_post [OF s Live, where t = ?t and n = "Suc (Suc (Suc n))" and st = st and j = j]) (simp add: run vs_Load_def outdated_def)
    qed (use False x ok in \<open>auto simp: run vs_Load_def outdated_def intro!: node_post_local [OF s]\<close>)
  qed
qed

lemma fill_post:
  assumes c: "member h c" and s: "node_ok h cap s"
  shows "node_post h cap c s (snd (run_state (fill c key ks) s))"
proof -
  have ok: "mem_ok h cap (l1_st s)" "dated h (l1_st s) (l2_st s)" "roomy (l2_st s)" using s by (auto simp: node_ok_def)
  note q = run_alone [OF memberD(1) [OF c]] run_installL1 [OF c] memberD(3) [OF c]
  let ?b = "l2_st s" and ?t = "clock_now s"
  show ?thesis
  proof (cases "fresh_live ?b ks ?t")
    case True
    then obtain e where e: "cells ?b ks = Live e" "Fresh e ?t" by blast
    have "snd (run_state (fill c key ks) s) = s\<lparr>l1_st := snd (mem_SetIfNewer h ?t ks e (l1_st s)), l2_st := ?b,
        ticks := ticks s + 3, stats := stats s, jitter_draws := jitter_draws s\<rparr>"
      by (simp add: fill_def q vs_Load_def e)
    moreover have "l2_post ?t {} ?b ?b" using ok(3) by (simp add: l2_post_def roomy_def)
    ultimately show ?thesis by (rule node_post_fill) (use l1_post_install [OF ok(1,2), of ?b ks e ?t] e in simp)
  next
    case False
    let ?st = "loads_update (\<lambda>n. n + 1) (stats s)"
    let ?s1 = "s\<lparr>stats := ?st, ticks := ticks s + 4\<rparr>"
    define v where "v = cell_version (cells ?b ks)"
    have load: "\<exists>e ok. vs_Load ks ?b = ((e, ok, None), ?b) \<and> Version e = v \<and> \<not> (ok \<and> Fresh e ?t)"
      using False by (cases "cells ?b ks") (auto simp: vs_Load_def v_def)
    have slow: "run_state (fill c key ks) s = (case loader c key (ticks s + 3) of
         Inl err \<Rightarrow> if errors_is err ErrNotFound then run_state (fill_negative c vs_ops ks v ?t) ?s1
                    else (Inl err, ?s1\<lparr>stats := loadErrors_update (\<lambda>n. n + 1) ?st\<rparr>)
       | Inr val \<Rightarrow> run_state (fill_value c vs_ops ks v ?t val) ?s1)"
      using load by (auto simp: fill_def q Let_def numeral_eq_Suc split: sum.split)
    have "outdated ?b ?t ks v" unfolding v_def by (rule current_outdated [OF ok(3) False])
    then show ?thesis
      using fill_negative_post [OF c s] fill_value_post [OF c s] unfolding slow
      by (auto intro!: node_post_local [OF s] simp: ok split: sum.split)
  qed
qed


lemma node_post_after:
  assumes "node_post h cap c s1 s'" "mem_held h (l1_st s1) \<subseteq>\<^sub>m mem_held h (l1_st s)" "l2_st s1 = l2_st s"
    "outbox s1 = outbox s" "id_draws s1 = id_draws s" "dedupe_st s1 = dedupe_st s" "clock_now s1 = clock_now s" "closed s1 = closed s"
  shows "node_post h cap c s s'"
proof -
  have "mem_held h (l1_st s1) k = Some e \<Longrightarrow> mem_held h (l1_st s) k = Some e" for k e
    using assms(2) by (auto simp: map_le_def dom_def)
  then show ?thesis using assms(1,3-) unfolding node_post_def out_post_def l1_post_def by fastforce
qed

lemma node_post_if:
  "(p \<Longrightarrow> node_post h cap c s x) \<Longrightarrow> (\<not> p \<Longrightarrow> node_post h cap c s y) \<Longrightarrow> node_post h cap c s (if p then x else y)"
  by simp

lemma sf_Do_state:
  assumes "singleflight_law (xsf_Do c)"
  shows "snd (run_state (sf_Do c ks fn) s) = snd (run_state fn s) \<or> snd (run_state (sf_Do c ks fn) s) = s"
proof -
  let ?g = "do { r \<leftarrow> fn; State_Monad.return (map_sum id (to_any c) r) }"
  have "snd (run_state (xsf_Do c ks ?g) s) = snd (run_state ?g s) \<or> snd (run_state (xsf_Do c ks ?g) s) = s"
    using assms unfolding singleflight_law_def by (metis snd_conv)
  then show ?thesis by (simp add: sf_Do_def split_beta)
qed

lemma GetOrLoad_post:
  assumes c: "member h c" and s: "node_ok h cap s"
  shows "node_post h cap c s (snd (run_state (GetOrLoad c key) s))"
proof -
  note q = run_alone [OF memberD(1) [OF c]] memberD(2) [OF c]
  have ok: "mem_ok h cap (l1_st s)" using s by (simp add: node_ok_def)
  let ?ks = "keyString c key"
  obtain e f err a where g: "mem_Get h (clock_now s) ?ks (l1_st s) = ((e, f, err), a)" by (metis prod.collapse)
  have a: "mem_ok h cap a" "mem_held h a \<subseteq>\<^sub>m mem_held h (l1_st s)" using mem_Get_law [OF ok g] by auto
  define s1 where "s1 = s\<lparr>ticks := ticks s + 3, l1_st := a, stats := misses_update (\<lambda>n. n + 1) (stats s)\<rparr>"
  have s1: "node_ok h cap s1" using s a by (auto simp: s1_def node_ok_def dated_def map_le_def dom_def)
  have miss: "node_post h cap c s (snd (run_state (sf_Do c ?ks (fill c key ?ks)) s1))"
  proof -
    have "snd (run_state (sf_Do c ?ks (fill c key ?ks)) s1) = snd (run_state (fill c key ?ks) s1)
        \<or> snd (run_state (sf_Do c ?ks (fill c key ?ks)) s1) = s1"
      by (rule sf_Do_state [OF memberD(5) [OF c]])
    then show ?thesis
      using node_post_after [OF fill_post [OF c s1], of s] node_post_local [OF s, of s1] a by (auto simp: s1_def)
  qed
  have run: "snd (run_state (GetOrLoad c key) s) =
      (if closed s then tick s
       else if f \<and> Fresh e (clock_now s)
       then s\<lparr>ticks := ticks s + 3, l1_st := a, stats := (if Negative e then negHits_update (\<lambda>n. n + 1) else id) (hits_update (\<lambda>n. n + 1) (stats s))\<rparr>
       else if f \<and> \<not> Negative e \<and> Stale e (clock_now s)
       then snd (run_state (scheduleRefresh c key ?ks) (s\<lparr>ticks := ticks s + 3, l1_st := a, stats := staleHits_update (\<lambda>n. n + 1) (stats s)\<rparr>))
       else snd (run_state (sf_Do c ?ks (fill c key ?ks)) s1))"
    by (simp add: GetOrLoad_def q g memory_ops_def Let_def s1_def split_beta numeral_eq_Suc)
  show ?thesis
    unfolding run
    by (intro node_post_if; (rule miss | (rule node_post_local [OF s]; simp add: ok a scheduleRefresh_def q split_beta)))
qed


section \<open>Writing and invalidating\<close>

lemma publish_post:
  assumes "s' = s\<lparr>l1_st := a, l2_st := b, ticks := n, jitter_draws := j, id_draws := Suc (id_draws s), outbox := outbox s @ [ev]\<rparr>"
    "l1_post h cap (l1_st s) (l2_st s) a b" "l2_post (clock_now s) (set (Keys ev)) (l2_st s) b"
    "ID ev = EncodeToString (crand c (id_draws s))" "OriginID ev = originID c"
  shows "node_post h cap c s s'"
  using assms by (auto simp: node_post_def out_post_def intro!: exI [of _ "[ev]"])

text \<open>What \<open>Set\<close> stores, and the event it publishes.\<close>

lemma run_Set:
  fixes c :: "('k, 'v::zero, 'v memcache, 'v vstore, 'r) cache"
  assumes c: "member h c" and "\<not> closed s"
  obtains e b fu su j n where "run_state (window c (clock_now s)) (s\<lparr>ticks := ticks s + 2\<rparr>) = ((fu, su), s\<lparr>ticks := ticks s + 2, jitter_draws := j\<rparr>)"
    and "e = \<lparr>Value = val, Version = vs_next (l2_st s) (keyString c key), StoredAt = vclock (l2_st s), FreshUntil = fu, StaleUntil = su, Negative = False\<rparr>"
    and "cells b = (cells (l2_st s))(keyString c key := Live e)" "vseed b = vseed (l2_st s)"
      "\<And>t. tagged b t = tagged (l2_st s) t \<or> tagged b t = List.insert (keyString c key) (tagged (l2_st s) t)"
    and "run_state (cache_Set c key val opts) s = (None, s\<lparr>l1_st := snd (mem_SetIfNewer h (clock_now s) (keyString c key) e (l1_st s)), l2_st := b,
      ticks := n, jitter_draws := j, id_draws := Suc (id_draws s),
      outbox := outbox s @ [key_event c (keyString c key) (Version e) (clock_now s) (EncodeToString (crand c (id_draws s)))]\<rparr>)"
proof -
  let ?ks = "keyString c key" and ?b = "l2_st s" and ?t = "clock_now s"
  obtain fu su j where w: "run_state (window c ?t) (s\<lparr>ticks := ticks s + 2\<rparr>) = ((fu, su), s\<lparr>ticks := ticks s + 2, jitter_draws := j\<rparr>)"
    using run_window_frame [of c ?t "s\<lparr>ticks := ticks s + 2\<rparr>"] by auto
  define ts where "ts = em_tags (fold (\<lambda>f m. f m) opts \<lparr>em_tags = []\<rparr>)"
  define e where "e = \<lparr>Value = val, Version = vs_next ?b ?ks, StoredAt = vclock ?b, FreshUntil = fu, StaleUntil = su, Negative = False\<rparr>"
  define b where "b = ?b\<lparr>cells := (cells ?b)(?ks := Live e), tagged := (\<lambda>t. if t \<in> set ts then List.insert ?ks (tagged ?b t) else tagged ?b t)\<rparr>"
  have "run_state (cache_Set c key val opts) s = (None, s\<lparr>l1_st := snd (mem_SetIfNewer h ?t ?ks e (l1_st s)), l2_st := b,
      ticks := ticks s + 5, jitter_draws := j, id_draws := Suc (id_draws s),
      outbox := outbox s @ [key_event c ?ks (Version e) ?t (EncodeToString (crand c (id_draws s)))]\<rparr>)"
    using w assms(2) by (simp add: cache_Set_def run_alone [OF memberD(1) [OF c]] run_installL1 [OF c] memberD [OF c] vs_SetCAS_def
        Let_def numeral_eq_Suc b_def ts_def e_def)
  then show ?thesis by (rule that [OF w e_def, rotated -1]) (simp_all add: b_def)
qed

text \<open>A cache whose entries stay fresh for at least \<open>d\<close>, whatever the jitter draws and the cap.\<close>

definition lasting :: "duration \<Rightarrow> ('k, 'v, 'a, 'b, 'r) cache \<Rightarrow> bool" where
  "lasting d c \<longleftrightarrow> jitter_ok (jitter c) \<and> (\<forall>n. d \<le> fresh_span c n) \<and> (0 < maxTTL c \<longrightarrow> d \<le> maxTTL c)"

lemma lasting_env [simp]: "lasting d (c\<lparr>env := x\<rparr>) \<longleftrightarrow> lasting d c"
  by (simp add: lasting_def fresh_span_def split: float64.split)

lemma lasting_mono: "lasting d c \<Longrightarrow> d' \<le> d \<Longrightarrow> lasting d' c"
  unfolding lasting_def by (meson order_trans)

lemma lasting_plain:
  "jitter c = Fin 0 \<Longrightarrow> 0 < fresh c \<Longrightarrow> d \<le> fresh c \<Longrightarrow> (0 < maxTTL c \<Longrightarrow> d \<le> maxTTL c) \<Longrightarrow> lasting d c"
  by (simp add: lasting_def fresh_span_def jitter_ok_def)

lemma window_lasts:
  assumes "lasting d c" "run_state (window c t) s = ((fu, su), s')"
  shows "t + d \<le> fu"
  using run_window [of c t s] assms by (auto simp: lasting_def Let_def min_def split: if_splits)

lemma Set_stores:
  fixes c :: "('k, 'v::zero, 'v memcache, 'v vstore, 'r) cache"
  assumes "member h c" "\<not> closed s" and ok: "node_ok h cap s" and ks: "ks = keyString c key"
  shows "\<exists>e s'. run_state (cache_Set c key val opts) s = (None, s') \<and> cells (l2_st s') ks = Live e \<and> mem_held h (l1_st s') ks = Some e
    \<and> Value e = val \<and> \<not> Negative e \<and> (\<forall>d. lasting d c \<longrightarrow> clock_now s + d \<le> FreshUntil e) \<and> \<not> closed s'
    \<and> outbox s' = outbox s @ [key_event c ks (Version e) (clock_now s) (EncodeToString (crand c (id_draws s)))]"
proof (rule run_Set [OF assms(1,2), where key = key and val = val and opts = opts], goal_cases)
  case (1 e b fu su j n)
  have "mem_held h (snd (mem_SetIfNewer h (clock_now s) ks e (l1_st s))) ks = Some e"
    using ok ks by (intro install_held(3)) (auto simp: node_ok_def dated_def 1(2))
  moreover have "\<forall>d. lasting d c \<longrightarrow> clock_now s + d \<le> FreshUntil e" using window_lasts [OF _ 1(1)] by (simp add: 1(2))
  ultimately show ?case unfolding 1(6) using assms(2) ks 1(2,3) by (intro exI [of _ e] exI) auto
qed

lemma Set_post:
  assumes c: "member h c" and s: "node_ok h cap s"
  shows "node_post h cap c s (snd (run_state (cache_Set c key val opts) s))"
proof (cases "closed s")
  case True
  then show ?thesis
    using s by (auto simp: cache_Set_def run_alone [OF memberD(1) [OF c]] node_ok_def intro!: node_post_local [OF s])
next
  case False
  have ok: "mem_ok h cap (l1_st s)" "dated h (l1_st s) (l2_st s)" "roomy (l2_st s)" using s by (auto simp: node_ok_def)
  show ?thesis
  proof (rule run_Set [OF c False, where key = key and val = val and opts = opts])
    fix e b fu su j n
    assume e: "e = \<lparr>Value = val, Version = vs_next (l2_st s) (keyString c key), StoredAt = vclock (l2_st s), FreshUntil = fu, StaleUntil = su, Negative = False\<rparr>"
      and b: "cells b = (cells (l2_st s))(keyString c key := Live e)" "vseed b = vseed (l2_st s)"
        "\<And>t. tagged b t = tagged (l2_st s) t \<or> tagged b t = List.insert (keyString c key) (tagged (l2_st s) t)"
      and run: "run_state (cache_Set c key val opts) s = (None, s\<lparr>l1_st := snd (mem_SetIfNewer h (clock_now s) (keyString c key) e (l1_st s)), l2_st := b,
        ticks := n, jitter_draws := j, id_draws := Suc (id_draws s),
        outbox := outbox s @ [key_event c (keyString c key) (Version e) (clock_now s) (EncodeToString (crand c (id_draws s)))]\<rparr>)"
    have "distinct (tagged b t)" for t using b(3) [of t] ok(3) by (auto simp: roomy_def)
    then have "l2_post (clock_now s) {keyString c key} (l2_st s) b"
      using ok(3) b(1,2) e by (intro l2_post_put [where x = "Live e"]) auto
    moreover have "l1_post h cap (l1_st s) (l2_st s) (snd (mem_SetIfNewer h (clock_now s) (keyString c key) e (l1_st s))) b"
      using ok b(1) e by (intro l1_post_install) simp_all
    ultimately show ?thesis unfolding run snd_conv by (intro publish_post [OF refl]) (simp_all add: key_event_def)
  qed
qed

lemma Invalidate_post:
  assumes c: "member h c" and s: "node_ok h cap s"
  shows "node_post h cap c s (snd (run_state (Invalidate c key) s))"
proof (cases "closed s")
  case True
  then show ?thesis
    using s by (auto simp: Invalidate_def run_alone [OF memberD(1) [OF c]] node_ok_def intro!: node_post_local [OF s])
next
  case False
  let ?ks = "keyString c key" and ?b = "l2_st s" and ?t = "clock_now s"
  have ok: "mem_ok h cap (l1_st s)" "roomy ?b" using s by (auto simp: node_ok_def)
  define b' where "b' = ?b\<lparr>cells := (cells ?b)(?ks := Tomb (vs_next ?b ?ks))\<rparr>"
  obtain err a where d: "mem_Delete h ?ks (l1_st s) = (err, a)" by (metis prod.collapse)
  let ?ev = "key_event c ?ks (vs_next ?b ?ks) ?t (EncodeToString (crand c (id_draws s)))"
  have "snd (run_state (Invalidate c key) s) = s\<lparr>l1_st := a, l2_st := b',
      ticks := ticks s + 5, jitter_draws := jitter_draws s, id_draws := Suc (id_draws s), outbox := outbox s @ [?ev]\<rparr>"
    using d False by (simp add: Invalidate_def run_alone [OF memberD(1) [OF c]] memberD [OF c] vs_CompareAndDelete_def
        Let_def numeral_eq_Suc b'_def memory_ops_def)
  moreover have "l1_post h cap (l1_st s) ?b a b'"
    using mem_Delete_law [OF ok(1) d] by (auto simp: l1_post_def b'_def split: if_splits)
  moreover have "l2_post ?t (set (Keys ?ev)) ?b b'"
    using ok(2) by (intro l2_post_put) (auto simp: b'_def key_event_def roomy_def)
  ultimately show ?thesis by (rule publish_post) (simp_all add: key_event_def)
qed

text \<open>Deleting by tag leaves a tombstone of the next version at each key of the tag.\<close>

lemma DeleteByTag_cells:
  "distinct ks \<Longrightarrow> fold (\<lambda>k b. snd (vs_CompareAndDelete k ForceVersion b)) ks b =
     b\<lparr>cells := (\<lambda>k. if k \<in> set ks then Tomb (vs_next b k) else cells b k)\<rparr>"
proof (induction ks arbitrary: b)
  case (Cons k ks)
  let ?b = "b\<lparr>cells := (cells b)(k := Tomb (vs_next b k))\<rparr>"
  have "fold (\<lambda>k b. snd (vs_CompareAndDelete k ForceVersion b)) (k # ks) b
      = ?b\<lparr>cells := (\<lambda>j. if j \<in> set ks then Tomb (vs_next ?b j) else cells ?b j)\<rparr>"
    using Cons by (simp add: vs_CompareAndDelete_def Let_def)
  moreover have "vs_next ?b j = vs_next b j" if "j \<in> set ks" for j using that Cons.prems by (auto simp: vs_next_def split: cell.split)
  ultimately show ?case using Cons.prems by (auto simp: fun_eq_iff)
qed simp

lemma InvalidateTag_post:
  assumes c: "member h c" and s: "node_ok h cap s"
  shows "node_post h cap c s (snd (run_state (InvalidateTag c tag) s))"
proof (cases "closed s")
  case True
  then show ?thesis
    using s by (auto simp: InvalidateTag_def run_alone [OF memberD(1) [OF c]] node_ok_def intro!: node_post_local [OF s])
next
  case False
  let ?b = "l2_st s" and ?keys = "tagged (l2_st s) tag"
  have ok: "mem_ok h cap (l1_st s)" "roomy ?b" "distinct ?keys" using s by (auto simp: node_ok_def roomy_def)
  define b' where "b' = ?b\<lparr>tagged := (tagged ?b)(tag := []), cells := (\<lambda>k. if k \<in> set ?keys then Tomb (vs_next ?b k) else cells ?b k)\<rparr>"
  have nx: "vs_next (?b\<lparr>tagged := x\<rparr>) k = vs_next ?b k" for x k by (simp add: vs_next_def split: cell.split)
  have gone: "vs_DeleteByTag tag ?b = ((?keys, None), b')"
    using DeleteByTag_cells [OF ok(3), of "?b\<lparr>tagged := (tagged ?b)(tag := [])\<rparr>"] by (simp add: vs_DeleteByTag_def nx b'_def cong: if_cong)
  define s1 where "s1 = s\<lparr>ticks := ticks s + 2, l2_st := b'\<rparr>"
  have ok1: "mem_ok h cap (l1_st s1)" using ok(1) by (simp add: s1_def)
  obtain a m where del: "run_state (for_each ?keys (\<lambda>ks. do { _ \<leftarrow> l1_call c (\<lambda>_. l1_Delete (l1 c) ks); State_Monad.return () })) s1
        = ((), s1\<lparr>l1_st := a, ticks := m\<rparr>)" "mem_ok h cap a" "mem_held h a = mem_held h (l1_st s1) |` (- set ?keys)"
    using delete_loop [OF memberD(1,2) [OF c] ok1, of ?keys] by blast
  let ?s2 = "s1\<lparr>l1_st := a, ticks := m\<rparr>"
  define evs where "evs = tag_events c tag (clock_now s) (id_draws s) (tag_chunks ?keys)"
  obtain n where bc: "run_state (for_each (tag_chunks ?keys) (broadcast c tag)) ?s2 =
     ((), ?s2\<lparr>outbox := outbox s @ evs, ticks := n, id_draws := id_draws s + length (tag_chunks ?keys)\<rparr>)"
    using broadcast_loop [OF memberD(1,4) [OF c], where tag = tag and chs = "tag_chunks ?keys" and s = ?s2] by (auto simp: evs_def s1_def)
  have run: "snd (run_state (InvalidateTag c tag) s) = ?s2\<lparr>outbox := outbox s @ evs, ticks := n, id_draws := id_draws s + length (tag_chunks ?keys)\<rparr>"
    using False del(1) bc by (simp add: InvalidateTag_def run_alone [OF memberD(1) [OF c]] memberD(3) [OF c] gone s1_def)
  have keys: "(\<Union>ev \<in> set evs. set (Keys ev)) = set ?keys"
  proof -
    have "set (concat (map Keys evs)) = set ?keys"
      unfolding evs_def tag_events_simps(1) using tag_chunks_spec [of ?keys] by simp
    then show ?thesis by simp
  qed
  have "out_post c s (snd (run_state (InvalidateTag c tag) s)) evs"
    unfolding run out_post_def by (auto simp: evs_def s1_def tag_events_simps)
  moreover have "l1_post h cap (l1_st s) ?b a b'"
    using del(2,3) by (auto simp: l1_post_def b'_def s1_def restrict_map_def split: if_splits)
  moreover have "l2_post (clock_now s) (set ?keys) ?b b'" using ok by (auto simp: l2_post_def b'_def roomy_def)
  ultimately show ?thesis
    unfolding node_post_def by (intro exI [of _ evs]) (simp add: run keys s1_def)
qed


section \<open>Every call\<close>

fun is_event :: "('k, 'v) cache_call \<Rightarrow> bool" where
  "is_event (CEvent ev) = True"
| "is_event _ = False"

lemma cache_do_post:
  assumes c: "member h c" and s: "node_ok h cap s" and call: "\<not> is_event call"
  shows "node_post h cap c s (snd (run_state (cache_do c call) s))"
proof -
  note q = run_alone [OF memberD(1) [OF c]] memberD(2) [OF c]
  have ok: "mem_ok h cap (l1_st s)" using s by (simp add: node_ok_def)
  have get: "node_post h cap c s (snd (run_state (cache_Get c key) s))" for key
  proof -
    obtain e f err a where g: "mem_Get h (clock_now s) (keyString c key) (l1_st s) = ((e, f, err), a)" by (metis prod.collapse)
    have "mem_ok h cap a" "mem_held h a \<subseteq>\<^sub>m mem_held h (l1_st s)" using mem_Get_law [OF ok g] by auto
    then show ?thesis
      by (intro node_post_local [OF s]) (simp_all add: cache_Get_def q g memory_ops_def ok split: if_split)
  qed
  have stats: "node_post h cap c s (snd (run_state (cache_Stats c) s))"
    by (rule node_post_local [OF s]) (simp_all add: cache_Stats_def q memory_ops_def ok)
  have close: "node_post h cap c s (snd (run_state (cache_Close c) s))"
    by (rule node_post_local [OF s]) (simp_all add: cache_Close_def q ok split_beta)
  show ?thesis
    using call get stats close fill_post [OF c s] GetOrLoad_post [OF c s] Set_post [OF c s] Invalidate_post [OF c s] InvalidateTag_post [OF c s]
    by (cases call) (simp_all add: refresh_run_def split_beta)
qed

end
