(* ===== verification/Fleet.thy ===== *)
theory Fleet
  imports Fleet_Node
begin

text \<open>
  A fleet: any number of instances (theory \<open>Fleet_Node\<close>) over one shared store, here the abstract versioned
  one, and one bus. An
  instance runs a method to its end, published events are delivered late, repeatedly, in any order or
  never, time passes, and entries expire from the shared store. Shown is coherence of what the
  instances hold.
\<close>

section \<open>The fleet\<close>

text \<open>
  The shared store, the time, the instances, everything published so far, and the IDs that have been
  delivered to each instance.
\<close>

record ('v, 'b, 'r) fleet_over =
  fl_l2 :: 'b
  fl_now :: time
  fl_node :: "nat \<Rightarrow> ('v memcache, 'b, 'r) cstate"
  fl_log :: "event list"
  fl_got :: "nat \<Rightarrow> string set"

type_synonym ('v, 'r) fleet = "('v, 'v vstore, 'r) fleet_over"

text \<open>Instance \<open>i\<close> runs a program, on the shared store and at the time of the fleet.\<close>

definition at_node ::
  "nat \<Rightarrow> ('v memcache, 'b, 'r, 'x) prog \<Rightarrow> ('v, 'b, 'r) fleet_over \<Rightarrow> 'x \<times> ('v, 'b, 'r) fleet_over" where
  "at_node i m f =
     (let (x, s) = run_state m ((fl_node f i)\<lparr>l2_st := fl_l2 f, clock_now := fl_now f, outbox := []\<rparr>)
      in (x, f\<lparr>fl_l2 := l2_st s, fl_node := (fl_node f)(i := s), fl_log := fl_log f @ outbox s\<rparr>))"

definition on_node ::
  "('k, 'v::zero, 'v memcache, 'b, 'r) cache \<Rightarrow> nat \<Rightarrow> ('k, 'v) cache_call \<Rightarrow>
    ('v, 'b, 'r) fleet_over \<Rightarrow> ('v, 'b, 'r) fleet_over" where
  "on_node c i call f = snd (at_node i (cache_do c call) f)"

definition deliver ::
  "('k, 'v::zero, 'v memcache, 'b, 'r) cache \<Rightarrow> nat \<Rightarrow> event \<Rightarrow>
    ('v, 'b, 'r) fleet_over \<Rightarrow> ('v, 'b, 'r) fleet_over" where
  "deliver c i ev f = (on_node c i (CEvent ev) f)\<lparr>fl_got := (fl_got f)(i := insert (ID ev) (fl_got f i))\<rparr>"

definition expire :: "gokey \<Rightarrow> u64 \<Rightarrow> ('v, 'r) fleet \<Rightarrow> ('v, 'r) fleet" where
  "expire k sd f = f\<lparr>fl_l2 := (fl_l2 f)\<lparr>cells := (cells (fl_l2 f))(k := Absent), vseed := sd\<rparr>\<rparr>"

text \<open>\<open>crypto/rand\<close> repeats itself nowhere in the fleet, and the instances have different IDs.\<close>

definition apart :: "(nat \<Rightarrow> ('k, 'v, 'a, 'b, 'r) cache) \<Rightarrow> bool" where
  "apart C \<longleftrightarrow> (\<forall>i j m n. crand (C i) m = crand (C j) n \<longrightarrow> i = j \<and> m = n) \<and> (\<forall>i j. originID (C i) = originID (C j) \<longrightarrow> i = j)"

text \<open>
  A key that is not freshly live may expire; the store then seeds its next version above all that the key
  has had (as the seed from the server's clock does, theory \<open>Redis_Versions\<close>). With time the seed may grow.
  These are runs in which a method, once called, is not interrupted. The runs of theory \<open>Fleet_Loads\<close> add the
  interruption that matters most, a fill overtaken by the rest of the fleet while its loader runs; theory
  \<open>Cache_Fill\<close> puts interference between any two calls to a store, for one instance, and \<open>late_install\<close> of
  theory \<open>Fleet_Reads\<close> is a run that these steps do not have.
\<close>

inductive fleet_step :: "(nat \<Rightarrow> ('k, 'v::zero, 'v memcache, 'v vstore, 'r) cache) \<Rightarrow> ('v, 'r) fleet \<Rightarrow> ('v, 'r) fleet \<Rightarrow> bool"
  for C where
  Call: "\<not> is_event call \<Longrightarrow> roomy (fl_l2 f) \<Longrightarrow> fleet_step C f (on_node (C i) i call f)"
| Deliver: "ev \<in> set (fl_log f) \<Longrightarrow> fleet_step C f (deliver (C i) i ev f)"
| Time: "fl_now f \<le> t \<Longrightarrow> vseed (fl_l2 f) \<le> sd \<Longrightarrow> fleet_step C f (f\<lparr>fl_now := t, fl_l2 := (fl_l2 f)\<lparr>vclock := t', vseed := sd\<rparr>\<rparr>)"
| Expire: "\<not> fresh_live (fl_l2 f) k (fl_now f) \<Longrightarrow> vs_next (fl_l2 f) k \<le> sd \<Longrightarrow> vseed (fl_l2 f) \<le> sd \<Longrightarrow>
    fleet_step C f (expire k sd f)"

section \<open>Coherence\<close>

text \<open>An event that names the key and that the instance has still to receive.\<close>

definition pending :: "('k, 'v, 'a, 'b, 'c) cache \<Rightarrow> nat \<Rightarrow> gokey \<Rightarrow> ('w, 'd, 'r) fleet_over \<Rightarrow> bool" where
  "pending c i k f \<longleftrightarrow> (\<exists>ev \<in> set (fl_log f). k \<in> set (Keys ev) \<and> OriginID ev \<noteq> originID c \<and> ID ev \<notin> fl_got f i)"

definition coherent :: "(gokey \<Rightarrow> u64) \<Rightarrow> (nat \<Rightarrow> ('k, 'v, 'v memcache, 'v vstore, 'r) cache) \<Rightarrow> ('v, 'r) fleet \<Rightarrow> bool" where
  "coherent h C f \<longleftrightarrow> (\<forall>i k e. \<not> closed (fl_node f i) \<and> mem_held h (l1_st (fl_node f i)) k = Some e
      \<and> \<not> Negative e \<and> Fresh e (fl_now f) \<longrightarrow> cells (fl_l2 f) k = Live e \<or> pending (C i) i k f)"

definition ids_ok :: "(nat \<Rightarrow> ('k, 'v, 'v memcache, 'v vstore, 'r) cache) \<Rightarrow> ('v, 'r) fleet \<Rightarrow> bool" where
  "ids_ok C f \<longleftrightarrow> distinct (map ID (fl_log f))
     \<and> (\<forall>ev \<in> set (fl_log f). \<exists>i n. n < id_draws (fl_node f i) \<and> ID ev = EncodeToString (crand (C i) n))
     \<and> (\<forall>i. fl_got f i \<subseteq> ID ` set (fl_log f) \<and> (\<exists>d. dedupe_st (fl_node f i) = Some d \<and> seen d \<subseteq> fl_got f i))"

definition fleet_inv :: "(gokey \<Rightarrow> u64) \<Rightarrow> int \<Rightarrow> (nat \<Rightarrow> ('k, 'v, 'v memcache, 'v vstore, 'r) cache) \<Rightarrow> ('v, 'r) fleet \<Rightarrow> bool" where
  "fleet_inv h cap C f \<longleftrightarrow> (\<forall>i. mem_ok h cap (l1_st (fl_node f i)) \<and> dated h (l1_st (fl_node f i)) (fl_l2 f))
     \<and> coherent h C f \<and> ids_ok C f"


lemma room_succ: "v \<le> 2 ^ 53 \<Longrightarrow> v < v + 1" for v :: u64
proof -
  assume "v \<le> 2 ^ 53"
  then have "unat v \<le> 2 ^ 53" by (simp add: word_le_nat_alt)
  then have "unat (v + 1) = unat v + 1" by (simp add: unat_word_ariths)
  then show ?thesis by (simp add: word_less_nat_alt)
qed

lemma next_le: "roomy b \<Longrightarrow> vs_next b k \<le> 2 ^ 53"
  using inc_le [of "cell_version (cells b k)" "2 ^ 53"]
  by (cases "cells b k") (auto simp: roomy_def vs_next_def intro: less_imp_le dest: spec [of _ k])

lemma next_of: "cells b k \<noteq> Absent \<Longrightarrow> vs_next b k = cell_version (cells b k) + 1"
  by (simp add: vs_next_def split: cell.split)

lemma dated_l2_post:
  assumes "roomy b" "l2_post t K b b'" "dated h a b" shows "dated h a b'"
  unfolding dated_def
proof (intro allI impI)
  fix k e assume "mem_held h a k = Some e"
  then have v: "Version e < vs_next b k" using assms(3) by (simp add: dated_def)
  consider "vs_next b' k = vs_next b k" | "vs_next b' k = vs_next b k + 1"
    using assms(2) next_of [of b' k] by (cases "cells b' k = cells b k") (auto simp: l2_post_def vs_next_def split: cell.split)
  then show "Version e < vs_next b' k" using v room_succ [OF next_le [OF assms(1), of k]] by cases auto
qed

lemma dated_l1_post:
  assumes "roomy b" "l2_post t K b b'" "dated h a b" "l1_post h cap a b a' b'" shows "dated h a' b'"
  unfolding dated_def
proof (intro allI impI)
  fix k e assume "mem_held h a' k = Some e"
  then consider "mem_held h a k = Some e" | "cells b' k \<noteq> Absent" "cell_version (cells b' k) = Version e"
    using assms(4) unfolding l1_post_def by (metis cell.distinct(1,3) cell_version.simps(2,3))
  then show "Version e < vs_next b' k"
  proof cases
    case 1
    then show ?thesis using dated_l2_post [OF assms(1-3)] by (simp add: dated_def)
  next
    case 2
    have "cell_version (cells b' k) \<le> 2 ^ 53"
      using assms(1,2) next_le [OF assms(1), of k] unfolding l2_post_def roomy_def by (metis less_imp_le)
    then show ?thesis using next_of [OF 2(1)] 2(2) room_succ by simp
  qed
qed


section \<open>Coherence is kept\<close>

lemma log_drawn:
  "ids_ok C f \<Longrightarrow> x \<in> ID ` set (fl_log f) \<Longrightarrow> \<exists>i n. n < id_draws (fl_node f i) \<and> x = EncodeToString (crand (C i) n)"
  unfolding ids_ok_def by (metis imageE)

text \<open>The next ID a member draws is in nobody's window.\<close>

lemma undrawn:
  assumes "apart C" "ids_ok C f" "id_draws (fl_node f i) \<le> m"
  shows "EncodeToString (crand (C i) m) \<notin> ID ` set (fl_log f)"
proof
  assume "EncodeToString (crand (C i) m) \<in> ID ` set (fl_log f)"
  then obtain j n where n: "n < id_draws (fl_node f j)" "crand (C i) m = crand (C j) n"
    using log_drawn [OF assms(2)] by (metis EncodeToString_inj)
  then have "i = j" "m = n" using assms(1) unfolding apart_def by blast+
  then show False using n(1) assms(3) by simp
qed

lemma coherentD:
  "coherent h C f \<Longrightarrow> \<not> closed (fl_node f i) \<Longrightarrow> mem_held h (l1_st (fl_node f i)) k = Some e \<Longrightarrow> \<not> Negative e \<Longrightarrow>
    Fresh e (fl_now f) \<Longrightarrow> cells (fl_l2 f) k = Live e \<or> pending (C i) i k f"
  unfolding coherent_def by blast

text \<open>What a program of an instance changes: the instance, the shared store, and the events \<open>evs\<close> at the end of the log.\<close>

abbreviation starts :: "nat \<Rightarrow> ('v, 'b, 'r) fleet_over \<Rightarrow> ('v memcache, 'b, 'r) cstate" where
  "starts i f \<equiv> (fl_node f i)\<lparr>l2_st := fl_l2 f, clock_now := fl_now f, outbox := []\<rparr>"

lemma starts_ok: "fleet_inv h cap C f \<Longrightarrow> roomy (fl_l2 f) \<Longrightarrow> node_ok h cap (starts i f)"
  by (simp add: node_ok_def fleet_inv_def)

lemma at_node_effect:
  assumes "node_post h cap c (starts i f) (snd (run_state m (starts i f)))"
  obtains s' b evs where "snd (at_node i m f) = f\<lparr>fl_l2 := b, fl_node := (fl_node f)(i := s'), fl_log := fl_log f @ evs\<rparr>"
    "map ID evs = map (\<lambda>n. EncodeToString (crand c n)) [id_draws (fl_node f i) ..< id_draws s']"
    "id_draws (fl_node f i) \<le> id_draws s'" "dedupe_st s' = dedupe_st (fl_node f i)"
    "\<forall>ev \<in> set evs. OriginID ev = originID c" "closed (fl_node f i) \<longrightarrow> closed s'"
    "l1_post h cap (l1_st (fl_node f i)) (fl_l2 f) (l1_st s') b"
    "l2_post (fl_now f) (\<Union>ev \<in> set evs. set (Keys ev)) (fl_l2 f) b"
proof -
  define s' where "s' = snd (run_state m (starts i f))"
  have post: "node_post h cap c (starts i f) s'" using assms by (simp add: s'_def)
  have "snd (at_node i m f) = f\<lparr>fl_l2 := l2_st s', fl_node := (fl_node f)(i := s'), fl_log := fl_log f @ outbox s'\<rparr>"
    by (simp add: at_node_def s'_def Let_def split_beta)
  then show ?thesis by (rule that) (use post in \<open>auto simp: node_post_def out_post_def\<close>)
qed

text \<open>The IDs of a member's next events are new to the fleet, so that the fleet's IDs stay distinct.\<close>

lemma drawn_new:
  assumes "apart C" "ids_ok C f" "map ID evs = map (\<lambda>n. EncodeToString (crand (C i) n)) [id_draws (fl_node f i) ..< m]" "ev \<in> set evs"
  shows "ID ev \<notin> ID ` set (fl_log f)"
proof -
  have "ID ev \<in> set (map ID evs)" using assms(4) by simp
  then obtain n where "id_draws (fl_node f i) \<le> n" "ID ev = EncodeToString (crand (C i) n)" unfolding assms(3) by auto
  then show ?thesis using undrawn [OF assms(1,2)] by simp
qed

lemma ids_ok_append:
  assumes "apart C" and ids: "ids_ok C f" and evs: "map ID evs = map (\<lambda>n. EncodeToString (crand (C i) n)) [id_draws (fl_node f i) ..< id_draws s']"
    and s': "id_draws (fl_node f i) \<le> id_draws s'" "dedupe_st s' = dedupe_st (fl_node f i)"
  shows "ids_ok C (f\<lparr>fl_l2 := b, fl_node := (fl_node f)(i := s'), fl_log := fl_log f @ evs\<rparr>)" (is "ids_ok C ?g")
  unfolding ids_ok_def
proof (intro conjI ballI allI)
  have "distinct (map ID evs)" unfolding evs using assms(1) by (auto simp: distinct_map inj_on_def apart_def EncodeToString_inj)
  moreover have "ID ` set (fl_log f) \<inter> ID ` set evs = {}"
  proof (rule equals0I, elim IntE)
    fix x assume "x \<in> ID ` set (fl_log f)" "x \<in> ID ` set evs"
    then obtain ev where "ev \<in> set evs" "ID ev \<in> ID ` set (fl_log f)" by (elim imageE) simp
    then show False using drawn_new [OF assms(1) ids evs] by simp
  qed
  ultimately show "distinct (map ID (fl_log ?g))" using ids by (simp add: ids_ok_def)
  show "\<exists>d. dedupe_st (fl_node ?g j) = Some d \<and> seen d \<subseteq> fl_got ?g j" for j using ids s'(2) by (simp add: ids_ok_def)
  have "fl_got f j \<subseteq> ID ` set (fl_log f)" for j using ids by (simp add: ids_ok_def)
  then show "fl_got ?g j \<subseteq> ID ` set (fl_log ?g)" for j by (simp add: image_Un le_supI1)
  fix ev assume "ev \<in> set (fl_log ?g)"
  then consider "ev \<in> set (fl_log f)" | "ID ev \<in> set (map ID evs)" by auto
  then show "\<exists>j n. n < id_draws (fl_node ?g j) \<and> ID ev = EncodeToString (crand (C j) n)"
  proof cases
    case 1
    then obtain j n where "n < id_draws (fl_node f j)" "ID ev = EncodeToString (crand (C j) n)"
      using ids unfolding ids_ok_def by blast
    then show ?thesis using s'(1) by - (rule exI [of _ j], rule exI [of _ n], auto)
  next
    case 2
    then obtain m where "m < id_draws s'" "ID ev = EncodeToString (crand (C i) m)" unfolding evs by auto
    then show ?thesis by - (rule exI [of _ i], rule exI [of _ m], simp)
  qed
qed

lemma pending_append:
  assumes "ev \<in> set evs" "k \<in> set (Keys ev)" "OriginID ev \<noteq> originID c" "ID ev \<notin> ID ` set (fl_log f)" "fl_got f j \<subseteq> ID ` set (fl_log f)"
  shows "pending c j k (f\<lparr>fl_l2 := b, fl_node := ns, fl_log := fl_log f @ evs\<rparr>)"
  using assms by (auto simp: pending_def)

lemma coherent_append:
  assumes "apart C" and coh: "coherent h C f" and got: "\<And>j. fl_got f j \<subseteq> ID ` set (fl_log f)"
    and evs: "\<And>ev. ev \<in> set evs \<Longrightarrow> ID ev \<notin> ID ` set (fl_log f)" "\<forall>ev \<in> set evs. OriginID ev = originID (C i)"
    and s': "closed (fl_node f i) \<longrightarrow> closed s'" "l1_post h cap (l1_st (fl_node f i)) (fl_l2 f) (l1_st s') b"
    and b: "l2_post (fl_now f) (\<Union>ev \<in> set evs. set (Keys ev)) (fl_l2 f) b"
  shows "coherent h C (f\<lparr>fl_l2 := b, fl_node := (fl_node f)(i := s'), fl_log := fl_log f @ evs\<rparr>)" (is "coherent h C ?g")
  unfolding coherent_def
proof (intro allI impI, elim conjE)
  fix j k e
  assume e: "\<not> closed (fl_node ?g j)" "mem_held h (l1_st (fl_node ?g j)) k = Some e" "\<not> Negative e" "Fresh e (fl_now ?g)"
  have old: "cells (fl_l2 f) k = Live e \<or> pending (C j) j k ?g"
    if "\<not> closed (fl_node f j)" "mem_held h (l1_st (fl_node f j)) k = Some e"
    using coherentD [OF coh that e(3)] e(4) by (auto simp: pending_def)
  show "cells (fl_l2 ?g) k = Live e \<or> pending (C j) j k ?g"
  proof (cases "j = i")
    case True
    then have "b = fl_l2 ?g" "cells b k = Live e \<or> mem_held h (l1_st (fl_node f i)) k = Some e \<and> cells b k = cells (fl_l2 f) k"
      using e(2,3) s'(2) by (auto simp: l1_post_def)
    then show ?thesis using e(1) True old s'(1) by auto
  next
    case False
    then consider "cells (fl_l2 f) k = Live e" | "pending (C j) j k ?g" using old e(1,2) by auto
    then show ?thesis
    proof cases
      case 1
      then have "cells b k = Live e \<or> (\<exists>ev \<in> set evs. k \<in> set (Keys ev))" using b e(4) by (force simp: l2_post_def)
      moreover have "originID (C i) \<noteq> originID (C j)" using False assms(1) by (auto simp: apart_def)
      ultimately show ?thesis using pending_append [OF _ _ _ evs(1) got] evs(2) by fastforce
    qed simp
  qed
qed

lemma at_node_inv:
  assumes "apart C" and inv: "fleet_inv h cap C f" and room: "roomy (fl_l2 f)"
    and post: "node_post h cap (C i) (starts i f) (snd (run_state m (starts i f)))"
  shows "fleet_inv h cap C (snd (at_node i m f))"
proof -
  have ids: "ids_ok C f" and coh: "coherent h C f" using inv by (simp_all add: fleet_inv_def)
  have got: "fl_got f j \<subseteq> ID ` set (fl_log f)" for j using ids by (simp add: ids_ok_def)
  show ?thesis
  proof (rule at_node_effect [OF post], goal_cases)
    case (1 s' b evs)
    have "mem_ok h cap (l1_st (((fl_node f)(i := s')) j)) \<and> dated h (l1_st (((fl_node f)(i := s')) j)) b" for j
      using inv 1(7) dated_l1_post [OF room 1(8) _ 1(7)] dated_l2_post [OF room 1(8)] by (auto simp: fleet_inv_def l1_post_def)
    then show ?case
      using ids_ok_append [OF assms(1) ids 1(2-4), of b] coherent_append [OF assms(1) coh got drawn_new [OF assms(1) ids 1(2)] 1(5-8)]
      unfolding 1(1) fleet_inv_def by simp
  qed
qed

lemma call_post:
  assumes "member h (C i)" "fleet_inv h cap C f" "\<not> is_event call" "roomy (fl_l2 f)"
  shows "node_post h cap (C i) (starts i f) (snd (run_state (cache_do (C i) call) (starts i f)))"
  by (rule cache_do_post [OF assms(1) starts_ok [OF assms(2,4)] assms(3)])

lemma call_inv:
  assumes "member h (C i)" "apart C" "fleet_inv h cap C f" "\<not> is_event call" "roomy (fl_l2 f)"
  shows "fleet_inv h cap C (on_node (C i) i call f)"
  unfolding on_node_def by (rule at_node_inv [OF assms(2,3,5) call_post [OF assms(1,3-5)]])


lemma Seen_ids: "Seen i d = (dup, d') \<Longrightarrow> (dup \<longleftrightarrow> i \<in> seen d) \<and> seen d' \<subseteq> insert i (seen d)"
  by (auto simp: Seen_def Let_def split: if_splits)

text \<open>What the delivery of an event changes.\<close>

lemma deliver_effect:
  assumes "member h (C i)" and inv: "fleet_inv h cap C f"
  obtains s' where "deliver (C i) i ev f = f\<lparr>fl_node := (fl_node f)(i := s'), fl_got := (fl_got f)(i := insert (ID ev) (fl_got f i))\<rparr>"
    "id_draws s' = id_draws (fl_node f i)" "closed s' = closed (fl_node f i)" "loads (stats s') = loads (stats (fl_node f i))"
    "mem_ok h cap (l1_st s')" "mem_held h (l1_st s') \<subseteq>\<^sub>m mem_held h (l1_st (fl_node f i))"
    "\<exists>d. dedupe_st s' = Some d \<and> seen d \<subseteq> insert (ID ev) (fl_got f i)"
    "\<And>k e. mem_held h (l1_st s') k = Some e \<Longrightarrow> closed s' \<or> OriginID ev = originID (C i) \<or> ID ev \<in> fl_got f i \<or> k \<notin> set (Keys ev)"
proof -
  let ?s = "(fl_node f i)\<lparr>l2_st := fl_l2 f, clock_now := fl_now f, outbox := []\<rparr>"
  define s' where "s' = snd (run_state (onEvent (C i) ev) ?s)"
  obtain d where d: "dedupe_st (fl_node f i) = Some d" "seen d \<subseteq> fl_got f i" "mem_ok h cap (l1_st (fl_node f i))"
    using inv unfolding fleet_inv_def ids_ok_def by blast
  obtain dup d' where sn: "Seen (ID ev) d = (dup, d')" by (metis prod.collapse)
  obtain a n where run: "mem_ok h cap a" "if closed ?s \<or> OriginID ev = originID (C i) then run_state (onEvent (C i) ev) ?s = ((), ?s\<lparr>ticks := n\<rparr>)
      else if dup then run_state (onEvent (C i) ev) ?s = ((), ?s\<lparr>ticks := n, dedupe_st := Some d'\<rparr>)
      else run_state (onEvent (C i) ev) ?s = ((), ?s\<lparr>l1_st := a, ticks := n, dedupe_st := Some d',
             stats := busEvicts_update (\<lambda>x. x + of_nat (length (Keys ev))) (stats ?s)\<rparr>)
        \<and> mem_held h a = mem_held h (l1_st ?s) |` (- set (Keys ev))"
    using onEvent_run [OF memberD(1,2) [OF assms(1)] _ _ sn, of cap ?s] d by auto
  have s': "l2_st s' = fl_l2 f" "outbox s' = []" "id_draws s' = id_draws (fl_node f i)" "closed s' = closed (fl_node f i)"
    "loads (stats s') = loads (stats (fl_node f i))"
    "mem_ok h cap (l1_st s')" "mem_held h (l1_st s') \<subseteq>\<^sub>m mem_held h (l1_st (fl_node f i))"
    "dedupe_st s' = Some d \<or> dedupe_st s' = Some d'"
    using run d by (auto simp: s'_def map_le_def split: if_splits)
  have gone: "closed s' \<or> OriginID ev = originID (C i) \<or> ID ev \<in> fl_got f i \<or> k \<notin> set (Keys ev)"
    if "mem_held h (l1_st s') k = Some e" for k e
    using that run d(2) Seen_ids [OF sn] by (auto simp: s'_def split: if_splits)
  have seen: "\<exists>d. dedupe_st s' = Some d \<and> seen d \<subseteq> insert (ID ev) (fl_got f i)"
    using s'(8) d(2) Seen_ids [OF sn] by auto
  have "deliver (C i) i ev f = f\<lparr>fl_node := (fl_node f)(i := s'), fl_got := (fl_got f)(i := insert (ID ev) (fl_got f i))\<rparr>"
    using s'(1,2) by (simp add: deliver_def on_node_def at_node_def s'_def Let_def split_beta)
  then show ?thesis by (rule that [OF _ s'(3-7) seen gone])
qed

text \<open>A delivery leaves a key pending at an instance, unless it is the delivery of the key's event to it.\<close>

lemma pending_deliver:
  assumes "distinct (map ID (fl_log f))" "ev \<in> set (fl_log f)" "pending c j k f"
    and kept: "j = i \<Longrightarrow> OriginID ev = originID c \<or> ID ev \<in> fl_got f i \<or> k \<notin> set (Keys ev)"
  shows "pending c j k (f\<lparr>fl_node := ns, fl_got := (fl_got f)(i := insert (ID ev) (fl_got f i))\<rparr>)"
proof -
  obtain ev' where ev': "ev' \<in> set (fl_log f)" "k \<in> set (Keys ev')" "OriginID ev' \<noteq> originID c" "ID ev' \<notin> fl_got f j"
    using assms(3) by (auto simp: pending_def)
  have "ID ev' \<noteq> ID ev" if "j = i"
  proof
    assume "ID ev' = ID ev"
    then have "ev' = ev" using assms(1,2) ev'(1) by (auto simp: distinct_map dest: inj_onD)
    then show False using kept [OF that] ev' that by simp
  qed
  then show ?thesis using ev' unfolding pending_def by auto
qed

lemma ids_ok_deliver:
  assumes "ids_ok C f" "ev \<in> set (fl_log f)" "id_draws s' = id_draws (fl_node f i)"
    "\<exists>d. dedupe_st s' = Some d \<and> seen d \<subseteq> insert (ID ev) (fl_got f i)"
  shows "ids_ok C (f\<lparr>fl_node := (fl_node f)(i := s'), fl_got := (fl_got f)(i := insert (ID ev) (fl_got f i))\<rparr>)" (is "ids_ok C ?g")
proof -
  have "id_draws (fl_node ?g j) = id_draws (fl_node f j)" for j using assms(3) by simp
  moreover have "fl_got f j \<subseteq> ID ` set (fl_log f)" for j using assms(1) by (simp add: ids_ok_def)
  then have "fl_got ?g j \<subseteq> ID ` set (fl_log ?g)" for j using assms(2) by simp
  moreover have "\<exists>d. dedupe_st (fl_node ?g j) = Some d \<and> seen d \<subseteq> fl_got ?g j" for j
    using assms(1,4) by (simp add: ids_ok_def)
  moreover have "fl_log ?g = fl_log f" by simp
  ultimately show ?thesis using assms(1) unfolding ids_ok_def by metis
qed

lemma deliver_inv:
  assumes "member h (C i)" and inv: "fleet_inv h cap C f" and ev: "ev \<in> set (fl_log f)"
  shows "fleet_inv h cap C (deliver (C i) i ev f)"
proof -
  obtain s' where dv: "deliver (C i) i ev f = f\<lparr>fl_node := (fl_node f)(i := s'), fl_got := (fl_got f)(i := insert (ID ev) (fl_got f i))\<rparr>" (is "_ = ?g")
    and s': "id_draws s' = id_draws (fl_node f i)" "closed s' = closed (fl_node f i)" "mem_ok h cap (l1_st s')"
      "mem_held h (l1_st s') \<subseteq>\<^sub>m mem_held h (l1_st (fl_node f i))" "\<exists>d. dedupe_st s' = Some d \<and> seen d \<subseteq> insert (ID ev) (fl_got f i)"
    and gone: "\<And>k e. mem_held h (l1_st s') k = Some e \<Longrightarrow> closed s' \<or> OriginID ev = originID (C i) \<or> ID ev \<in> fl_got f i \<or> k \<notin> set (Keys ev)"
    using deliver_effect [OF assms(1,2), where ev = ev] by metis
  have ids: "ids_ok C f" "distinct (map ID (fl_log f))" using inv by (simp_all add: fleet_inv_def ids_ok_def)
  have sub: "mem_held h (l1_st (fl_node ?g j)) k = Some e \<Longrightarrow> mem_held h (l1_st (fl_node f j)) k = Some e" for j k e
    using s'(4) by (auto simp: map_le_def dom_def split: if_splits)
  have "coherent h C ?g"
    unfolding coherent_def
  proof (intro allI impI, elim conjE)
    fix j k e
    assume e: "\<not> closed (fl_node ?g j)" "mem_held h (l1_st (fl_node ?g j)) k = Some e" "\<not> Negative e" "Fresh e (fl_now ?g)"
    have "coherent h C f" "\<not> closed (fl_node f j)" "Fresh e (fl_now f)" using inv e(1,4) s'(2) by (auto simp: fleet_inv_def split: if_splits)
    from coherentD [OF this(1,2) sub [OF e(2)] e(3) this(3)] show "cells (fl_l2 ?g) k = Live e \<or> pending (C j) j k ?g"
    proof
      assume "pending (C j) j k f"
      moreover have "OriginID ev = originID (C j) \<or> ID ev \<in> fl_got f i \<or> k \<notin> set (Keys ev)" if "j = i" using gone [of k e] e(1,2) that by simp
      ultimately have "pending (C j) j k ?g" by (rule pending_deliver [OF ids(2) ev])
      then show ?thesis ..
    qed simp
  qed
  moreover have "ids_ok C ?g" by (rule ids_ok_deliver [OF ids(1) ev s'(1,5)])
  moreover have "mem_ok h cap (l1_st (fl_node ?g j)) \<and> dated h (l1_st (fl_node ?g j)) (fl_l2 ?g)" for j
  proof
    show "mem_ok h cap (l1_st (fl_node ?g j))" using inv s'(3) by (simp add: fleet_inv_def)
    have "dated h (l1_st (fl_node f j)) (fl_l2 f)" using inv by (simp add: fleet_inv_def)
    moreover have "fl_l2 ?g = fl_l2 f" by simp
    ultimately show "dated h (l1_st (fl_node ?g j)) (fl_l2 ?g)" unfolding dated_def using sub by metis
  qed
  ultimately show ?thesis unfolding fleet_inv_def dv by simp
qed

text \<open>Fewer fresh entries, and no change at a key that is freshly live.\<close>

lemma coherent_less:
  assumes "coherent h C f" "fl_node g = fl_node f" "fl_log g = fl_log f" "fl_got g = fl_got f"
    "fl_now f \<le> fl_now g" "\<And>k e. cells (fl_l2 f) k = Live e \<Longrightarrow> Fresh e (fl_now g) \<Longrightarrow> cells (fl_l2 g) k = Live e"
  shows "coherent h C g"
  unfolding coherent_def
proof (intro allI impI, elim conjE)
  fix i k e
  assume e: "\<not> closed (fl_node g i)" "mem_held h (l1_st (fl_node g i)) k = Some e" "\<not> Negative e" "Fresh e (fl_now g)"
  then have "cells (fl_l2 f) k = Live e \<or> pending (C i) i k f" using assms(1,2,5) unfolding coherent_def by (simp add: Fresh_def)
  then show "cells (fl_l2 g) k = Live e \<or> pending (C i) i k g" using assms(3,4,6) e(4) by (auto simp: pending_def)
qed

lemma fleet_inv_less:
  assumes "fleet_inv h cap C f" "coherent h C g" "fl_node g = fl_node f" "fl_log g = fl_log f" "fl_got g = fl_got f"
    "\<And>k. vs_next (fl_l2 f) k \<le> vs_next (fl_l2 g) k"
  shows "fleet_inv h cap C g"
proof -
  have "dated h a (fl_l2 f) \<Longrightarrow> dated h a (fl_l2 g)" for a using assms(6) unfolding dated_def by (meson less_le_trans)
  then show ?thesis using assms(1-5) by (simp add: fleet_inv_def ids_ok_def)
qed

lemma time_inv:
  assumes "fleet_inv h cap C f" "fl_now f \<le> t" "vseed (fl_l2 f) \<le> sd"
  shows "fleet_inv h cap C (f\<lparr>fl_now := t, fl_l2 := (fl_l2 f)\<lparr>vclock := t', vseed := sd\<rparr>\<rparr>)"
proof (rule fleet_inv_less [OF assms(1)])
  show "coherent h C (f\<lparr>fl_now := t, fl_l2 := (fl_l2 f)\<lparr>vclock := t', vseed := sd\<rparr>\<rparr>)"
    by (rule coherent_less [of h C f]) (use assms in \<open>simp_all add: fleet_inv_def Fresh_def\<close>)
qed (use assms(3) in \<open>simp_all add: vs_next_def split: cell.split\<close>)

lemma clock_inv:
  assumes "fleet_inv h cap C f" "fl_now f \<le> t"
  shows "fleet_inv h cap C (f\<lparr>fl_now := t, fl_l2 := (fl_l2 f)\<lparr>vclock := t'\<rparr>\<rparr>)"
  using time_inv [OF assms, of "vseed (fl_l2 f)" t'] by (cases f; cases "fl_l2 f") simp

lemma expire_inv:
  assumes "fleet_inv h cap C f" "\<not> fresh_live (fl_l2 f) k (fl_now f)" "vs_next (fl_l2 f) k \<le> sd" "vseed (fl_l2 f) \<le> sd"
  shows "fleet_inv h cap C (expire k sd f)"
proof (rule fleet_inv_less [OF assms(1)])
  show "coherent h C (expire k sd f)"
    by (rule coherent_less [of h C f]) (use assms(1,2) in \<open>auto simp: fleet_inv_def expire_def\<close>)
  show "vs_next (fl_l2 f) j \<le> vs_next (fl_l2 (expire k sd f)) j" for j
    using assms(3,4) by (auto simp: expire_def vs_next_def split: cell.split)
qed (simp_all add: expire_def)

lemma step_inv:
  assumes "\<And>i. member h (C i)" "apart C" "fleet_step C f g" "fleet_inv h cap C f"
  shows "fleet_inv h cap C g"
  using assms(3,4)
  by cases (auto intro: call_inv [OF assms(1,2)] deliver_inv [OF assms(1)] time_inv expire_inv)


section \<open>Runs\<close>

definition new_fleet :: "(gokey \<Rightarrow> u64) \<Rightarrow> int \<Rightarrow> ('v, 'b, 'r) fleet_over \<Rightarrow> bool" where
  "new_fleet h cap f \<longleftrightarrow> fl_log f = [] \<and> (\<forall>i. mem_ok h cap (l1_st (fl_node f i)) \<and> mem_held h (l1_st (fl_node f i)) = Map.empty
     \<and> fl_got f i = {} \<and> (\<exists>n. dedupe_st (fl_node f i) = Some (NewDedupe n)))"

lemma new_fleet_inv: "new_fleet h cap f \<Longrightarrow> fleet_inv h cap C f"
  by (fastforce simp: new_fleet_def fleet_inv_def dated_def coherent_def ids_ok_def NewDedupe_def)

lemma run_inv:
  assumes "\<And>i. member h (C i)" "apart C" "new_fleet h cap f0" "(fleet_step C)\<^sup>*\<^sup>* f0 f"
  shows "fleet_inv h cap C f"
  using assms(4) by induction (auto intro: new_fleet_inv [OF assms(3)] step_inv [OF assms(1,2)])


text \<open>A fleet of demo caches, each with its own ID and its own random numbers.\<close>

definition demo_fleet :: "nat \<Rightarrow> (string, int, int memcache, int vstore, gokey list) cache" where
  "demo_fleet i = (demo_cache (\<lambda>_ _. Inr 8) (memory_ops demo_hash) (Some vs_ops) quiet)
     \<lparr>originID := replicate i CHR ''A'', crand := (\<lambda>n. replicate i 0 @ 1 # replicate n 0)\<rparr>"

definition demo_start :: "(int, gokey list) fleet" where
  "demo_start = \<lparr>fl_l2 = vs_empty, fl_now = 1000, fl_node = (\<lambda>_. demo_state vs_empty), fl_log = [], fl_got = (\<lambda>_. {})\<rparr>"

lemma demo_member: "member demo_hash (demo_fleet i)"
  by (simp add: member_def demo_fleet_def)

lemma demo_lasting: "lasting 1 (demo_fleet i)"
  by (rule lasting_plain) (simp_all add: demo_fleet_def)

lemma demo_apart: "apart demo_fleet"
proof -
  have "replicate i 0 @ 1 # xs = replicate j 0 @ 1 # ys \<longleftrightarrow> i = j \<and> xs = ys" for i j and xs ys :: "8 word list"
  proof (induction i arbitrary: j)
    case 0
    show ?case by (cases j) auto
  next
    case (Suc i)
    then show ?case by (cases j) auto
  qed
  then show ?thesis by (auto simp: apart_def demo_fleet_def)
qed

lemma demo_new: "new_fleet demo_hash 1 demo_start"
  using demo_store_ok by (auto simp: new_fleet_def demo_start_def demo_state_def)

lemma demo_roomy: "roomy vs_empty"
  by (simp add: roomy_def vs_empty_def)

definition demo_written :: "(int, gokey list) fleet" where
  "demo_written = on_node (demo_fleet 0) 0 (CSet ''k'' 7 []) demo_start"

lemma demo_fleet_reached: "(fleet_step demo_fleet)\<^sup>*\<^sup>* demo_start demo_written"
  unfolding demo_written_def by (rule r_into_rtranclp, rule Call) (simp_all add: demo_start_def demo_roomy)

lemma demo_ok:
  "\<not> closed (demo_state vs_empty :: (int memcache, int vstore, gokey list) cstate)"
  "node_ok demo_hash 1 (demo_state vs_empty :: (int memcache, int vstore, gokey list) cstate)"
  using demo_store_ok by (simp_all add: node_ok_def dated_def demo_state_def demo_roomy)

end
