(* ===== verification/Fleet_Redis.thy ===== *)
theory Fleet_Redis
  imports Redis_Sim Fleet
begin

text \<open>
  A fleet over Redis: the instances of theory \<open>Fleet\<close> with the store of redisstore/redis.go as their L2, all on
  one server. Its steps are steps of the fleet over the abstract store (a forward simulation). Theory
  \<open>Fleet_Loads_Redis\<close> adds loads in flight, and shows that its L1 tiers are coherent with what Redis holds.
\<close>

section \<open>Steps\<close>

text \<open>
  A call of an instance takes the server's clock forward, if anything. Time passes, and other clients may do
  anything to the server but touch the entries. A key that holds nothing fresh may expire, once the
  seed from the clock is above its version (the pace of theory \<open>Redis_Versions\<close>). Methods are not
  interrupted (theory \<open>Fleet_Loads_Redis\<close> lets the fleet overtake a loader), \<open>InvalidateTag\<close> is not among
  them, and every command and every reply arrives: a write whose reply is lost changes the server and
  announces nothing.
\<close>

definition holds_fresh :: "('r, 'v::zero) rstore \<Rightarrow> ('r \<Rightarrow> string \<Rightarrow> robj) \<Rightarrow> 'r \<Rightarrow> gokey \<Rightarrow> time \<Rightarrow> bool" where
  "holds_fresh c obj r k t \<longleftrightarrow> (\<exists>e. cell_of (codec c) (obj r (store_k c k)) = Live e \<and> Fresh e t)"

inductive redis_step ::
  "('r, 'v::zero) rstore \<Rightarrow> ('r \<Rightarrow> string \<Rightarrow> robj) \<Rightarrow> ('r \<Rightarrow> nat) \<Rightarrow> (nat \<Rightarrow> ('k, 'v, 'v memcache, 'r l2state, 'x) cache) \<Rightarrow>
    ('v, 'r l2state, 'x) fleet_over \<Rightarrow> ('v, 'r l2state, 'x) fleet_over \<Rightarrow> bool"
  for c obj micros C where
  RCall: "\<not> is_event call \<Longrightarrow> \<not> by_tag call \<Longrightarrow> windows_fit in_i64 (C i) (fl_now f) \<Longrightarrow> in_i64 (wall (fl_l2 f)) \<Longrightarrow>
    uncrowded c obj (server (fl_l2 f)) \<Longrightarrow> micros (server (fl_l2 f)) \<le> micros (server (fl_l2 (on_node (C i) i call f))) \<Longrightarrow>
    redis_step c obj micros C f (on_node (C i) i call f)"
| RDeliver: "ev \<in> set (fl_log f) \<Longrightarrow> redis_step c obj micros C f (deliver (C i) i ev f)"
| RTime: "fl_now f \<le> t \<Longrightarrow> keyspace c obj r \<Longrightarrow> (\<And>k. obj r (store_k c k) = obj (server (fl_l2 f)) (store_k c k)) \<Longrightarrow>
    micros (server (fl_l2 f)) \<le> micros r \<Longrightarrow>
    redis_step c obj micros C f (f\<lparr>fl_now := t, fl_l2 := \<lparr>server = r, sent = n, wall = w\<rparr>\<rparr>)"
| RExpire: "\<not> holds_fresh c obj (server (fl_l2 f)) k (fl_now f) \<Longrightarrow> obj r = (obj (server (fl_l2 f)))(store_k c k := Missing) \<Longrightarrow>
    micros (server (fl_l2 f)) \<le> micros r \<Longrightarrow>
    (\<And>h. as_hash (obj (server (fl_l2 f)) (store_k c k)) = Some h \<Longrightarrow> stored_version h < seed (micros r)) \<Longrightarrow>
    redis_step c obj micros C f (f\<lparr>fl_l2 := (fl_l2 f)\<lparr>server := r\<rparr>\<rparr>)"

section \<open>The simulation\<close>

text \<open>The fleet \<open>g\<close> over the abstract store that a fleet \<open>f\<close> over Redis stands for.\<close>

definition stands_for ::
  "('r, 'v::zero) rstore \<Rightarrow> ('r \<Rightarrow> string \<Rightarrow> robj) \<Rightarrow> ('r \<Rightarrow> nat) \<Rightarrow> ('v, 'r l2state, 'x) fleet_over \<Rightarrow> ('v, 'x) fleet \<Rightarrow> bool" where
  "stands_for c obj micros f g \<longleftrightarrow> fl_now g = fl_now f \<and> fl_log g = fl_log f \<and> fl_got g = fl_got f
     \<and> (\<forall>i. \<exists>b. fl_node g i = with_l2 b (fl_node f i)) \<and> redis_linked c obj (fl_l2 f) (fl_l2 g)
     \<and> vclock (fl_l2 g) = wall (fl_l2 f) \<and> vseed (fl_l2 g) = of_nat (seed (micros (server (fl_l2 f))))
     \<and> (\<forall>t. distinct (tagged (fl_l2 g) t))"

lemma seed_mono: "us \<le> us' \<Longrightarrow> seed us \<le> seed us'"
  by (simp add: seed_def div_le_mono)

text \<open>The instances considered.\<close>

definition redis_member :: "(gokey \<Rightarrow> u64) \<Rightarrow> ('r, 'v::zero) rstore \<Rightarrow> ('k, 'v, 'v memcache, 'r l2state, 'x) cache \<Rightarrow> bool" where
  "redis_member h c ci \<longleftrightarrow> alone (redis_ops c) ci \<and> l1 ci = memory_ops h \<and> bus ci"

lemma redis_member_over: "redis_member h c ci \<Longrightarrow> member h (over vs_ops ci)"
  by (simp add: redis_member_def member_def)

lemma apart_over: "apart C \<Longrightarrow> apart (\<lambda>i. over L2 (C i))"
  by (simp add: apart_def)

text \<open>An instance starts a program in states that differ in the L2 only.\<close>

lemma stands_for_start:
  assumes "stands_for c obj micros f g"
  shows "(fl_node g i)\<lparr>l2_st := fl_l2 g, clock_now := fl_now g, outbox := []\<rparr> =
    with_l2 (fl_l2 g) ((fl_node f i)\<lparr>l2_st := fl_l2 f, clock_now := fl_now f, outbox := []\<rparr>)"
proof -
  obtain b where "fl_node g i = with_l2 b (fl_node f i)" using assms by (auto simp: stands_for_def)
  moreover have "fl_now g = fl_now f" using assms by (simp add: stands_for_def)
  ultimately show ?thesis by (simp add: with_l2_def)
qed

lemma keyspace_gone:
  "keyspace c obj r \<Longrightarrow> obj r' = (obj r)(x := Missing) \<Longrightarrow> keyspace c obj r'"
  by (auto simp: keyspace_def entry_key_def versioned_def)

context redis_shared
begin

lemma seed_bound: "seed (micros r) < 2 ^ 53"
  using CLOCK [of r] by (simp add: seed_def)

lemma seed_le: "micros r \<le> micros r' \<Longrightarrow> (of_nat (seed (micros r)) :: u64) \<le> of_nat (seed (micros r'))"
  using seed_mono [of "micros r" "micros r'"] version_roundtrip [OF less_imp_le [OF seed_bound]] by (simp add: word_le_nat_alt)

lemma stands_for_ready:
  assumes "stands_for c obj micros f g" "uncrowded c obj (server (fl_l2 f))" "in_i64 (wall (fl_l2 f))"
  shows "redis_ready c obj micros (fl_l2 f) (fl_l2 g)"
  using assms by (simp add: stands_for_def redis_ready_def)

lemma linked_version:
  assumes "redis_linked c obj s b"
  obtains h where "as_hash (obj (server s) (store_k c k)) = Some h" "versioned h" "cell_version (cells b k) = of_nat (stored_version h)"
proof -
  obtain h where h: "as_hash (obj (server s) (store_k c k)) = Some h" "versioned h"
    using assms keyspace_entry unfolding redis_linked_def by metis
  then show thesis by (rule that) (use assms h cell_of_version [OF h, of "codec c"] in \<open>simp add: redis_linked_def\<close>)
qed

lemma stands_for_roomy:
  assumes "stands_for c obj micros f g" "uncrowded c obj (server (fl_l2 f))"
  shows "roomy (fl_l2 g)"
  unfolding roomy_def
proof (intro conjI allI)
  show "vseed (fl_l2 g) < 2 ^ 53"
    using assms(1) seed_bound version_roundtrip [OF less_imp_le [OF seed_bound]] by (simp add: stands_for_def word_less_nat_alt)
  show "distinct (tagged (fl_l2 g) t)" for t using assms(1) by (simp add: stands_for_def)
  fix k
  have "redis_linked c obj (fl_l2 f) (fl_l2 g)" using assms(1) by (simp add: stands_for_def)
  then obtain h where h: "as_hash (obj (server (fl_l2 f)) (store_k c k)) = Some h" "cell_version (cells (fl_l2 g) k) = of_nat (stored_version h)"
    by (rule linked_version)
  moreover have "stored_version h < 2 ^ 53" using assms(2) h(1) unfolding uncrowded_def by blast
  ultimately show "cell_version (cells (fl_l2 g) k) < 2 ^ 53" using version_roundtrip [of "stored_version h"] by (simp add: word_less_nat_alt)
qed

text \<open>
  Corresponding programs of an instance, on fleets that stand for each other: what they leave stands for each
  other once the abstract store's clocks have caught up.
\<close>

lemma prog_stands_for:
  assumes g: "stands_for c obj micros f g" and room: "uncrowded c obj (server (fl_l2 f))" "in_i64 (wall (fl_l2 f))"
    and corr: "corr (at_time (fl_now f) (redis_ready c obj micros)) m n (\<lambda>_. at_time (fl_now f) (redis_linked c obj))"
    and run: "at_node i m f = (x, f')" and clock: "micros (server (fl_l2 f)) \<le> micros (server (fl_l2 f'))"
    and post: "node_post h cap ci (starts i g) (snd (run_state n (starts i g)))"
  shows "\<exists>g1 t' sd. at_node i n g = (x, g1) \<and> vseed (fl_l2 g1) \<le> sd
    \<and> stands_for c obj micros f' (g1\<lparr>fl_now := fl_now g1, fl_l2 := (fl_l2 g1)\<lparr>vclock := t', vseed := sd\<rparr>\<rparr>)"
proof -
  obtain s' where s': "run_state m (starts i f) = (x, s')"
    and f': "f' = f\<lparr>fl_l2 := l2_st s', fl_node := (fl_node f)(i := s'), fl_log := fl_log f @ outbox s'\<rparr>"
    using run by (auto simp: at_node_def Let_def split: prod.splits)
  have "redis_ready c obj micros (l2_st (starts i f)) (fl_l2 g)" using stands_for_ready [OF g room] by simp
  from corr_run [OF corr _ this s'] obtain b' where b': "run_state n (with_l2 (fl_l2 g) (starts i f)) = (x, with_l2 b' s')" "redis_linked c obj (l2_st s') b'"
    by auto
  let ?g1 = "g\<lparr>fl_l2 := b', fl_node := (fl_node g)(i := with_l2 b' s'), fl_log := fl_log g @ outbox s'\<rparr>"
  have g1: "at_node i n g = (x, ?g1)" using b'(1) by (simp add: at_node_def stands_for_start [OF g])
  have b: "vseed b' = vseed (fl_l2 g) \<and> (\<forall>t. distinct (tagged b' t))"
    using post b'(1) by (auto simp: stands_for_start [OF g] node_post_def l2_post_def)
  let ?t = "wall (l2_st s')" and ?sd = "of_nat (seed (micros (server (l2_st s')))) :: u64"
  have "vseed (fl_l2 ?g1) \<le> ?sd" using b g seed_le [OF clock] by (simp add: f' stands_for_def)
  moreover have "stands_for c obj micros f' (?g1\<lparr>fl_now := fl_now ?g1, fl_l2 := (fl_l2 ?g1)\<lparr>vclock := ?t, vseed := ?sd\<rparr>\<rparr>)"
    using g b'(2) b unfolding f' by (auto simp: stands_for_def redis_linked_def)
  ultimately show ?thesis using g1 by blast
qed

lemma call_stands_for:
  assumes C: "\<And>i. redis_member h c (C i)" "apart C" and g: "stands_for c obj micros f g" "fleet_inv h cap (\<lambda>i. over vs_ops (C i)) g"
    and call: "\<not> is_event call" "\<not> by_tag call" "windows_fit in_i64 (C i) (fl_now f)" "in_i64 (wall (fl_l2 f))" "uncrowded c obj (server (fl_l2 f))"
    and clock: "micros (server (fl_l2 f)) \<le> micros (server (fl_l2 (on_node (C i) i call f)))"
  shows "\<exists>g'. (fleet_step (\<lambda>i. over vs_ops (C i)))\<^sup>*\<^sup>* g g' \<and> stands_for c obj micros (on_node (C i) i call f) g'"
proof -
  let ?D = "\<lambda>i. over vs_ops (C i)"
  have "alone (redis_ops c) (C i)" using C(1) by (simp add: redis_member_def)
  note corr = l2_simulation.corr_call [OF simulation this call(3,2)]
  have roomy: "roomy (fl_l2 g)" by (rule stands_for_roomy [OF g(1) call(5)])
  have run: "at_node i (cache_do (C i) call) f = ((), on_node (C i) i call f)" by (simp add: on_node_def prod_eq_iff)
  obtain g1 t' sd where g1: "at_node i (cache_do (?D i) call) g = ((), g1)" "vseed (fl_l2 g1) \<le> sd"
      "stands_for c obj micros (on_node (C i) i call f) (g1\<lparr>fl_now := fl_now g1, fl_l2 := (fl_l2 g1)\<lparr>vclock := t', vseed := sd\<rparr>\<rparr>)"
    using prog_stands_for [OF g(1) call(5,4) corr run clock call_post [OF redis_member_over [OF C(1)] g(2) call(1) roomy]] by blast
  have "fleet_step ?D g g1" using Call [OF call(1) roomy, of ?D i] g1(1) by (simp add: on_node_def)
  moreover have "fleet_step ?D g1 (g1\<lparr>fl_now := fl_now g1, fl_l2 := (fl_l2 g1)\<lparr>vclock := t', vseed := sd\<rparr>\<rparr>)"
    by (rule Time) (simp_all add: g1(2))
  ultimately show ?thesis using g1(3) by (meson rtranclp.rtrancl_into_rtrancl rtranclp.rtrancl_refl)
qed

lemma deliver_linked:
  assumes C: "redis_member h c ci" and g: "stands_for c obj micros f g"
  shows "stands_for c obj micros (deliver ci i ev f) (deliver (over vs_ops ci) i ev g)"
proof -
  obtain s' where s': "run_state (onEvent ci ev) (starts i f) = ((), s')" by (metis (full_types) old.unit.exhaust prod.collapse)
  have "env ci = quiet" using C by (simp add: redis_member_def alone_def)
  note kept = l2_simulation.kept_others(2) [OF simulation this, of _ "\<lambda>a b. a = fl_l2 f \<and> b = fl_l2 g"]
  from corr_run [OF kept refl _ s', of "fl_l2 g"]
  have "run_state (onEvent (over vs_ops ci) ev) (with_l2 (fl_l2 g) (starts i f)) = ((), with_l2 (fl_l2 g) s')" "l2_st s' = fl_l2 f"
    by auto
  then show ?thesis
    using s' g by (auto simp: deliver_def on_node_def at_node_def stands_for_start [OF g]) (auto simp: stands_for_def)
qed

lemma deliver_stands_for:
  assumes C: "\<And>i. redis_member h c (C i)" and g: "stands_for c obj micros f g" "ev \<in> set (fl_log f)"
  shows "\<exists>g'. (fleet_step (\<lambda>i. over vs_ops (C i)))\<^sup>*\<^sup>* g g' \<and> stands_for c obj micros (deliver (C i) i ev f) g'"
proof -
  have "fleet_step (\<lambda>i. over vs_ops (C i)) g (deliver (over vs_ops (C i)) i ev g)" by (rule Deliver) (use g in \<open>simp add: stands_for_def\<close>)
  then show ?thesis using deliver_linked [OF C g(1)] by blast
qed

lemma time_linked:
  assumes g: "stands_for c obj micros f g" and r: "keyspace c obj r"
    "\<And>k. obj r (store_k c k) = obj (server (fl_l2 f)) (store_k c k)"
  shows "stands_for c obj micros (f\<lparr>fl_now := t, fl_l2 := \<lparr>server = r, sent = n, wall = w\<rparr>\<rparr>)
    (g\<lparr>fl_now := t, fl_l2 := (fl_l2 g)\<lparr>vclock := w, vseed := of_nat (seed (micros r))\<rparr>\<rparr>)"
  using g r by (simp add: stands_for_def redis_linked_def decodes_def)

lemma time_stands_for:
  assumes g: "stands_for c obj micros f g" and r: "fl_now f \<le> t" "keyspace c obj r"
    "\<And>k. obj r (store_k c k) = obj (server (fl_l2 f)) (store_k c k)" "micros (server (fl_l2 f)) \<le> micros r"
  shows "\<exists>g'. (fleet_step D)\<^sup>*\<^sup>* g g' \<and> stands_for c obj micros (f\<lparr>fl_now := t, fl_l2 := \<lparr>server = r, sent = n, wall = w\<rparr>\<rparr>) g'"
proof -
  let ?g = "g\<lparr>fl_now := t, fl_l2 := (fl_l2 g)\<lparr>vclock := w, vseed := of_nat (seed (micros r))\<rparr>\<rparr>"
  have "fleet_step D g ?g" by (rule Time) (use g r(1) seed_le [OF r(4)] in \<open>simp_all add: stands_for_def\<close>)
  then show ?thesis using time_linked [OF g r(2,3)] by blast
qed

lemma expire_stands_for:
  assumes g: "stands_for c obj micros f g" and fresh: "\<not> holds_fresh c obj (server (fl_l2 f)) k (fl_now f)"
    and r: "obj r = (obj (server (fl_l2 f)))(store_k c k := Missing)" "micros (server (fl_l2 f)) \<le> micros r"
    and pace: "\<And>h. as_hash (obj (server (fl_l2 f)) (store_k c k)) = Some h \<Longrightarrow> stored_version h < seed (micros r)"
  shows "\<exists>g'. (fleet_step D)\<^sup>*\<^sup>* g g' \<and> stands_for c obj micros (f\<lparr>fl_l2 := (fl_l2 f)\<lparr>server := r\<rparr>\<rparr>) g'"
proof -
  let ?sd = "of_nat (seed (micros r)) :: u64"
  have l: "redis_linked c obj (fl_l2 f) (fl_l2 g)" and s: "vseed (fl_l2 g) \<le> ?sd" "fl_now g = fl_now f"
    using g seed_le [OF r(2)] by (simp_all add: stands_for_def)
  obtain h where h: "as_hash (obj (server (fl_l2 f)) (store_k c k)) = Some h" "cell_version (cells (fl_l2 g) k) = of_nat (stored_version h)"
    by (rule linked_version [OF l])
  have v: "stored_version h < seed (micros r)" "seed (micros r) < 2 ^ 53" using pace [OF h(1)] seed_bound by auto
  then have "unat (of_nat (stored_version h) + 1 :: u64) \<le> seed (micros r)" using version_roundtrip [of "Suc (stored_version h)"] by (simp add: add.commute)
  then have "of_nat (stored_version h) + 1 \<le> ?sd" using version_roundtrip [of "seed (micros r)"] v(2) by (simp add: word_le_nat_alt)
  then have "vs_next (fl_l2 g) k \<le> ?sd" using s(1) h(2) by (cases "cells (fl_l2 g) k") (simp_all add: vs_next_def)
  moreover have "\<not> fresh_live (fl_l2 g) k (fl_now g)" using fresh l s(2) by (simp add: holds_fresh_def redis_linked_def)
  ultimately have "fleet_step D g (expire k ?sd g)" using s(1) by (intro Expire)
  moreover have "keyspace c obj r" using keyspace_gone l r(1) by (auto simp: redis_linked_def)
  then have "stands_for c obj micros (f\<lparr>fl_l2 := (fl_l2 f)\<lparr>server := r\<rparr>\<rparr>) (expire k ?sd g)"
    using g l r(1) by (auto simp: stands_for_def redis_linked_def expire_def decodes_def decodable_def cell_of_def split: if_splits)
  ultimately show ?thesis by blast
qed

text \<open>A step of the fleet over Redis is one or more steps of the fleet it stands for.\<close>

lemma step_stands_for:
  assumes C: "\<And>i. redis_member h c (C i)" "apart C" and step: "redis_step c obj micros C f f'"
    and g: "stands_for c obj micros f g" "fleet_inv h cap (\<lambda>i. over vs_ops (C i)) g"
  shows "\<exists>g'. (fleet_step (\<lambda>i. over vs_ops (C i)))\<^sup>*\<^sup>* g g' \<and> stands_for c obj micros f' g'"
  using step
proof cases
  case (RCall call i)
  then show ?thesis using call_stands_for [OF C g] by simp
next
  case (RDeliver ev i)
  then show ?thesis using deliver_stands_for [OF C(1) g(1)] by simp
next
  case (RTime t r n w)
  then show ?thesis using time_stands_for [OF g(1) RTime(2-5)] by simp
next
  case (RExpire k r)
  then show ?thesis using expire_stands_for [OF g(1) RExpire(2-5)] by simp
qed

lemma run_stands_for:
  assumes C: "\<And>i. redis_member h c (C i)" "apart C" and g0: "stands_for c obj micros f0 g0" "new_fleet h cap g0"
    and run: "(redis_step c obj micros C)\<^sup>*\<^sup>* f0 f"
  shows "\<exists>g. (fleet_step (\<lambda>i. over vs_ops (C i)))\<^sup>*\<^sup>* g0 g \<and> stands_for c obj micros f g"
  using run
proof induction
  case base
  show ?case using g0(1) by blast
next
  case (step f f')
  then obtain g where g: "(fleet_step (\<lambda>i. over vs_ops (C i)))\<^sup>*\<^sup>* g0 g" "stands_for c obj micros f g" by blast
  have "fleet_inv h cap (\<lambda>i. over vs_ops (C i)) g" by (rule run_inv [OF redis_member_over [OF C(1)] apart_over [OF C(2)] g0(2) g(1)])
  then obtain g' where "(fleet_step (\<lambda>i. over vs_ops (C i)))\<^sup>*\<^sup>* g g'" "stands_for c obj micros f' g'"
    using step_stands_for [OF C step(2) g(2)] by blast
  then show ?case using g(1) by (meson rtranclp_trans)
qed

end

section \<open>New fleets\<close>

text \<open>The abstract fleet that a new one over Redis stands for.\<close>

definition spec_fleet :: "('r, 'v::zero) rstore \<Rightarrow> ('r \<Rightarrow> string \<Rightarrow> robj) \<Rightarrow> ('r \<Rightarrow> nat) \<Rightarrow> ('v, 'r l2state, 'x) fleet_over \<Rightarrow> ('v, 'x) fleet" where
  "spec_fleet c obj micros f = \<lparr>fl_l2 = spec_of c obj micros (wall (fl_l2 f)) (server (fl_l2 f)), fl_now = fl_now f,
     fl_node = (\<lambda>i. with_l2 vs_empty (fl_node f i)), fl_log = fl_log f, fl_got = fl_got f\<rparr>"

lemma spec_fleet_stands:
  assumes "keyspace c obj (server (fl_l2 f))" "decodes c obj (server (fl_l2 f))"
  shows "stands_for c obj micros f (spec_fleet c obj micros f)"
  using assms by (auto simp: stands_for_def spec_fleet_def spec_of_def redis_linked_def)

lemma spec_fleet_new: "new_fleet h cap f \<Longrightarrow> new_fleet h cap (spec_fleet c obj micros f)"
  by (simp add: new_fleet_def spec_fleet_def)

section \<open>A fleet over the reference server\<close>

definition tally_fleet :: "nat \<Rightarrow> (string, int, int memcache, ref_server l2state, gokey list) cache" where
  "tally_fleet i = tally_cache\<lparr>originID := replicate i CHR ''A'', crand := (\<lambda>n. replicate i 0 @ 1 # replicate n 0)\<rparr>"

definition tally_start :: "(int, ref_server l2state, gokey list) fleet_over" where
  "tally_start = \<lparr>fl_l2 = tally_l2, fl_now = 1000, fl_node = (\<lambda>_. demo_state tally_l2), fl_log = [], fl_got = (\<lambda>_. {})\<rparr>"

definition tally_written :: "(int, ref_server l2state, gokey list) fleet_over" where
  "tally_written = on_node (tally_fleet 0) 0 (cache_call.CSet ''k'' 7 []) tally_start"

lemma tally_over: "over vs_ops (tally_fleet i) = demo_fleet i"
  by (simp add: over_def tally_fleet_def tally_cache_def demo_fleet_def demo_cache_def)

lemma tally_member: "redis_member demo_hash tally_redis (tally_fleet i)"
  by (simp add: redis_member_def alone_def tally_fleet_def tally_cache_def)

lemma tally_apart: "apart tally_fleet"
proof -
  have "originID (tally_fleet i) = originID (demo_fleet i)" "crand (tally_fleet i) = crand (demo_fleet i)" for i
    by (simp_all add: tally_fleet_def demo_fleet_def)
  then show ?thesis using demo_apart by (simp add: apart_def)
qed

lemma tally_windows: "windows_fit in_i64 (tally_fleet i) 1000"
  by (simp add: windows_fit_def window_def tally_fleet_def tally_cache_def in_i64_def)

text \<open>The reference server's clock stands still during a command.\<close>

lemma ref_us_kept:
  "ref_us (snd (setCAS_script ref_redis k force expect val sa fu su ttl r)) = ref_us r"
  by (simp add: setCAS_script_def ref_redis_def ref_put_def ref_HSET_def Let_def split: option.split refobj.split)


lemma SetCAS_ref_us: "ref_us (server (snd (run_state (redis_SetCAS tally_redis k v x fu su []) s))) = ref_us (server s)"
proof -
  have "quiet_net tally_redis" by (simp add: quiet_net_def)
  then show ?thesis
    by (simp add: redis_SetCAS_def run_send_quiet ref_us_kept split_beta split: sum.split option.split)
qed

lemma Set_l2:
  assumes "env c = quiet" "l2 c = Some L2"
  shows "l2_st (snd (run_state (cache_Set c key v []) s)) = l2_st s
    \<or> (\<exists>fu su. l2_st (snd (run_state (cache_Set c key v []) s)) = snd (l2_SetCAS L2 (keyString c key) v ForceVersion fu su [] (l2_st s)))"
proof (cases "closed s")
  case False
  obtain fu su j where w: "run_state (window c (clock_now s)) s' = ((fu, su), s'\<lparr>jitter_draws := j\<rparr>)" if "s' = s\<lparr>ticks := Suc (Suc (ticks s))\<rparr>" for s'
    using run_window_frame [of c "clock_now s" "s\<lparr>ticks := Suc (Suc (ticks s))\<rparr>"] by auto
  obtain r b where cas: "l2_SetCAS L2 (keyString c key) v ForceVersion fu su [] (l2_st s) = (r, b)" by fastforce
  have inst: "l2_st (snd (run_state (installL1 c ks e) s')) = l2_st s'" for ks e s'
    by (simp add: installL1_def run_alone [OF assms(1)] split_beta split: option.split)
  have "l2_st (snd (run_state (cache_Set c key v []) s)) = b"
    using False cas inst by (simp add: cache_Set_def run_alone [OF assms(1)] assms(2) w [OF refl] split_beta Let_def split: sum.split)
  then show ?thesis using cas by (metis snd_conv)
qed (simp add: cache_Set_def run_alone [OF assms(1)])

lemma tally_reached: "(redis_step tally_redis ref_obj ref_micros tally_fleet)\<^sup>*\<^sup>* tally_start tally_written"
proof -
  have c: "env (tally_fleet 0) = quiet" "l2 (tally_fleet 0) = Some (redis_ops tally_redis)" by (simp_all add: tally_fleet_def tally_cache_def)
  have "cache_Set (tally_fleet 0) ''k'' 7 [WithTags []] = cache_Set (tally_fleet 0) ''k'' 7 []"
    by (simp add: cache_Set_def WithTags_def cong del: if_weak_cong)
  then have "ref_us (server (fl_l2 tally_written)) = ref_us (server (fl_l2 tally_start))"
    using Set_l2 [OF c, of "''k''" 7 "(demo_state tally_l2)\<lparr>l2_st := tally_l2, clock_now := 1000, outbox := []\<rparr>"] SetCAS_ref_us
    by (auto simp: tally_written_def on_node_def at_node_def tally_start_def split_beta Let_def redis_ops_def)
  then have "ref_micros (server (fl_l2 tally_start)) \<le> ref_micros (server (fl_l2 (on_node (tally_fleet 0) 0 (cache_call.CSet ''k'' 7 []) tally_start)))"
    by (simp add: ref_micros_def tally_written_def)
  moreover have "uncrowded tally_redis ref_obj (server (fl_l2 tally_start))" "in_i64 (wall (fl_l2 tally_start))"
    using tally_ready by (simp_all add: redis_ready_def tally_start_def in_i64_def)
  moreover have "windows_fit in_i64 (tally_fleet 0) (fl_now tally_start)" using tally_windows by (simp add: tally_start_def)
  ultimately have "redis_step tally_redis ref_obj ref_micros tally_fleet tally_start (on_node (tally_fleet 0) 0 (cache_call.CSet ''k'' 7 []) tally_start)"
    by (intro RCall) simp_all
  then show ?thesis unfolding tally_written_def by (rule r_into_rtranclp)
qed

end
