(* ===== verification/Fleet_Loads.thy ===== *)
theory Fleet_Loads
  imports Fleet
begin

text \<open>
  Loads in flight. In theory \<open>Fleet\<close> a method runs to its end at once. Here a method is interrupted where
  it takes long: in front of the fill and while the loader runs. Meanwhile the other instances, and the other
  goroutines of the same one, run methods, begin and finish loads of their own, events arrive, time
  passes and entries expire. What keeps the fleet coherent then is the compare-and-swap of
  cache.go's \<open>fill\<close> with the version it read before the load.
\<close>

section \<open>A fill in two parts\<close>

text \<open>
  The first part of \<open>fill\<close> ends with the answer, or with the version the second part has to expect, once
  the loader has returned.
\<close>

definition fill_begin ::
  "('k, 'v::zero, 'a, 'b, 'r) cache \<Rightarrow> ('b, 'v) l2_ops \<Rightarrow> gokey \<Rightarrow> ('a, 'b, 'r, (go_error + 'v) + u64) prog" where
  "fill_begin c L2 ks = do {
     now \<leftarrow> Now c;
     (cur, ok, _) \<leftarrow> l2_call c (l2_Load L2 ks);
     if ok \<and> Fresh cur now
     then do { installL1 c ks cur; State_Monad.return (Inl (Inr (Value cur))) }
     else do { add1 loads_update; State_Monad.return (Inr (Version cur)) } }"

definition fill_finish ::
  "('k, 'v::zero, 'a, 'b, 'r) cache \<Rightarrow> ('b, 'v) l2_ops \<Rightarrow> 'k \<Rightarrow> gokey \<Rightarrow> u64 \<Rightarrow> ('a, 'b, 'r, go_error + 'v) prog" where
  "fill_finish c L2 key ks expect = do {
     r \<leftarrow> load_origin c key;
     now \<leftarrow> Now c;
     case r of
       Inl err \<Rightarrow>
         if errors_is err ErrNotFound then fill_negative c L2 ks expect now
         else do { add1 loadErrors_update; State_Monad.return (Inl err) }
     | Inr val \<Rightarrow> fill_value c L2 ks expect now val }"

text \<open>The two parts are the fill; and a \<open>GetOrLoad\<close> is a lookup, then, where that misses, a fill.\<close>

lemma fill_parts:
  assumes "l2 c = Some L2"
  shows "fill c key ks = fill_begin c L2 ks \<bind>
    (\<lambda>x. case x of Inl r \<Rightarrow> State_Monad.return r | Inr expect \<Rightarrow> fill_finish c L2 key ks expect)"
  by (rule state_ext) (simp add: fill_def fill_begin_def fill_finish_def assms split_beta Let_def)

definition lookup ::
  "('k, 'v::zero, 'a, 'b, 'r) cache \<Rightarrow> 'k \<Rightarrow> ('a, 'b, 'r, (go_error + 'v) option) prog" where
  "lookup c key = do {
     cl \<leftarrow> is_closed c;
     if cl then State_Monad.return (Some (Inl ErrClosed))
     else do {
       let ks = keyString c key;
       now \<leftarrow> Now c;
       (e, ok, _) \<leftarrow> l1_call c (\<lambda>t. l1_Get (l1 c) t ks);
       if ok \<and> Fresh e now then do {
         add1 hits_update;
         if Negative e
         then do { add1 negHits_update; State_Monad.return (Some (Inl ErrNotFound)) }
         else State_Monad.return (Some (Inr (Value e))) }
       else if ok \<and> \<not> Negative e \<and> Stale e now then do {
         add1 staleHits_update;
         scheduleRefresh c key ks;
         State_Monad.return (Some (Inr (Value e))) }
       else do { add1 misses_update; State_Monad.return None } } }"

lemma GetOrLoad_parts:
  "GetOrLoad c key = lookup c key \<bind> (\<lambda>x. case x of
     Some r \<Rightarrow> State_Monad.return (Return r)
   | None \<Rightarrow> do { (v, _) \<leftarrow> sf_Do c (keyString c key) (fill c key (keyString c key)); State_Monad.return v })"
  by (rule state_ext) (simp add: GetOrLoad_def lookup_def split_beta Let_def)

section \<open>Runs with loads in flight\<close>

text \<open>
  A load in flight: the instance, the key, and the version to expect. \<open>Lookup\<close> is the part of a \<open>GetOrLoad\<close>
  in front of its fill (all there is of one that then waits for another's load of the key), \<open>Begin\<close>
  the first part of the fill of a \<open>GetOrLoad\<close> or of a refresh, \<open>Finish\<close> the second. A loader that
  never returns is a load that is never finished.
\<close>

type_synonym 'k flight = "nat \<times> 'k \<times> u64"

inductive load_step ::
  "(nat \<Rightarrow> ('k, 'v::zero, 'v memcache, 'v vstore, 'r) cache) \<Rightarrow> 'k flight list \<times> ('v, 'r) fleet \<Rightarrow> 'k flight list \<times> ('v, 'r) fleet \<Rightarrow> bool"
  for C where
  Whole: "fleet_step C f g \<Longrightarrow> load_step C (F, f) (F, g)"
| Lookup: "roomy (fl_l2 f) \<Longrightarrow> load_step C (F, f) (F, snd (at_node i (lookup (C i) key) f))"
| Begin: "roomy (fl_l2 f) \<Longrightarrow> l2 (C i) = Some L2 \<Longrightarrow> at_node i (fill_begin (C i) L2 (keyString (C i) key)) f = (r, g) \<Longrightarrow>
    load_step C (F, f) (case r of Inl _ \<Rightarrow> F | Inr expect \<Rightarrow> (i, key, expect) # F, g)"
| Finish: "roomy (fl_l2 f) \<Longrightarrow> l2 (C i) = Some L2 \<Longrightarrow> (i, key, expect) \<in> set F \<Longrightarrow>
    load_step C (F, f) (remove1 (i, key, expect) F, snd (at_node i (fill_finish (C i) L2 key (keyString (C i) key) expect) f))"

inductive_cases load_stepE: "load_step C (F, f) (G, g)"

section \<open>What the parts do\<close>

lemma lookup_post:
  assumes c: "member h c" and s: "node_ok h cap s"
  shows "node_post h cap c s (snd (run_state (lookup c key) s))"
proof -
  note q = run_alone [OF memberD(1) [OF c]] memberD(2) [OF c]
  have ok: "mem_ok h cap (l1_st s)" using s by (simp add: node_ok_def)
  let ?ks = "keyString c key"
  obtain e f err a where g: "mem_Get h (clock_now s) ?ks (l1_st s) = ((e, f, err), a)" by (metis prod.collapse)
  have a: "mem_ok h cap a" "mem_held h a \<subseteq>\<^sub>m mem_held h (l1_st s)" using mem_Get_law [OF ok g] by auto
  show ?thesis
    by (rule node_post_local [OF s]) (use a ok in \<open>auto simp: lookup_def scheduleRefresh_def q g memory_ops_def Let_def split_beta\<close>)
qed

lemma fill_begin_post:
  assumes c: "member h c" and s: "node_ok h cap s"
  shows "node_post h cap c s (snd (run_state (fill_begin c vs_ops ks) s))"
    and "fst (run_state (fill_begin c vs_ops ks) s) = Inr x \<Longrightarrow>
      x = cell_version (cells (l2_st s) ks) \<and> \<not> fresh_live (l2_st s) ks (clock_now s)"
proof -
  note run = fill_begin_def run_alone [OF memberD(1) [OF c]] run_installL1 [OF c] vs_Load_def
  have ok: "mem_ok h cap (l1_st s)" using s by (simp add: node_ok_def)
  show "node_post h cap c s (snd (run_state (fill_begin c vs_ops ks) s))"
  proof (cases "fresh_live (l2_st s) ks (clock_now s)")
    case True
    then obtain e where e: "cells (l2_st s) ks = Live e" "Fresh e (clock_now s)" by blast
    show ?thesis
      by (rule install_live_post [OF s e(1), where t = "clock_now s" and n = "ticks s + 3" and st = "stats s" and j = "jitter_draws s"]) (simp add: run e)
  next
    case False
    then show ?thesis
      using ok by (intro node_post_local [OF s]; cases "cells (l2_st s) ks") (simp_all add: run)
  qed
  show "fst (run_state (fill_begin c vs_ops ks) s) = Inr x \<Longrightarrow> x = cell_version (cells (l2_st s) ks) \<and> \<not> fresh_live (l2_st s) ks (clock_now s)"
    by (cases "cells (l2_st s) ks") (simp_all add: run split: if_splits)
qed

lemma fill_finish_post:
  assumes c: "member h c" and s: "node_ok h cap s" and x: "outdated (l2_st s) (clock_now s) ks x"
  shows "node_post h cap c s (snd (run_state (fill_finish c vs_ops key ks x) s))"
proof -
  have ok: "mem_ok h cap (l1_st s)" using s by (simp add: node_ok_def)
  let ?s1 = "s\<lparr>stats := stats s, ticks := ticks s + 2\<rparr>"
  have run: "run_state (fill_finish c vs_ops key ks x) s = (case loader c key (Suc (ticks s)) of
         Inl err \<Rightarrow> if errors_is err ErrNotFound then run_state (fill_negative c vs_ops ks x (clock_now s)) ?s1
                    else (Inl err, ?s1\<lparr>stats := loadErrors_update (\<lambda>n. n + 1) (stats s)\<rparr>)
       | Inr val \<Rightarrow> run_state (fill_value c vs_ops ks x (clock_now s) val) ?s1)"
    by (simp add: fill_finish_def run_alone [OF memberD(1) [OF c]] split: sum.split)
  show ?thesis
    unfolding run
    using fill_negative_post [OF c s x, where st = "stats s" and n = "ticks s + 2"] fill_value_post [OF c s x, where st = "stats s" and n = "ticks s + 2"]
    by (cases "loader c key (Suc (ticks s))") (simp_all add: ok node_post_local [OF s])
qed

section \<open>Coherence with loads in flight\<close>

text \<open>
  The version a load expects is below the next one; so once another write went through it is not the current
  one any more, and until then nothing fresh is there.
\<close>

definition flight_ok :: "'v vstore \<Rightarrow> time \<Rightarrow> gokey \<Rightarrow> u64 \<Rightarrow> bool" where
  "flight_ok b t ks x \<longleftrightarrow> x < vs_next b ks \<and> (cell_version (cells b ks) \<le> x \<longrightarrow> \<not> fresh_live b ks t)"

definition loads_inv ::
  "(gokey \<Rightarrow> u64) \<Rightarrow> int \<Rightarrow> (nat \<Rightarrow> ('k, 'v, 'v memcache, 'v vstore, 'r) cache) \<Rightarrow> 'k flight list \<times> ('v, 'r) fleet \<Rightarrow> bool" where
  "loads_inv h cap C = (\<lambda>(F, f). fleet_inv h cap C f \<and> 0 < vseed (fl_l2 f)
     \<and> (\<forall>(i, key, x) \<in> set F. flight_ok (fl_l2 f) (fl_now f) (keyString (C i) key) x))"

lemma flight_outdated: "flight_ok b t ks x \<Longrightarrow> outdated b t ks x"
  by (auto simp: flight_ok_def outdated_def ForceVersion_def)

lemma flight_begins:
  assumes "roomy b" "0 < vseed b" "\<not> fresh_live b ks t"
  shows "flight_ok b t ks (cell_version (cells b ks))"
proof -
  have "cell_version (cells b ks) \<le> 2 ^ 53" using assms(1) unfolding roomy_def by (meson less_imp_le)
  then have "cell_version (cells b ks) < vs_next b ks"
    using assms(2) room_succ next_of [of b ks] by (cases "cells b ks") (simp_all add: vs_next_def)
  then show ?thesis using assms(3) by (simp add: flight_ok_def)
qed

lemma flight_write:
  assumes "roomy b" "l2_post t K b b'" "flight_ok b t ks x" shows "flight_ok b' t ks x"
proof (cases "cells b' ks = cells b ks")
  case True
  moreover have "vseed b' = vseed b" using assms(2) by (simp add: l2_post_def)
  then have "vs_next b' ks = vs_next b ks" using True by (simp add: vs_next_def split: cell.split)
  ultimately show ?thesis using assms(3) unfolding flight_ok_def by auto
next
  case False
  then have b': "cells b' ks \<noteq> Absent" "cell_version (cells b' ks) = vs_next b ks" using assms(2) unfolding l2_post_def by auto
  then have "vs_next b' ks = vs_next b ks + 1" by (simp add: next_of)
  then show ?thesis using b'(2) assms(3) room_succ [OF next_le [OF assms(1), of ks]] by (auto simp: flight_ok_def)
qed

lemma flight_grows:
  assumes "flight_ok b t ks x" "t \<le> t'" "vs_next b ks \<le> vs_next b' ks" "cells b' ks = cells b ks \<or> cells b' ks = Absent"
  shows "flight_ok b' t' ks x"
proof -
  have n: "x < vs_next b' ks" using assms(1,3) unfolding flight_ok_def by (meson less_le_trans)
  from assms(4) show ?thesis
  proof
    assume b': "cells b' ks = cells b ks"
    have "\<not> fresh_live b ks t'" if "\<not> fresh_live b ks t" using that assms(2) by (auto simp: Fresh_def)
    then show ?thesis using assms(1) n b' unfolding flight_ok_def by auto
  qed (simp add: flight_ok_def n)
qed

lemma loads_inv_step:
  assumes "loads_inv h cap C (F, f)" "fleet_inv h cap C g" "vseed (fl_l2 f) \<le> vseed (fl_l2 g)"
    "\<And>ks x. flight_ok (fl_l2 f) (fl_now f) ks x \<Longrightarrow> flight_ok (fl_l2 g) (fl_now g) ks x"
  shows "loads_inv h cap C (F, g)"
  using assms by (auto simp: loads_inv_def)

lemma flights_node:
  assumes "loads_inv h cap C (F, f)" "apart C" "roomy (fl_l2 f)"
    and "node_post h cap (C i) (starts i f) (snd (run_state m (starts i f)))"
  shows "loads_inv h cap C (F, snd (at_node i m f))"
proof -
  have inv: "fleet_inv h cap C f" using assms(1) by (simp add: loads_inv_def)
  obtain K where K: "fl_now (snd (at_node i m f)) = fl_now f" "l2_post (fl_now f) K (fl_l2 f) (fl_l2 (snd (at_node i m f)))"
    by (rule at_node_effect [OF assms(4)]) auto
  show ?thesis
  proof (rule loads_inv_step [OF assms(1) at_node_inv [OF assms(2) inv assms(3,4)]])
    show "vseed (fl_l2 f) \<le> vseed (fl_l2 (snd (at_node i m f)))" using K(2) by (simp add: l2_post_def)
  qed (use flight_write [OF assms(3) K(2)] K(1) in simp)
qed

lemma flights_whole:
  assumes "\<And>i. member h (C i)" "apart C" "fleet_step C f g" "loads_inv h cap C (F, f)"
  shows "loads_inv h cap C (F, g)"
proof -
  have inv: "fleet_inv h cap C f" "fleet_inv h cap C g" using assms(4) step_inv [OF assms(1-3)] by (auto simp: loads_inv_def)
  have grown: "loads_inv h cap C (F, g)" if "vseed (fl_l2 f) \<le> vseed (fl_l2 g)" "fl_now f \<le> fl_now g"
    "\<And>k. vs_next (fl_l2 f) k \<le> vs_next (fl_l2 g) k" "\<And>k. cells (fl_l2 g) k = cells (fl_l2 f) k \<or> cells (fl_l2 g) k = Absent"
    by (rule loads_inv_step [OF assms(4) inv(2) that(1)]) (rule flight_grows [OF _ that(2-4)])
  from assms(3) show ?thesis
  proof cases
    case (Call call i)
    then show ?thesis unfolding Call(1) on_node_def by (intro flights_node assms call_post inv)
  next
    case (Deliver ev i)
    have "fl_l2 g = fl_l2 f \<and> fl_now g = fl_now f"
      by (rule deliver_effect [OF assms(1) inv(1), of i ev]) (simp add: Deliver)
    then show ?thesis by (intro grown) simp_all
  next
    case (Time t sd t')
    then show ?thesis by (intro grown) (simp_all add: vs_next_def split: cell.split)
  next
    case (Expire k sd)
    then show ?thesis by (intro grown) (auto simp: expire_def vs_next_def split: cell.split)
  qed
qed

lemma load_step_inv:
  assumes "\<And>i. member h (C i)" "apart C" "load_step C p q" "loads_inv h cap C p"
  shows "loads_inv h cap C q"
  using assms(3)
proof cases
  case (Whole f g F)
  then show ?thesis using flights_whole [OF assms(1,2)] assms(4) by simp
next
  case (Lookup f F i key)
  have "fleet_inv h cap C f" using assms(4) Lookup(1) by (simp add: loads_inv_def)
  note post = lookup_post [OF assms(1) starts_ok [OF this Lookup(3)]]
  show ?thesis
    unfolding Lookup(2) by (rule flights_node [OF _ assms(2) Lookup(3) post]) (use assms(4) Lookup(1) in simp)
next
  case (Begin f i L2 key r g F)
  let ?ks = "keyString (C i) key"
  have L2: "L2 = vs_ops" using Begin(4) memberD(3) [OF assms(1), of i] by simp
  have inv: "fleet_inv h cap C f" "0 < vseed (fl_l2 f)" using assms(4) Begin(1) by (simp_all add: loads_inv_def)
  note post = fill_begin_post [OF assms(1) [of i] starts_ok [OF inv(1) Begin(3), of i], of ?ks]
  have g: "g = snd (at_node i (fill_begin (C i) vs_ops ?ks) f)" "r = fst (run_state (fill_begin (C i) vs_ops ?ks) (starts i f))"
    using Begin(5) L2 by (auto simp: at_node_def split_beta Let_def)
  have "flight_ok (fl_l2 f) (fl_now f) ?ks x" if "r = Inr x" for x
    using post(2) [of x] that g(2) flight_begins [OF Begin(3) inv(2)] by simp
  then have "loads_inv h cap C (case r of Inl _ \<Rightarrow> F | Inr expect \<Rightarrow> (i, key, expect) # F, f)"
    using assms(4) Begin(1) by (auto simp: loads_inv_def split: sum.split)
  then show ?thesis unfolding Begin(2) g(1) by (rule flights_node [OF _ assms(2) Begin(3) post(1)])
next
  case (Finish f i L2 key x F)
  have L2: "L2 = vs_ops" using Finish(4) memberD(3) [OF assms(1), of i] by simp
  have inv: "loads_inv h cap C (remove1 (i, key, x) F, f)" "fleet_inv h cap C f" "flight_ok (fl_l2 f) (fl_now f) (keyString (C i) key) x"
    using assms(4) Finish(1,5) by (auto simp: loads_inv_def dest: set_mp [OF set_remove1_subset])
  show ?thesis unfolding Finish(2) L2
    by (rule flights_node [OF inv(1) assms(2) Finish(3) fill_finish_post [OF assms(1) starts_ok [OF inv(2) Finish(3)]]])
      (use flight_outdated [OF inv(3)] in simp)
qed

lemma loads_run_inv:
  assumes "\<And>i. member h (C i)" "apart C" "new_fleet h cap f0" "0 < vseed (fl_l2 f0)" "(load_step C)\<^sup>*\<^sup>* ([], f0) p"
  shows "loads_inv h cap C p"
  using assms(5)
proof induction
  case base
  show ?case using new_fleet_inv [OF assms(3)] assms(4) by (simp add: loads_inv_def)
qed (rule load_step_inv [OF assms(1,2)])

text \<open>
  C2: A fleet is coherent, also while loads are in flight. Instances with different IDs share the versioned
  store. Each runs any methods, in any number of goroutines; a \<open>GetOrLoad\<close> or a refresh is interrupted
  before its fill and for as long as its loader runs, in between which everybody else may write, invalidate,
  load and begin loads of the same keys; loaders return whatever they like, or never; events are
  delivered in any order, late, repeatedly or never, time passes and entries expire. What a method does
  otherwise it does uninterrupted; in particular nothing comes between its read or write of the shared store
  and the installation in its own L1 (without that, the theorem is false: theory \<open>Fleet_Reads\<close>). Then a
  positive L1 entry that an open instance would serve as fresh is the very entry the shared store holds at
  that moment, or an event that will evict it has been published and not reached the instance yet.
\<close>

theorem fleet_coherent:
  assumes "\<And>i. member h (C i)" "apart C" "new_fleet h cap f0" "0 < vseed (fl_l2 f0)" "(load_step C)\<^sup>*\<^sup>* ([], f0) (F, f)"
    and "\<not> closed (fl_node f i)" "mem_held h (l1_st (fl_node f i)) k = Some e" "\<not> Negative e" "Fresh e (fl_now f)"
  shows "cells (fl_l2 f) k = Live e
    \<or> (\<exists>ev \<in> set (fl_log f). k \<in> set (Keys ev) \<and> OriginID ev \<noteq> originID (C i) \<and> ID ev \<notin> fl_got f i)"
  using loads_run_inv [OF assms(1-5)] coherentD [OF _ assms(6-9), of C] by (simp add: loads_inv_def fleet_inv_def pending_def)

text \<open>Instance 0 loads 8 for a key; before its loader returns, instance 1 writes 7.\<close>

definition demo_loading :: "(int, gokey list) fleet" where
  "demo_loading = snd (at_node 0 (fill_begin (demo_fleet 0) vs_ops ''k'') demo_start)"

definition demo_overtaken :: "(int, gokey list) fleet" where
  "demo_overtaken = on_node (demo_fleet 1) 1 (CSet ''k'' 7 []) demo_loading"

definition demo_settled :: "(int, gokey list) fleet" where
  "demo_settled = snd (at_node 0 (fill_finish (demo_fleet 0) vs_ops ''k'' ''k'' 0) demo_overtaken)"

lemma demo_loading_run:
  "at_node 0 (fill_begin (demo_fleet 0) vs_ops ''k'') demo_start = (Inr 0, demo_loading)" "fl_l2 demo_loading = vs_empty"
  "fl_now demo_loading = 1000" "fl_node demo_loading (Suc 0) = demo_state vs_empty"
proof -
  have b: "run_state (fill_begin (demo_fleet 0) vs_ops ''k'') (starts 0 demo_start) =
      (Inr 0, (starts 0 demo_start)\<lparr>ticks := 2, stats := loads_update (\<lambda>n. n + 1) zero_counters\<rparr>)"
    by (simp add: fill_begin_def run_alone [OF memberD(1) [OF demo_member]] vs_Load_def demo_start_def demo_state_def vs_empty_def zero_entry_def)
  show "at_node 0 (fill_begin (demo_fleet 0) vs_ops ''k'') demo_start = (Inr 0, demo_loading)"
    unfolding demo_loading_def using b by (simp add: at_node_def Let_def)
  show "fl_l2 demo_loading = vs_empty" "fl_now demo_loading = 1000" "fl_node demo_loading (Suc 0) = demo_state vs_empty"
    unfolding demo_loading_def using b by (simp_all add: at_node_def Let_def demo_start_def)
qed

lemma demo_overtaken_run:
  obtains e where "mem_held demo_hash (l1_st (fl_node demo_overtaken 1)) ''k'' = Some e" "Value e = 7" "\<not> Negative e"
    "Fresh e 1000" "\<not> closed (fl_node demo_overtaken 1)" "fl_now demo_overtaken = 1000"
proof -
  have "starts 1 demo_loading = demo_state vs_empty" by (simp add: demo_loading_run) (simp add: demo_state_def)
  moreover have "keyString (demo_fleet 1) = id" by (simp add: demo_fleet_def)
  ultimately show thesis
    using that Set_stores [OF demo_member demo_ok, of "''k''" 1 "''k''" 7 "[WithTags []]"] demo_lasting [of 1]
    by (auto simp: demo_overtaken_def on_node_def at_node_def demo_loading_run demo_state_def Fresh_def)
qed

lemma demo_loading_reached: "(load_step demo_fleet)\<^sup>*\<^sup>* ([], demo_start) ([(0, ''k'', 0)], demo_loading)"
proof -
  have c: "l2 (demo_fleet 0) = Some vs_ops" "keyString (demo_fleet 0) ''k'' = ''k''" by (simp_all add: demo_fleet_def)
  show ?thesis using Begin [where C = demo_fleet and i = 0 and key = "''k''" and f = demo_start and F = "[]", OF _ c(1)] demo_loading_run(1)
    by (auto simp: c(2) demo_start_def demo_roomy)
qed

lemma demo_overtaken_reached: "(load_step demo_fleet)\<^sup>*\<^sup>* ([], demo_start) ([(0, ''k'', 0)], demo_overtaken)"
proof -
  have "fleet_step demo_fleet demo_loading demo_overtaken"
    unfolding demo_overtaken_def by (rule Call) (simp_all add: demo_loading_run demo_roomy)
  then show ?thesis by (rule rtranclp.rtrancl_into_rtrancl [OF demo_loading_reached Whole])
qed

lemma demo_overtaken_roomy: "roomy (fl_l2 demo_overtaken)"
proof -
  have inv: "fleet_inv demo_hash 1 demo_fleet demo_loading"
    using loads_run_inv [OF demo_member demo_apart demo_new _ demo_loading_reached] by (simp add: loads_inv_def demo_start_def vs_empty_def)
  have empty: "cells vs_empty k = Absent" and nx: "vs_next vs_empty k = 1" for k by (simp_all add: vs_next_def vs_empty_def)
  show ?thesis
  proof (rule at_node_effect [OF call_post [OF demo_member inv, of "CSet ''k'' 7 []" 1]], goal_cases)
    case (3 s' b evs)
    have "cell_version (cells b k) < 2 ^ 53" for k
    proof -
      have "cells b k = Absent \<or> cell_version (cells b k) = 1"
        using 3(8) nx [of k] unfolding l2_post_def demo_loading_run by (metis empty)
      then show ?thesis by auto
    qed
    moreover have "vseed b = 1" "distinct (tagged b t)" for t using 3(8) by (simp_all add: l2_post_def demo_loading_run) (simp add: vs_empty_def)
    ultimately have "roomy b" by (simp add: roomy_def)
    then show ?case using 3(1) by (simp add: demo_overtaken_def on_node_def)
  qed (simp_all add: demo_loading_run demo_roomy)
qed

theorem fleet_coherent_witness:
  "\<exists>e. mem_held demo_hash (l1_st (fl_node demo_settled 1)) ''k'' = Some e \<and> Value e = 7
     \<and> (cells (fl_l2 demo_settled) ''k'' = Live e \<or> (\<exists>ev \<in> set (fl_log demo_settled). ''k'' \<in> set (Keys ev)
          \<and> OriginID ev \<noteq> originID (demo_fleet 1) \<and> ID ev \<notin> fl_got demo_settled 1))"
proof -
  have c: "l2 (demo_fleet 0) = Some vs_ops" "keyString (demo_fleet 0) ''k'' = ''k''" by (simp_all add: demo_fleet_def)
  have run: "(load_step demo_fleet)\<^sup>*\<^sup>* ([], demo_start) ([], demo_settled)"
    using demo_overtaken_reached Finish [where C = demo_fleet, OF demo_overtaken_roomy c(1), of "''k''" 0 "[(0, ''k'', 0)]"]
    by (simp add: c(2) demo_settled_def)
  have same: "fl_node demo_settled 1 = fl_node demo_overtaken 1" "fl_now demo_settled = fl_now demo_overtaken"
    by (simp_all add: demo_settled_def at_node_def split_beta Let_def)
  have seed: "0 < vseed (fl_l2 demo_start)" by (simp add: demo_start_def vs_empty_def)
  show ?thesis
    by (rule demo_overtaken_run) (use fleet_coherent [OF demo_member demo_apart demo_new seed run, of 1 "''k''"] same in auto)
qed

end
