(* ===== verification/Fleet_Loads_Redis.thy ===== *)
theory Fleet_Loads_Redis
  imports Fleet_Redis Fleet_Loads
begin

text \<open>
  A fleet over Redis with loads in flight. Theory \<open>Fleet_Redis\<close> simulates whole methods by the fleet over the
  abstract store; here the two parts of a fill are simulated as well, so that the coherence of theory
  \<open>Fleet_Loads\<close> holds of what a \<open>Load\<close> from Redis returns.
\<close>

section \<open>The parts of a fill correspond\<close>

context l2_simulation
begin

lemma kept_lookup:
  assumes c: "env c = quiet" shows "kept t R (lookup c key) (lookup (over B c) key)"
proof -
  have ref: "kept t R (scheduleRefresh c key ks) (scheduleRefresh (over B c) key ks)" for ks
    unfolding scheduleRefresh_def over_simps by (intro kept_bind kept_calls [OF c] corr_if corr_return)
  show ?thesis
    unfolding lookup_def over_simps
    by (simp only: prod.case | rule corr_Now [OF c] ref corr_prod corr_if corr_let kept_bind kept_calls [OF c] corr_return | assumption | simp)+
qed

lemma corr_fill_begin:
  assumes c: "env c = quiet"
  shows "corr (at_time t ready) (fill_begin c A ks) (fill_begin (over B c) B ks) (\<lambda>_. at_time t linked)"
  unfolding fill_begin_def
  by (simp only: prod.case | rule corr_Now [OF c] corr_Load [OF c] corr_prod corr_if kept_bind kept_installL1 [OF c] kept_calls [OF c] corr_return
      | assumption | simp add: ready_linked)+

lemma corr_fill_finish:
  assumes c: "env c = quiet" and w: "windows_fit fits c t"
  shows "corr (at_time t ready) (fill_finish c A key ks x) (fill_finish (over B c) B key ks x) (\<lambda>_. at_time t linked)"
  unfolding fill_finish_def
  by (simp only: prod.case | rule corr_Now [OF c] corr_fill_negative [OF c] corr_fill_value [OF c w] corr_sum corr_if kept_bind kept_calls [OF c] corr_return
      | assumption | simp add: ready_linked)+

end

section \<open>Runs with loads in flight\<close>

text \<open>As \<open>load_step\<close>, over Redis: what is needed for a part of a fill is what a call needs in \<open>redis_step\<close>.\<close>

inductive redis_load_step ::
  "('r, 'v::zero) rstore \<Rightarrow> ('r \<Rightarrow> string \<Rightarrow> robj) \<Rightarrow> ('r \<Rightarrow> nat) \<Rightarrow> (nat \<Rightarrow> ('k, 'v, 'v memcache, 'r l2state, 'x) cache) \<Rightarrow>
    'k flight list \<times> ('v, 'r l2state, 'x) fleet_over \<Rightarrow> 'k flight list \<times> ('v, 'r l2state, 'x) fleet_over \<Rightarrow> bool"
  for c obj micros C where
  RWhole: "redis_step c obj micros C f g \<Longrightarrow> redis_load_step c obj micros C (F, f) (F, g)"
| RLookup: "in_i64 (wall (fl_l2 f)) \<Longrightarrow> uncrowded c obj (server (fl_l2 f)) \<Longrightarrow>
    redis_load_step c obj micros C (F, f) (F, snd (at_node i (lookup (C i) key) f))"
| RBegin: "in_i64 (wall (fl_l2 f)) \<Longrightarrow> uncrowded c obj (server (fl_l2 f)) \<Longrightarrow>
    at_node i (fill_begin (C i) (redis_ops c) (keyString (C i) key)) f = (r, g) \<Longrightarrow> micros (server (fl_l2 f)) \<le> micros (server (fl_l2 g)) \<Longrightarrow>
    redis_load_step c obj micros C (F, f) (case r of Inl _ \<Rightarrow> F | Inr expect \<Rightarrow> (i, key, expect) # F, g)"
| RFinish: "windows_fit in_i64 (C i) (fl_now f) \<Longrightarrow> in_i64 (wall (fl_l2 f)) \<Longrightarrow> uncrowded c obj (server (fl_l2 f)) \<Longrightarrow> (i, key, expect) \<in> set F \<Longrightarrow>
    at_node i (fill_finish (C i) (redis_ops c) key (keyString (C i) key) expect) f = (r, g) \<Longrightarrow>
    micros (server (fl_l2 f)) \<le> micros (server (fl_l2 g)) \<Longrightarrow>
    redis_load_step c obj micros C (F, f) (remove1 (i, key, expect) F, g)"

context redis_shared
begin

lemma redis_memberD: "redis_member h c ci \<Longrightarrow> env ci = quiet" "redis_member h c ci \<Longrightarrow> l2 ci = Some (redis_ops c)"
  by (simp_all add: redis_member_def alone_def)

text \<open>The abstract store's clocks catch up.\<close>

lemma catch_up:
  assumes "load_step D (F, g) (G, g1)" "vseed (fl_l2 g1) \<le> sd"
  shows "(load_step D)\<^sup>*\<^sup>* (F, g) (G, g1\<lparr>fl_now := fl_now g1, fl_l2 := (fl_l2 g1)\<lparr>vclock := t', vseed := sd\<rparr>\<rparr>)"
proof -
  have "fleet_step D g1 (g1\<lparr>fl_now := fl_now g1, fl_l2 := (fl_l2 g1)\<lparr>vclock := t', vseed := sd\<rparr>\<rparr>)" by (rule Time) (simp_all add: assms(2))
  then show ?thesis using assms(1) by (meson Whole converse_rtranclp_into_rtranclp r_into_rtranclp)
qed

lemma whole_steps: "(fleet_step D)\<^sup>*\<^sup>* g g' \<Longrightarrow> (load_step D)\<^sup>*\<^sup>* (F, g) (F, g')"
  by (induction rule: rtranclp_induct) (auto intro: Whole rtranclp.rtrancl_into_rtrancl)

lemma lookup_stands_for:
  assumes C: "redis_member h c ci" and g: "stands_for c obj micros f g"
  shows "stands_for c obj micros (snd (at_node i (lookup ci key) f)) (snd (at_node i (lookup (over vs_ops ci) key) g))"
proof -
  obtain x s' where s': "run_state (lookup ci key) (starts i f) = (x, s')" by fastforce
  note kept = l2_simulation.kept_lookup [OF simulation redis_memberD(1) [OF C], of _ "\<lambda>a b. a = fl_l2 f \<and> b = fl_l2 g"]
  from corr_run [OF kept refl _ s', of "fl_l2 g"]
  have "run_state (lookup (over vs_ops ci) key) (with_l2 (fl_l2 g) (starts i f)) = (x, with_l2 (fl_l2 g) s')" "l2_st s' = fl_l2 f"
    by auto
  then show ?thesis using s' g by (auto simp: at_node_def stands_for_start [OF g] Let_def) (auto simp: stands_for_def)
qed

lemma load_step_stands_for:
  assumes C: "\<And>i. redis_member h c (C i)" "apart C" and step: "redis_load_step c obj micros C (F, f) (F', f')"
    and g: "stands_for c obj micros f g" and inv: "loads_inv h cap (\<lambda>i. over vs_ops (C i)) (F, g)"
  shows "\<exists>g'. (load_step (\<lambda>i. over vs_ops (C i)))\<^sup>*\<^sup>* (F, g) (F', g') \<and> stands_for c obj micros f' g'"
proof -
  let ?D = "\<lambda>i. over vs_ops (C i)"
  have D: "member h (?D i)" "l2 (?D i) = Some vs_ops" "env (C i) = quiet" for i
    using redis_member_over [OF C(1)] redis_memberD [OF C(1)] by simp_all
  have ginv: "fleet_inv h cap ?D g" using inv by (simp add: loads_inv_def)
  have nows: "fl_now g = fl_now f" using g by (simp add: stands_for_def)
  from step show ?thesis
  proof cases
    case RWhole
    then show ?thesis using step_stands_for [OF C RWhole(2) g ginv] whole_steps by blast
  next
    case (RLookup i key)
    have "load_step ?D (F, g) (F, snd (at_node i (lookup (?D i) key) g))" by (rule Lookup [OF stands_for_roomy [OF g RLookup(4)]])
    then show ?thesis using lookup_stands_for [OF C(1) [of i] g, of i key] RLookup(1,2) by blast
  next
    case (RBegin i key r)
    note room = stands_for_roomy [OF g RBegin(3)]
    note corr = l2_simulation.corr_fill_begin [OF simulation D(3)]
    obtain g1 t' sd where g1: "at_node i (fill_begin (?D i) vs_ops (keyString (C i) key)) g = (r, g1)" "vseed (fl_l2 g1) \<le> sd"
        "stands_for c obj micros f' (g1\<lparr>fl_now := fl_now g1, fl_l2 := (fl_l2 g1)\<lparr>vclock := t', vseed := sd\<rparr>\<rparr>)"
      using prog_stands_for [OF g RBegin(3,2) corr RBegin(4,5) fill_begin_post(1) [OF D(1) starts_ok [OF ginv room]]] by blast
    have "load_step ?D (F, g) (F', g1)" using Begin [where C = ?D and i = i and key = key and r = r and g = g1 and F = F, OF room D(2)] g1(1) RBegin(1) by simp
    then show ?thesis using catch_up [OF _ g1(2)] g1(3) by blast
  next
    case (RFinish i key x r)
    note room = stands_for_roomy [OF g RFinish(4)]
    note corr = l2_simulation.corr_fill_finish [OF simulation D(3) RFinish(2)]
    have x: "outdated (fl_l2 g) (fl_now g) (keyString (C i) key) x" by (rule flight_outdated) (use inv RFinish(5) in \<open>auto simp: loads_inv_def\<close>)
    have post: "node_post h cap (?D i) (starts i g) (snd (run_state (fill_finish (?D i) vs_ops key (keyString (C i) key) x) (starts i g)))"
      by (rule fill_finish_post [OF D(1) starts_ok [OF ginv room]]) (use x in simp)
    obtain g1 t' sd where g1: "at_node i (fill_finish (?D i) vs_ops key (keyString (C i) key) x) g = (r, g1)" "vseed (fl_l2 g1) \<le> sd"
        "stands_for c obj micros f' (g1\<lparr>fl_now := fl_now g1, fl_l2 := (fl_l2 g1)\<lparr>vclock := t', vseed := sd\<rparr>\<rparr>)"
      using prog_stands_for [OF g RFinish(4,3) corr RFinish(6,7) post] by blast
    have "load_step ?D (F, g) (F', g1)" using Finish [where C = ?D and i = i, OF room D(2) RFinish(5)] g1(1) RFinish(1) by simp
    then show ?thesis using catch_up [OF _ g1(2)] g1(3) by blast
  qed
qed

lemma load_run_stands_for:
  assumes C: "\<And>i. redis_member h c (C i)" "apart C" and g0: "stands_for c obj micros f0 g0" "new_fleet h cap g0"
    and run: "(redis_load_step c obj micros C)\<^sup>*\<^sup>* ([], f0) p"
  shows "\<exists>g. stands_for c obj micros (snd p) g \<and> loads_inv h cap (\<lambda>i. over vs_ops (C i)) (fst p, g)"
  using run
proof induction
  case base
  have "seed (micros (server (fl_l2 f0))) < 2 ^ 53" "0 < seed (micros (server (fl_l2 f0)))" using seed_bound by (simp_all add: seed_def)
  then have "0 < vseed (fl_l2 g0)"
    using g0(1) version_roundtrip [of "seed (micros (server (fl_l2 f0)))"] by (simp add: stands_for_def word_less_nat_alt)
  then have "loads_inv h cap (\<lambda>i. over vs_ops (C i)) ([], g0)" using new_fleet_inv [OF g0(2)] by (simp add: loads_inv_def)
  then show ?case using g0(1) by (intro exI [of _ g0]) simp
next
  case (step p q)
  then obtain g where g: "stands_for c obj micros (snd p) g" "loads_inv h cap (\<lambda>i. over vs_ops (C i)) (fst p, g)" by blast
  obtain g' where g': "(load_step (\<lambda>i. over vs_ops (C i)))\<^sup>*\<^sup>* (fst p, g) (fst q, g')" "stands_for c obj micros (snd q) g'"
    using load_step_stands_for [OF C, of "fst p" "snd p" "fst q" "snd q"] step(2) g by auto
  have "loads_inv h cap (\<lambda>i. over vs_ops (C i)) (fst q, g')"
    using g'(1) g(2) by (induction rule: rtranclp_induct) (auto intro: load_step_inv [OF redis_member_over [OF C(1)] apart_over [OF C(2)]])
  then show ?case using g'(2) by blast
qed

end

section \<open>Coherence\<close>

text \<open>
  C3: A fleet over Redis is coherent, also while loads are in flight. Instances with different IDs use the Redis
  store on one server, which behaves as documented; every command and its reply arrive, and the codec decodes
  what it encodes. Each instance runs any methods but \<open>InvalidateTag\<close>; a \<open>GetOrLoad\<close> or a refresh is interrupted
  before its fill and for as long as its loader runs, and everything else a method does it does
  uninterrupted. Loaders return whatever they like, or never, events are delivered in any order, late,
  repeatedly or never, time passes, other clients leave the entries alone, and keys expire once nothing
  fresh is in them and the server's clock is past their version. Then for a positive L1 entry that an open
  instance would serve as fresh, a \<open>Load\<close> from Redis at that moment returns the very same entry, or an
  event that will evict it has been published and not reached the instance yet. (Without reliable replies
  this fails: a \<open>Set\<close> whose reply is lost has stored its value and publishes nothing.)
\<close>

theorem redis_fleet_coherent:
  assumes redis: "redis_shared c obj micros" and C: "\<And>i. redis_member h c (C i)" "apart C"
    and start: "new_fleet h cap f0" "keyspace c obj (server (fl_l2 f0))" "decodes c obj (server (fl_l2 f0))"
    and run: "(redis_load_step c obj micros C)\<^sup>*\<^sup>* ([], f0) (F, f)"
    and entry: "\<not> closed (fl_node f i)" "mem_held h (l1_st (fl_node f i)) k = Some e" "\<not> Negative e" "Fresh e (fl_now f)"
  shows "fst (run_state (redis_Load c k) (fl_l2 f)) = (e, True, None)
    \<or> (\<exists>ev \<in> set (fl_log f). k \<in> set (Keys ev) \<and> OriginID ev \<noteq> originID (C i) \<and> ID ev \<notin> fl_got f i)"
proof -
  let ?D = "\<lambda>i. over vs_ops (C i)"
  obtain g where g: "stands_for c obj micros f g" "loads_inv h cap ?D (F, g)"
    using redis_shared.load_run_stands_for [OF redis C spec_fleet_stands [OF start(2,3)] spec_fleet_new [OF start(1)] run] by auto
  obtain b where b: "fl_node g i = with_l2 b (fl_node f i)" using g(1) by (auto simp: stands_for_def)
  have eq: "fl_now g = fl_now f" "fl_log g = fl_log f" "fl_got g = fl_got f" "redis_linked c obj (fl_l2 f) (fl_l2 g)"
    using g(1) by (simp_all add: stands_for_def)
  have "coherent h ?D g" using g(2) by (simp add: loads_inv_def fleet_inv_def)
  from coherentD [OF this, of i k e] entry have "cells (fl_l2 g) k = Live e \<or> pending (?D i) i k g" by (simp add: b eq)
  then show ?thesis
    using redis_shared.Load_corresponds(1) [OF redis eq(4), of k] by (auto simp: pending_def eq vs_Load_def)
qed

lemma tally_loads_reached: "(redis_load_step tally_redis ref_obj ref_micros tally_fleet)\<^sup>*\<^sup>* ([], tally_start) ([], tally_written)"
  using tally_reached by (induction rule: rtranclp_induct) (auto intro: RWhole rtranclp.rtrancl_into_rtrancl)

theorem redis_fleet_coherent_witness:
  "\<exists>e. mem_held demo_hash (l1_st (fl_node tally_written 0)) ''k'' = Some e \<and> Value e = 7
     \<and> (fst (run_state (redis_Load tally_redis ''k'') (fl_l2 tally_written)) = (e, True, None)
        \<or> (\<exists>ev \<in> set (fl_log tally_written). ''k'' \<in> set (Keys ev) \<and> OriginID ev \<noteq> originID (tally_fleet 0) \<and> ID ev \<notin> fl_got tally_written 0))"
proof -
  let ?b = "vs_empty\<lparr>vclock := 1000, vseed := of_nat (seed 3000000)\<rparr>" and ?s = "demo_state tally_l2 :: (int memcache, ref_server l2state, gokey list) cstate"
  obtain err s' where run: "run_state (cache_Set (tally_fleet 0) ''k'' 7 [WithTags []]) ?s = (err, s')" by fastforce
  have s: "with_l2 ?b ?s = demo_state ?b" "clock_now ?s = 1000" by (simp_all add: with_l2_def demo_state_def)
  have al: "alone (redis_ops tally_redis) (tally_fleet 0)" using tally_member by (simp add: redis_member_def)
  have rd: "redis_ready tally_redis ref_obj ref_micros (l2_st ?s) ?b" using tally_ready by (simp add: demo_state_def)
  obtain b' where b': "run_state (cache_Set (demo_fleet 0) ''k'' 7 [WithTags []]) (demo_state ?b) = (err, with_l2 b' s')"
    using corr_run [OF tally_shared.shared.corr_Set [OF al tally_windows] s(2) rd run] by (auto simp: tally_over s)
  have seed: "of_nat (seed 3000000) < (2 ^ 53 :: u64)" by (simp add: seed_def)
  have ok: "\<not> closed (demo_state ?b :: (int memcache, int vstore, gokey list) cstate)" "node_ok demo_hash 1 (demo_state ?b :: (int memcache, int vstore, gokey list) cstate)"
    using demo_store_ok seed by (simp_all add: node_ok_def dated_def demo_state_def roomy_def vs_empty_def)
  obtain e where e: "mem_held demo_hash (l1_st s') ''k'' = Some e" "Value e = 7" "\<not> Negative e" "Fresh e 1000" "\<not> closed s'"
    using Set_stores [OF demo_member ok, of "''k''" 0 "''k''" 7 "[WithTags []]"] demo_lasting [of 0] b'
    by (auto simp: demo_state_def Fresh_def demo_fleet_def)
  have w: "fl_node tally_written 0 = s'" "fl_now tally_written = 1000"
    using run by (simp_all add: tally_written_def on_node_def at_node_def tally_start_def demo_state_def Let_def)
  have "new_fleet demo_hash 1 tally_start" using demo_store_ok by (auto simp: new_fleet_def tally_start_def demo_state_def)
  moreover have "keyspace tally_redis ref_obj (server (fl_l2 tally_start))" "decodes tally_redis ref_obj (server (fl_l2 tally_start))"
    using tally_ready by (simp_all add: redis_ready_def redis_linked_def tally_start_def)
  ultimately show ?thesis
    using redis_fleet_coherent [OF tally_shared.redis_shared_axioms tally_member tally_apart _ _ _ tally_loads_reached, of 1 0 "''k''" e] e w by auto
qed

end
