(* ===== verification/Builder.thy ===== *)
theory Builder
  imports Cache_Inval Go_Strconv
begin

text \<open>
  builder.go and loader.go: the configuration, its validation and defaults, what \<open>Build\<close> assembles, and
  the default rendering of keys.

  An interface value is nil (\<open>None\<close>) or its operations; the state behind an L1 given to the builder
  comes with it, the state of the shared L2 is part of the world \<open>Build\<close> runs in. What lies outside the
  module is the record \<open>runtime\<close>: singleflight, random numbers, the hash of the memory store, the system
  clock, the iteration order of maps, \<open>fmt.Sprint\<close>, and the interference the finished cache will run
  under. Error texts that print a value are shortened to their constant part.
\<close>

section \<open>Keys\<close>

text \<open>A key as an \<open>any\<close>: its dynamic type and value. Other types go to \<open>fmt.Sprint\<close>, a parameter.\<close>

datatype 'x goval =
    VString string
  | VInt "64 word" | VInt64 "64 word" | VInt32 "32 word" | VInt16 "16 word" | VInt8 "8 word"
  | VUint "64 word" | VUint64 "64 word" | VUint32 "32 word" | VUint16 "16 word" | VUint8 "8 word"
  | VOther 'x

fun defaultKeyString :: "('x \<Rightarrow> string) \<Rightarrow> 'x goval \<Rightarrow> string" where
  "defaultKeyString sprint (VString x) = x"
| "defaultKeyString sprint (VInt w) = FormatInt (sint w)"
| "defaultKeyString sprint (VInt64 w) = FormatInt (sint w)"
| "defaultKeyString sprint (VInt32 w) = FormatInt (sint (scast w :: 64 word))"
| "defaultKeyString sprint (VInt16 w) = FormatInt (sint (scast w :: 64 word))"
| "defaultKeyString sprint (VInt8 w) = FormatInt (sint (scast w :: 64 word))"
| "defaultKeyString sprint (VUint w) = FormatUint (ucast w)"
| "defaultKeyString sprint (VUint64 w) = FormatUint w"
| "defaultKeyString sprint (VUint32 w) = FormatUint (ucast w)"
| "defaultKeyString sprint (VUint16 w) = FormatUint (ucast w)"
| "defaultKeyString sprint (VUint8 w) = FormatUint (ucast w)"
| "defaultKeyString sprint (VOther x) = sprint x"

section \<open>Refresh modes and refreshers\<close>

type_synonym refresh_mode = int

definition RefreshRequestBound :: refresh_mode where "RefreshRequestBound = 0"
definition RefreshBackground :: refresh_mode where "RefreshBackground = 1"

definition RefreshMode_String :: "refresh_mode \<Rightarrow> string" where
  "RefreshMode_String m = (if m = RefreshRequestBound then ''request-bound''
     else if m = RefreshBackground then ''background'' else ''unknown'')"

text \<open>The \<open>Refresher\<close> interface value: one of the two implementations, called by its dynamic type.\<close>

datatype 'j refresher_value = InBackground "'j background" | InRequest "'j request_bound"

definition refresher_iface :: "('j refresher_value, 'j) refresher_ops" where
  "refresher_iface = \<lparr>ref_Schedule = (\<lambda>k j r. case r of
       InBackground b \<Rightarrow> map_prod id InBackground (ref_Schedule background_ops k j b)
     | InRequest q \<Rightarrow> map_prod id InRequest (ref_Schedule request_bound_ops k j q)),
     ref_Close = (\<lambda>r. case r of
       InBackground b \<Rightarrow> map_prod id InBackground (ref_Close background_ops b)
     | InRequest q \<Rightarrow> map_prod id InRequest (ref_Close request_bound_ops q))\<rparr>"

section \<open>The configuration\<close>

datatype bus_value = NilBus | NopBus | RealBus

record ('k, 'v, 'a, 'b) config =
  cfg_loader :: "('k \<Rightarrow> nat \<Rightarrow> go_error + 'v) option"
  cfg_l1 :: "(('a, 'v) l1_ops \<times> 'a) option"
  cfg_l2 :: "('b, 'v) l2_ops option"
  cfg_bus :: bus_value
  cfg_clk :: "mock option"
  cfg_keyString :: "('k \<Rightarrow> string) option"
  cfg_fresh :: duration
  cfg_staleWindow :: duration
  cfg_negTTL :: duration
  cfg_maxTTL :: duration
  cfg_jitter :: float64
  cfg_refresh :: refresh_mode
  cfg_refreshWorkers :: int
  cfg_refreshTimeout :: duration
  cfg_refreshMaxInFlight :: int

text \<open>The clock is \<open>clock.System\<close> (\<open>None\<close>, also what a nil clock becomes) or a mock.\<close>

definition NewBuilder :: "('k \<Rightarrow> nat \<Rightarrow> go_error + 'v) option \<Rightarrow> ('k, 'v, 'a, 'b) config" where
  "NewBuilder ld = \<lparr>cfg_loader = ld, cfg_l1 = None, cfg_l2 = None, cfg_bus = NilBus, cfg_clk = None,
     cfg_keyString = None, cfg_fresh = 0, cfg_staleWindow = 0, cfg_negTTL = 0, cfg_maxTTL = 0, cfg_jitter = Fin 0,
     cfg_refresh = RefreshRequestBound, cfg_refreshWorkers = 0, cfg_refreshTimeout = 0, cfg_refreshMaxInFlight = 0\<rparr>"

definition Builder_L1 :: "(('a, 'v) l1_ops \<times> 'a) option \<Rightarrow> ('k, 'v, 'a, 'b) config \<Rightarrow> ('k, 'v, 'a, 'b) config" where
  "Builder_L1 x b = b\<lparr>cfg_l1 := x\<rparr>"

definition Builder_L2 :: "('b, 'v) l2_ops option \<Rightarrow> ('k, 'v, 'a, 'b) config \<Rightarrow> ('k, 'v, 'a, 'b) config" where
  "Builder_L2 x b = b\<lparr>cfg_l2 := x\<rparr>"

definition Builder_Bus :: "bus_value \<Rightarrow> ('k, 'v, 'a, 'b) config \<Rightarrow> ('k, 'v, 'a, 'b) config" where
  "Builder_Bus x b = b\<lparr>cfg_bus := x\<rparr>"

definition Builder_TTL :: "duration \<Rightarrow> duration \<Rightarrow> ('k, 'v, 'a, 'b) config \<Rightarrow> ('k, 'v, 'a, 'b) config" where
  "Builder_TTL f w b = b\<lparr>cfg_fresh := f, cfg_staleWindow := w\<rparr>"

definition Builder_Jitter :: "float64 \<Rightarrow> ('k, 'v, 'a, 'b) config \<Rightarrow> ('k, 'v, 'a, 'b) config" where
  "Builder_Jitter x b = b\<lparr>cfg_jitter := x\<rparr>"

definition Builder_NegativeTTL :: "duration \<Rightarrow> ('k, 'v, 'a, 'b) config \<Rightarrow> ('k, 'v, 'a, 'b) config" where
  "Builder_NegativeTTL d b = b\<lparr>cfg_negTTL := d\<rparr>"

definition Builder_MaxTTL :: "duration \<Rightarrow> ('k, 'v, 'a, 'b) config \<Rightarrow> ('k, 'v, 'a, 'b) config" where
  "Builder_MaxTTL d b = b\<lparr>cfg_maxTTL := d\<rparr>"

definition Builder_RefreshMode :: "refresh_mode \<Rightarrow> ('k, 'v, 'a, 'b) config \<Rightarrow> ('k, 'v, 'a, 'b) config" where
  "Builder_RefreshMode m b = b\<lparr>cfg_refresh := m\<rparr>"

definition Builder_BackgroundRefresh :: "int \<Rightarrow> ('k, 'v, 'a, 'b) config \<Rightarrow> ('k, 'v, 'a, 'b) config" where
  "Builder_BackgroundRefresh n b = b\<lparr>cfg_refresh := RefreshBackground, cfg_refreshWorkers := n\<rparr>"

definition Builder_RefreshTimeout :: "duration \<Rightarrow> ('k, 'v, 'a, 'b) config \<Rightarrow> ('k, 'v, 'a, 'b) config" where
  "Builder_RefreshTimeout d b = b\<lparr>cfg_refreshTimeout := d\<rparr>"

definition Builder_MaxConcurrentRefresh :: "int \<Rightarrow> ('k, 'v, 'a, 'b) config \<Rightarrow> ('k, 'v, 'a, 'b) config" where
  "Builder_MaxConcurrentRefresh n b = b\<lparr>cfg_refreshMaxInFlight := n\<rparr>"

definition Builder_Clock :: "mock option \<Rightarrow> ('k, 'v, 'a, 'b) config \<Rightarrow> ('k, 'v, 'a, 'b) config" where
  "Builder_Clock x b = b\<lparr>cfg_clk := x\<rparr>"

definition Builder_KeyString :: "('k \<Rightarrow> string) option \<Rightarrow> ('k, 'v, 'a, 'b) config \<Rightarrow> ('k, 'v, 'a, 'b) config" where
  "Builder_KeyString f b = b\<lparr>cfg_keyString := f\<rparr>"

section \<open>Build\<close>

record ('k, 'v, 'a, 'b, 'x) runtime =
  rt_memory :: "(('a, 'v) l1_ops \<times> 'a) option"
  rt_any :: "'k \<Rightarrow> 'x goval"
  rt_Sprint :: "'x \<Rightarrow> string"
  rt_now :: time
  rt_env :: "nat \<Rightarrow> ('a, 'b, 'k refresher_value) cstate \<Rightarrow> ('a, 'b, 'k refresher_value) cstate"
  rt_singleflight :: "gokey \<Rightarrow> ('v, 'a, 'b, 'k refresher_value) flight \<Rightarrow>
    (('a, 'b, 'k refresher_value) cstate, (go_error + 'v option) \<times> bool) state"
  rt_is_nil :: "'v \<Rightarrow> bool"
  rt_crand :: "nat \<Rightarrow> 8 word list"
  rt_mrand :: "nat \<Rightarrow> rat"
  rt_f64_ovf :: int
  rt_range_order :: "gokey list \<Rightarrow> gokey list"

text \<open>
  \<open>rt_memory\<close> is the value of \<open>memory.New(memory.WithClock(clk))\<close> as a \<open>Store\<close>; for a cache over the
  memory store it is \<open>memory_value\<close> (the model hands the clock's reading to each call).
\<close>

definition memory_value :: "(gokey \<Rightarrow> u64) \<Rightarrow> (('v::zero memcache, 'v) l1_ops \<times> 'v memcache) option" where
  "memory_value h = map_option (Pair (memory_ops h)) (mem_New [])"

definition effective_timeout :: "duration \<Rightarrow> duration" where
  "effective_timeout d = (if d \<le> 0 then 5 * Second else d)"

definition new_refresher :: "('k, 'v, 'a, 'b) config \<Rightarrow> duration \<Rightarrow> 'k refresher_value" where
  "new_refresher cfg timeout =
     (if cfg_refresh cfg = RefreshBackground
      then let workers = (if cfg_refreshWorkers cfg \<le> 0 then 4 else cfg_refreshWorkers cfg)
           in InBackground (NewBackground workers 1024 timeout)
      else InRequest (NewRequestBound timeout (cfg_refreshMaxInFlight cfg)))"

text \<open>The check of the tombstone TTL, and the two halves of the \<open>cache\<close> literal.\<close>

definition tombstone_short :: "('k, 'v, 'a, 'b) config \<Rightarrow> duration \<Rightarrow> bool" where
  "tombstone_short cfg refreshTimeout = (case cfg_l2 cfg of
       None \<Rightarrow> False
     | Some L2 \<Rightarrow> (case l2_TombstoneTTL L2 of None \<Rightarrow> False | Some ttl \<Rightarrow> 0 < ttl \<and> ttl \<le> refreshTimeout))"

definition new_cache ::
  "('k, 'v, 'a, 'b, 'x) runtime \<Rightarrow> ('k, 'v, 'a, 'b) config \<Rightarrow> ('k \<Rightarrow> nat \<Rightarrow> go_error + 'v) \<Rightarrow> ('a, 'v) l1_ops \<Rightarrow>
    ('k, 'v, 'a, 'b, 'k refresher_value) cache" where
  "new_cache rt cfg ld L1 =
     \<lparr>loader = ld, l1 = L1, l2 = cfg_l2 cfg, bus = True, refresher = refresher_iface,
      keyString = (case cfg_keyString cfg of
          None \<Rightarrow> (\<lambda>k. defaultKeyString (rt_Sprint rt) (rt_any rt k))
        | Some f \<Rightarrow> f),
      originID = EncodeToString (rt_crand rt 0), fresh = cfg_fresh cfg, staleWindow = cfg_staleWindow cfg,
      negTTL = cfg_negTTL cfg, maxTTL = cfg_maxTTL cfg, jitter = cfg_jitter cfg, env = rt_env rt,
      xsf_Do = rt_singleflight rt, is_nil = rt_is_nil rt, crand = rt_crand rt, mrand = rt_mrand rt,
      f64_ovf = rt_f64_ovf rt, range_order = rt_range_order rt\<rparr>"

definition new_state ::
  "('k, 'v, 'a, 'b, 'x) runtime \<Rightarrow> ('k, 'v, 'a, 'b) config \<Rightarrow> 'a \<Rightarrow> 'b \<Rightarrow> 'k refresher_value \<Rightarrow>
    ('a, 'b, 'k refresher_value) cstate" where
  "new_state rt cfg l1_0 l2_0 ref =
     \<lparr>l1_st = l1_0, l2_st = l2_0, ref_st = ref,
      clock_now = (case cfg_clk cfg of None \<Rightarrow> rt_now rt | Some m \<Rightarrow> Mock_Now m),
      dedupe_st = Some (NewDedupe 4096), tags = [], closed = False, closeDone = False, closeErr = None,
      subscribed = ((if cfg_bus cfg = NilBus then NopBus else cfg_bus cfg) \<noteq> NopBus),
      stats = zero_counters, outbox = [], ticks = 0, id_draws = 1, jitter_draws = 0\<rparr>"

text \<open>\<open>None\<close> is a call that does not return, as \<open>memory.New\<close> may not.\<close>

definition Build ::
  "('k, 'v, 'a, 'b, 'x) runtime \<Rightarrow> 'b \<Rightarrow> ('k, 'v, 'a, 'b) config \<Rightarrow>
    (go_error + ('k, 'v, 'a, 'b, 'k refresher_value) cache \<times> ('a, 'b, 'k refresher_value) cstate) option" where
  "Build rt l2_0 cfg = (case cfg_loader cfg of
       None \<Rightarrow> Some (Inl (ErrMsg ''nimbus: a loader is required''))
     | Some ld \<Rightarrow>
         if f64_less (cfg_jitter cfg) (Fin 0) \<or> f64_less (Fin 1) (cfg_jitter cfg)
         then Some (Inl (ErrMsg ''nimbus: jitter must be in [0,1]''))
         else if cfg_fresh cfg < 0 \<or> cfg_staleWindow cfg < 0 \<or> cfg_negTTL cfg < 0 \<or> cfg_maxTTL cfg < 0
         then Some (Inl (ErrMsg ''nimbus: durations must not be negative''))
         else case (case cfg_l1 cfg of None \<Rightarrow> rt_memory rt | Some x \<Rightarrow> Some x) of
             None \<Rightarrow> None
           | Some (L1, l1_0) \<Rightarrow>
               let refreshTimeout = effective_timeout (cfg_refreshTimeout cfg)
               in Some
                   (if tombstone_short cfg refreshTimeout
                    then Inl (ErrMsg ''nimbus: L2 tombstone TTL must exceed the refresh timeout'')
                    else Inr (new_cache rt cfg ld L1, new_state rt cfg l1_0 l2_0 (new_refresher cfg refreshTimeout))))"

section \<open>Validation\<close>

text \<open>
  What builder.go documents as invalid: no loader; a jitter that is not in the unit interval (the comment
  of \<open>Jitter\<close>), and no NaN and no infinity is; a negative TTL, stale window, negative TTL or maximal TTL;
  and a tombstone TTL of the L2 that does not exceed the refresh timeout, where the L2 has one.
\<close>

fun in_unit_interval :: "float64 \<Rightarrow> bool" where
  "in_unit_interval (Fin x) \<longleftrightarrow> 0 \<le> x \<and> x \<le> 1"
| "in_unit_interval _ \<longleftrightarrow> False"

definition config_invalid :: "('k, 'v, 'a, 'b) config \<Rightarrow> bool" where
  "config_invalid cfg \<longleftrightarrow> cfg_loader cfg = None \<or> \<not> in_unit_interval (cfg_jitter cfg)
     \<or> (\<exists>d \<in> {cfg_fresh cfg, cfg_staleWindow cfg, cfg_negTTL cfg, cfg_maxTTL cfg}. d < 0)
     \<or> (\<exists>L2 ttl. cfg_l2 cfg = Some L2 \<and> l2_TombstoneTTL L2 = Some ttl \<and> 0 < ttl \<and> ttl \<le> effective_timeout (cfg_refreshTimeout cfg))"

text \<open>The one exception: a configuration invalid for nothing but a jitter that is NaN.\<close>

definition only_nan_jitter :: "('k, 'v, 'a, 'b) config \<Rightarrow> bool" where
  "only_nan_jitter cfg \<longleftrightarrow> cfg_jitter cfg = NaN \<and> \<not> config_invalid (cfg\<lparr>cfg_jitter := Fin 0\<rparr>)"

definition config_bad :: "('k, 'v, 'a, 'b) config \<Rightarrow> bool" where
  "config_bad cfg \<longleftrightarrow> config_invalid cfg \<and> \<not> only_nan_jitter cfg"

lemma config_bad_guards:
  "config_bad cfg \<longleftrightarrow> cfg_loader cfg = None
     \<or> f64_less (cfg_jitter cfg) (Fin 0) \<or> f64_less (Fin 1) (cfg_jitter cfg)
     \<or> cfg_fresh cfg < 0 \<or> cfg_staleWindow cfg < 0 \<or> cfg_negTTL cfg < 0 \<or> cfg_maxTTL cfg < 0
     \<or> (\<exists>L2 ttl. cfg_l2 cfg = Some L2 \<and> l2_TombstoneTTL L2 = Some ttl \<and> 0 < ttl \<and> ttl \<le> effective_timeout (cfg_refreshTimeout cfg))"
  unfolding config_bad_def only_nan_jitter_def config_invalid_def
  by (cases "cfg_jitter cfg") (auto simp: not_le)

lemma tombstone_short_iff:
  "tombstone_short cfg t \<longleftrightarrow> (\<exists>L2 ttl. cfg_l2 cfg = Some L2 \<and> l2_TombstoneTTL L2 = Some ttl \<and> 0 < ttl \<and> ttl \<le> t)"
  by (auto simp: tombstone_short_def split: option.splits)

lemma Build_outcome:
  assumes "rt_memory rt = Some x"
  shows "if config_bad cfg then \<exists>e. Build rt l2_0 cfg = Some (Inl e)
    else \<exists>ld. cfg_loader cfg = Some ld \<and> Build rt l2_0 cfg = Some (Inr
      (new_cache rt cfg ld (fst (case cfg_l1 cfg of None \<Rightarrow> x | Some y \<Rightarrow> y)),
       new_state rt cfg (snd (case cfg_l1 cfg of None \<Rightarrow> x | Some y \<Rightarrow> y)) l2_0
         (new_refresher cfg (effective_timeout (cfg_refreshTimeout cfg)))))"
  using assms by (cases "cfg_loader cfg"; cases "cfg_l1 cfg"; cases x)
    (auto simp: Build_def config_bad_guards Let_def tombstone_short_iff)

lemma memory_value_Some: "\<exists>m. mem_New [] = Some m \<and> memory_value h = Some (memory_ops h, m)"
proof -
  have "roundUpPow2 16 = Some 16" by (simp add: roundUpPow2_def pow2_loop.simps i64_def)
  then show ?thesis by (simp add: memory_value_def mem_New_def defaultConfig_def)
qed

lemma default_store:
  assumes "mem_New [] = Some m"
  shows "mem_ok h 625 m" "mem_held h m = Map.empty"
proof -
  have "roundUpPow2 16 = Some 16" by (simp add: roundUpPow2_def pow2_loop.simps i64_def)
  then have "length (shards m) = 16" using assms by (auto simp: mem_New_def defaultConfig_def)
  then show "mem_ok h 625 m" "mem_held h m = Map.empty"
    using mem_New_ok [OF assms] by (simp_all add: defaultConfig_def per_shard_def go_div_def i64_def)
qed

text \<open>
  C30: Validation. \<open>Build\<close> always returns. It refuses exactly the configurations that are documented as
  invalid (no loader, a jitter that is not in [0,1], a negative duration, or an L2 whose positive tombstone
  TTL does not exceed the refresh timeout, 5 seconds where none is set), with one exception: it accepts a
  configuration that is invalid for nothing but a jitter that is NaN, since a NaN is neither below 0 nor above
  1. What it accepts satisfies the conditions the rest of the program relies on: the tombstones of the L2
  outlive a refresh, and the windows of the entries are the ones of \<open>lifetimes_ok\<close>, for a fresh TTL of at
  most \<open>2 ^ 61\<close> nanoseconds and a source of random numbers between 0 and 1.
\<close>

theorem build_validates:
  fixes cfg :: "('k, 'v::zero, 'v memcache, 'b) config"
  assumes "rt_memory rt = memory_value h"
  shows "if config_invalid cfg \<and> \<not> only_nan_jitter cfg then \<exists>e. Build rt l2_0 cfg = Some (Inl e)
    else \<exists>c s. Build rt l2_0 cfg = Some (Inr (c, s))
      \<and> (\<forall>L2 ttl. l2 c = Some L2 \<longrightarrow> l2_TombstoneTTL L2 = Some ttl \<longrightarrow> 0 < ttl \<longrightarrow> effective_timeout (cfg_refreshTimeout cfg) < ttl)
      \<and> ((\<forall>n. 0 \<le> rt_mrand rt n \<and> rt_mrand rt n < 1) \<longrightarrow> cfg_fresh cfg \<le> 2 ^ 61 \<longrightarrow>
          (\<forall>fr. cfg_jitter cfg = Fin fr \<longrightarrow> dbl fr = fr) \<longrightarrow> lifetimes_ok c)"
proof (cases "config_bad cfg")
  case False
  have j: "case cfg_jitter cfg of Fin fr \<Rightarrow> 0 \<le> fr \<and> fr \<le> 1 | NaN \<Rightarrow> True | _ \<Rightarrow> False"
    using False by (cases "cfg_jitter cfg") (auto simp: config_bad_guards)
  have w: "0 \<le> cfg_staleWindow cfg" using False by (simp add: config_bad_guards)
  obtain m :: "'v memcache" where m: "rt_memory rt = Some (memory_ops h, m)" using memory_value_Some [of h] assms by auto
  obtain c s where c: "Build rt l2_0 cfg = Some (Inr (c, s))" "l2 c = cfg_l2 cfg" "fresh c = cfg_fresh cfg"
    "staleWindow c = cfg_staleWindow cfg" "jitter c = cfg_jitter cfg" "mrand c = rt_mrand rt"
    using Build_outcome [OF m, of cfg l2_0] False by (auto simp: new_cache_def)
  have "lifetimes_ok c"
    if "\<forall>n. 0 \<le> rt_mrand rt n \<and> rt_mrand rt n < 1" "cfg_fresh cfg \<le> 2 ^ 61" "\<forall>fr. cfg_jitter cfg = Fin fr \<longrightarrow> dbl fr = fr"
    using that j w c(3-) by (auto simp: lifetimes_ok_def jitter_ok_def split: float64.splits)
  moreover have "effective_timeout (cfg_refreshTimeout cfg) < ttl"
    if "l2 c = Some L2" "l2_TombstoneTTL L2 = Some ttl" "0 < ttl" for L2 ttl
    using False that c(2) by (fastforce simp: config_bad_guards)
  ultimately show ?thesis using False c(1) unfolding config_bad_def [symmetric] by simp
qed (use Build_outcome [of rt _ cfg l2_0] memory_value_Some [of h] assms in \<open>auto simp: config_bad_def\<close>)

text \<open>A runtime: no interference, and the reference choices for what is outside the module.\<close>

definition demo_runtime :: "(int, int, int memcache, int vstore, unit) runtime" where
  "demo_runtime = \<lparr>rt_memory = memory_value demo_hash, rt_any = (\<lambda>k. VInt (word_of_int k)), rt_Sprint = (\<lambda>_. ''''), rt_now = 1000,
     rt_env = quiet, rt_singleflight = sf_alone, rt_is_nil = (\<lambda>_. False), rt_crand = (\<lambda>n. [of_nat n]), rt_mrand = (\<lambda>_. 0),
     rt_f64_ovf = 0, rt_range_order = id\<rparr>"

definition demo_config :: "(int, int, int memcache, int vstore) config" where
  "demo_config = Builder_BackgroundRefresh 0 (Builder_L2 (Some (vs_ops\<lparr>l2_TombstoneTTL := Some (60 * Second)\<rparr>))
     (Builder_TTL (30 * Second) Minute (NewBuilder (Some (\<lambda>k _. Inr k)))))"

lemmas demo_config_defs = demo_config_def Builder_BackgroundRefresh_def Builder_L2_def Builder_TTL_def NewBuilder_def

lemma demo_config_good: "\<not> config_invalid demo_config"
  "config_invalid (Builder_RefreshTimeout Minute demo_config)" "\<not> only_nan_jitter (Builder_RefreshTimeout Minute demo_config)"
  "config_invalid (Builder_Jitter NaN demo_config)" "only_nan_jitter (Builder_Jitter NaN demo_config)"
  by (auto simp: config_invalid_def only_nan_jitter_def Builder_Jitter_def demo_config_defs Builder_RefreshTimeout_def effective_timeout_def duration_defs)

theorem build_validates_witness:
  "(\<exists>c s. Build demo_runtime vs_empty demo_config = Some (Inr (c, s)) \<and> lifetimes_ok c)
   \<and> (\<exists>e. Build demo_runtime vs_empty (Builder_RefreshTimeout Minute demo_config) = Some (Inl e))
   \<and> config_invalid (Builder_Jitter NaN demo_config)
   \<and> (\<exists>c s. Build demo_runtime vs_empty (Builder_Jitter NaN demo_config) = Some (Inr (c, s)))"
proof -
  have m: "rt_memory demo_runtime = memory_value demo_hash" by (simp add: demo_runtime_def)
  have "(\<forall>n. 0 \<le> rt_mrand demo_runtime n \<and> rt_mrand demo_runtime n < 1)" "cfg_fresh demo_config \<le> 2 ^ 61"
    "(\<forall>fr. cfg_jitter demo_config = Fin fr \<longrightarrow> dbl fr = fr)"
    by (simp_all add: demo_runtime_def demo_config_defs duration_defs)
  then show ?thesis
    using build_validates [OF m, of demo_config vs_empty] build_validates [OF m, of "Builder_RefreshTimeout Minute demo_config" vs_empty]
      build_validates [OF m, of "Builder_Jitter NaN demo_config" vs_empty] demo_config_good by auto
qed

text \<open>The refreshers as they are created.\<close>

lemma new_background:
  "bg_inv (NewBackground w q t)" "bg_inflight (NewBackground w q t) = []"
  "queueSize (NewBackground w q t) = nat (if q < 1 then 1 else q)" "length (pool (NewBackground w q t)) = nat (if w < 1 then 1 else w)"
  by (rule bg_inv_new) (simp_all add: NewBackground_def Let_def)

lemma new_request_bound:
  "rb_inv (NewRequestBound t n)" "sem (NewRequestBound t n) = 0" "sem_cap (NewRequestBound t n) = nat (if n < 1 then 16 else n)"
  by (rule rb_inv_new) (simp_all add: NewRequestBound_def Let_def defaultMaxConcurrentRefresh_def)

text \<open>
  What \<open>Build\<close> assembles. An accepted configuration without an L1 gets an empty memory store of 16
  shards with 625 entries each; the refresher is the worker pool exactly in background mode, with the
  configured number of workers, 4 where none is set, and a queue of 1024, and otherwise the
  request-bound one, idle in either case; the cache is open, all counters are zero, and it subscribes to
  its bus unless there is none or it is the no-op one.
\<close>

theorem build_assembles:
  fixes cfg :: "('k, 'v::zero, 'v memcache, 'b) config"
  assumes "rt_memory rt = memory_value h" "Build rt l2_0 cfg = Some (Inr (c, s))"
  shows "(cfg_l1 cfg = None \<longrightarrow> l1 c = memory_ops h \<and> mem_ok h 625 (l1_st s) \<and> mem_held h (l1_st s) = Map.empty)
    \<and> (case ref_st s of
         InBackground b \<Rightarrow> cfg_refresh cfg = RefreshBackground \<and> bg_inv b \<and> bg_inflight b = [] \<and> queueSize b = 1024
           \<and> int (length (pool b)) = (if cfg_refreshWorkers cfg \<le> 0 then 4 else cfg_refreshWorkers cfg)
       | InRequest q \<Rightarrow> cfg_refresh cfg \<noteq> RefreshBackground \<and> rb_inv q \<and> sem q = 0
           \<and> int (sem_cap q) = (if cfg_refreshMaxInFlight cfg < 1 then 16 else cfg_refreshMaxInFlight cfg))
    \<and> \<not> closed s \<and> stats s = zero_counters \<and> (subscribed s \<longleftrightarrow> cfg_bus cfg = RealBus)"
proof -
  obtain m :: "'v memcache" where m: "mem_New [] = Some m" "rt_memory rt = Some (memory_ops h, m)"
    using memory_value_Some [of h] assms by auto
  obtain ld where b: "c = new_cache rt cfg ld (fst (case cfg_l1 cfg of None \<Rightarrow> (memory_ops h, m) | Some y \<Rightarrow> y))"
    "s = new_state rt cfg (snd (case cfg_l1 cfg of None \<Rightarrow> (memory_ops h, m) | Some y \<Rightarrow> y)) l2_0
       (new_refresher cfg (effective_timeout (cfg_refreshTimeout cfg)))"
    using Build_outcome [OF m(2), of cfg l2_0] assms(2) by (auto split: if_splits)
  have s: "ref_st s = new_refresher cfg (effective_timeout (cfg_refreshTimeout cfg))" "\<not> closed s" "stats s = zero_counters"
    "subscribed s \<longleftrightarrow> cfg_bus cfg = RealBus"
    by (cases "cfg_bus cfg"; simp add: b(2) new_state_def)+
  have l: "l1 c = memory_ops h \<and> l1_st s = m" if "cfg_l1 cfg = None" using that b by (simp add: new_cache_def new_state_def)
  have "case new_refresher cfg (effective_timeout (cfg_refreshTimeout cfg)) of
      InBackground b \<Rightarrow> cfg_refresh cfg = RefreshBackground \<and> bg_inv b \<and> bg_inflight b = [] \<and> queueSize b = 1024
        \<and> int (length (pool b)) = (if cfg_refreshWorkers cfg \<le> 0 then 4 else cfg_refreshWorkers cfg)
    | InRequest q \<Rightarrow> cfg_refresh cfg \<noteq> RefreshBackground \<and> rb_inv q \<and> sem q = 0
        \<and> int (sem_cap q) = (if cfg_refreshMaxInFlight cfg < 1 then 16 else cfg_refreshMaxInFlight cfg)"
    by (simp add: new_refresher_def Let_def new_background new_request_bound)
  then show ?thesis using s l default_store [OF m(1), of h] by simp
qed

theorem build_assembles_witness:
  "\<exists>c s b. Build demo_runtime vs_empty demo_config = Some (Inr (c, s)) \<and> ref_st s = InBackground b \<and> length (pool b) = 4
     \<and> l1 c = memory_ops demo_hash \<and> mem_held demo_hash (l1_st s) = Map.empty"
proof -
  have m: "rt_memory demo_runtime = memory_value demo_hash" by (simp add: demo_runtime_def)
  obtain x where x: "rt_memory demo_runtime = Some x" using memory_value_Some [of demo_hash] m by auto
  obtain c s where b: "Build demo_runtime vs_empty demo_config = Some (Inr (c, s))"
    using Build_outcome [OF x, of demo_config vs_empty] demo_config_good by (auto simp: config_bad_def)
  have "cfg_l1 demo_config = None" "cfg_refresh demo_config = RefreshBackground" "cfg_refreshWorkers demo_config = 0"
    by (simp_all add: demo_config_defs)
  then show ?thesis using b build_assembles [OF m b] by (auto split: refresher_value.splits)
qed

section \<open>Refreshes and tombstones\<close>

definition refresh_deadline :: "'j refresher_value \<Rightarrow> time \<Rightarrow> time option" where
  "refresh_deadline r now = (case r of InBackground b \<Rightarrow> Background_context b now | InRequest q \<Rightarrow> RequestBound_context q now)"

lemma deadline_kept:
  "refresh_deadline (snd (ref_Schedule refresher_iface k j r)) now = refresh_deadline r now"
  "refresh_deadline (snd (ref_Close refresher_iface r)) now = refresh_deadline r now"
  by (cases r; simp add: refresher_iface_def refresh_deadline_def background_ops_def request_bound_ops_def Background_Schedule_def
      RequestBound_Schedule_def Background_Close_def RequestBound_Close_def Background_context_def RequestBound_context_def)+

text \<open>
  Every refresh of a built cache has a deadline, and a tombstone written while it runs is still there at the
  deadline: a loader that respects its context cannot outlast the delete it races with.
\<close>

theorem refresh_within_tombstone:
  assumes "Build rt l2_0 cfg = Some (Inr (c, s))"
  shows "\<exists>d. refresh_deadline (ref_st s) now = Some d \<and> now < d
    \<and> (\<forall>L2 ttl deleted. l2 c = Some L2 \<and> l2_TombstoneTTL L2 = Some ttl \<and> 0 < ttl \<and> now \<le> deleted \<longrightarrow> d < deleted + ttl)"
proof -
  let ?t = "effective_timeout (cfg_refreshTimeout cfg)"
  have "0 < ?t" by (simp add: effective_timeout_def duration_defs)
  moreover have "ref_st s = new_refresher cfg ?t" "l2 c = cfg_l2 cfg" "\<not> tombstone_short cfg ?t"
    using assms by (auto simp: Build_def Let_def new_state_def new_cache_def split: option.splits if_splits)
  ultimately have "refresh_deadline (ref_st s) now = Some (now + ?t)"
    by (simp add: new_refresher_def refresh_deadline_def NewBackground_def NewRequestBound_def Background_context_def RequestBound_context_def Let_def)
  moreover have "now + ?t < deleted + ttl" if "l2 c = Some L2" "l2_TombstoneTTL L2 = Some ttl" "0 < ttl" "now \<le> deleted" for L2 ttl deleted
    using that \<open>l2 c = cfg_l2 cfg\<close> \<open>\<not> tombstone_short cfg ?t\<close> by (fastforce simp: tombstone_short_iff)
  ultimately show ?thesis using \<open>0 < ?t\<close> by (intro exI [of _ "now + ?t"]) auto
qed

section \<open>Default keys\<close>

text \<open>Two keys of the same dynamic type other than those left to \<open>fmt\<close>.\<close>

primrec kind :: "'x goval \<Rightarrow> nat" where
  "kind (VString _) = 0" | "kind (VInt _) = 1" | "kind (VInt64 _) = 2" | "kind (VInt32 _) = 3" | "kind (VInt16 _) = 4"
| "kind (VInt8 _) = 5" | "kind (VUint _) = 6" | "kind (VUint64 _) = 7" | "kind (VUint32 _) = 8" | "kind (VUint16 _) = 9"
| "kind (VUint8 _) = 10" | "kind (VOther _) = 11"

definition same_kind :: "'x goval \<Rightarrow> 'x goval \<Rightarrow> bool" where
  "same_kind v w \<longleftrightarrow> kind v = kind w \<and> kind v \<noteq> 11"

lemma FormatInt_sint: "FormatInt (sint (v :: 64 word)) = FormatInt (sint w) \<longleftrightarrow> v = w"
  using sint_ge [of v] sint_lt [of v] sint_ge [of w] sint_lt [of w] FormatInt_inj [of "sint v" "sint w"] by (auto intro: signed_word_eqI)

text \<open>Widening an integer keeps different values different.\<close>

lemma widen_inj:
  fixes v w :: "'a::len word"
  assumes "LENGTH('a) \<le> LENGTH('b)"
  shows "(scast v :: 'b::len word) = scast w \<longleftrightarrow> v = w" "(ucast v :: 'b word) = ucast w \<longleftrightarrow> v = w"
proof -
  have "is_up (scast :: 'a word \<Rightarrow> 'b word)" "is_up (ucast :: 'a word \<Rightarrow> 'b word)" using assms by (simp_all add: is_up)
  then show "(scast v :: 'b word) = scast w \<longleftrightarrow> v = w" "(ucast v :: 'b word) = ucast w \<longleftrightarrow> v = w"
    by (metis scast_up_scast_id, metis ucast_up_ucast_id)
qed

text \<open>
  Keys stay apart. The default rendering of strings and of the ten built-in integer types is
  injective: two keys of the same such type share an L1, L2 and bus key if and only if they are equal.
\<close>

theorem default_keys_distinct:
  assumes "same_kind v w"
  shows "defaultKeyString sprint v = defaultKeyString sprint w \<longleftrightarrow> v = w"
  using assms by (cases v; cases w) (simp_all add: same_kind_def FormatInt_sint FormatUint_inj widen_inj)

theorem default_keys_distinct_witness:
  "defaultKeyString id (VInt8 255) \<noteq> defaultKeyString id (VInt8 1)"
  using default_keys_distinct [of "VInt8 255" "VInt8 1" id] by (simp add: same_kind_def)

end
