(* ===== verification/Push_Auth.thy ===== *)
theory Push_Auth
  imports Invalidation Go_Monad "HOL-Library.Sublist"
begin

text \<open>
  The push endpoint of the Pub/Sub bus: invalidation/gcppubsub/push_oidc.go (who may call it) and
  invalidation/gcppubsub/push.go (what a call does).

  Outside the module, and parameters here: \<open>idtoken.Validate\<close> (signature and expiry of a token), the
  JSON decoding of the envelope and of the event. A handler is a program of the state monad; an HTTP
  handler returns the status it writes.
\<close>

section \<open>Bearer tokens\<close>

definition to_lower :: "char \<Rightarrow> char" where
  "to_lower c = (if 65 \<le> (of_char c :: nat) \<and> (of_char c :: nat) \<le> 90 then char_of ((of_char c :: nat) + 32) else c)"

text \<open>
  \<open>strings.EqualFold\<close> against a string whose letters have no folding outside ASCII, and
  \<open>strings.TrimSpace\<close>: the UTF-8 encodings of the characters for which \<open>unicode.IsSpace\<close> holds are
  removed from both ends.
\<close>

definition EqualFold :: "string \<Rightarrow> string \<Rightarrow> bool" where
  "EqualFold x y \<longleftrightarrow> map to_lower x = map to_lower y"

definition bytes :: "nat list \<Rightarrow> string" where
  "bytes ns = map char_of ns"

definition space_runes :: "string list" where
  "space_runes = map bytes ([[9], [10], [11], [12], [13], [32], [194, 133], [194, 160], [225, 154, 128]]
     @ map (\<lambda>n. [226, 128, n]) [128 ..< 139] @ [[226, 128, 168], [226, 128, 169], [226, 128, 175], [226, 129, 159], [227, 128, 128]])"

function strip :: "string list \<Rightarrow> string \<Rightarrow> string" where
  "strip ps x = (case find (\<lambda>p. p \<noteq> [] \<and> prefix p x) ps of
       None \<Rightarrow> x
     | Some p \<Rightarrow> strip ps (drop (length p) x))"
  by pat_completeness auto
termination
  by (relation "measure (\<lambda>(ps, x). length x)") (auto simp: find_Some_iff prefix_def)

declare strip.simps [simp del]

definition TrimSpace :: "string \<Rightarrow> string" where
  "TrimSpace x = rev (strip (map rev space_runes) (rev (strip space_runes x)))"

definition bearerToken :: "string \<Rightarrow> go_error + string" where
  "bearerToken header =
     (if header = [] then Inl (ErrMsg ''missing Authorization header'')
      else if length header \<le> 7 \<or> \<not> EqualFold (take 7 header) ''Bearer ''
      then Inl (ErrMsg ''malformed Authorization header'')
      else let tok = TrimSpace (drop 7 header)
           in if tok = [] then Inl (ErrMsg ''empty bearer token'') else Inr tok)"

section \<open>Token verification\<close>

datatype json = JString string | JBool bool | JOther

record payload =
  Issuer :: string
  Audience :: string
  Claims :: "string \<rightharpoonup> json"

definition googleIssuers :: "string list" where
  "googleIssuers = [''https://accounts.google.com'', ''accounts.google.com'']"

definition trustedEmail :: "payload \<Rightarrow> go_error + string" where
  "trustedEmail p =
     (if Issuer p \<notin> set googleIssuers then Inl (ErrMsg ''untrusted token issuer'')
      else let email = (case Claims p ''email'' of Some (JString e) \<Rightarrow> e | _ \<Rightarrow> []);
               verified = (case Claims p ''email_verified'' of Some (JBool b) \<Rightarrow> b | _ \<Rightarrow> False)
           in if email = [] \<or> \<not> verified then Inl (ErrMsg ''token has no verified email claim'') else Inr email)"

text \<open>The email and the audience of a token.\<close>

type_synonym tokenVerifier = "string \<Rightarrow> go_error + string \<times> string"

definition google_verify :: "(string \<Rightarrow> go_error + payload) \<Rightarrow> tokenVerifier" where
  "google_verify Validate rawToken = (case Validate rawToken of
       Inl err \<Rightarrow> Inl err
     | Inr p \<Rightarrow> (case trustedEmail p of Inl err \<Rightarrow> Inl err | Inr email \<Rightarrow> Inr (email, Audience p)))"

record pushAuth =
  audience :: string
  allowed :: "string list"
  verifier :: tokenVerifier

definition newPushAuth :: "(string \<Rightarrow> go_error + payload) \<Rightarrow> string \<Rightarrow> string list \<Rightarrow> pushAuth" where
  "newPushAuth Validate aud accounts =
     \<lparr>audience = aud, allowed = filter (\<lambda>e. e \<noteq> []) accounts, verifier = google_verify Validate\<rparr>"

record authError =
  status :: nat
  msg :: string

record request =
  Authorization :: string
  Body :: string

fun error_text :: "go_error \<Rightarrow> string" where
  "error_text (ErrMsg m) = m"
| "error_text _ = []"

definition authenticate :: "pushAuth \<Rightarrow> request \<Rightarrow> authError option" where
  "authenticate a r = (case bearerToken (Authorization r) of
       Inl err \<Rightarrow> Some \<lparr>status = 401, msg = error_text err\<rparr>
     | Inr raw \<Rightarrow>
         (case verifier a raw of
            Inl _ \<Rightarrow> Some \<lparr>status = 401, msg = ''invalid OIDC token''\<rparr>
          | Inr (email, aud) \<Rightarrow>
              if audience a \<noteq> [] \<and> aud \<noteq> audience a then Some \<lparr>status = 403, msg = ''audience mismatch''\<rparr>
              else if email \<notin> set (allowed a) then Some \<lparr>status = 403, msg = ''service account not allowed''\<rparr>
              else None))"

section \<open>The handler\<close>

text \<open>The data of an envelope's message; the other fields are not used.\<close>

record push_json =
  Decode_envelope :: "string \<Rightarrow> go_error + string"
  Unmarshal_event :: "string \<Rightarrow> go_error + event"

text \<open>An answer is an \<open>http.Error\<close> with its text and code, or a bare status.\<close>

datatype push_reply = Refused string nat | Accepted nat

definition pushHandler ::
  "push_json \<Rightarrow> (event \<Rightarrow> ('s, unit) state) \<Rightarrow> pushAuth option \<Rightarrow> request \<Rightarrow> ('s, push_reply) state" where
  "pushHandler js handler auth r = (case (case auth of None \<Rightarrow> None | Some a \<Rightarrow> authenticate a r) of
       Some ae \<Rightarrow> State_Monad.return (Refused (msg ae) (status ae))
     | None \<Rightarrow>
         (case Decode_envelope js (Body r) of
            Inl _ \<Rightarrow> State_Monad.return (Refused ''invalid push envelope'' 400)
          | Inr data \<Rightarrow>
              (case Unmarshal_event js data of
                 Inl _ \<Rightarrow> State_Monad.return (Accepted 204)
               | Inr ev \<Rightarrow> do { handler ev; State_Monad.return (Accepted 204) })))"

definition PushHandler :: "push_json \<Rightarrow> (event \<Rightarrow> ('s, unit) state) \<Rightarrow> request \<Rightarrow> ('s, push_reply) state" where
  "PushHandler js handler = pushHandler js handler None"

section \<open>Facts\<close>

lemma find_nonempty: "find (\<lambda>p. p \<noteq> [] \<and> prefix p x) ps = Some p \<Longrightarrow> p \<in> set ps \<and> p \<noteq> [] \<and> prefix p x"
  by (metis (mono_tags, lifting) find_Some_iff nth_mem)

lemma strip_stop: "(\<And>p. p \<in> set ps \<Longrightarrow> p \<noteq> [] \<Longrightarrow> \<not> prefix p x) \<Longrightarrow> strip ps x = x"
  by (subst strip.simps) (auto split: option.splits dest: find_nonempty)

lemma strip_suffix: "suffix (strip ps x) x"
proof (induction ps x rule: strip.induct)
  case (1 ps x)
  show ?case
  proof (cases "find (\<lambda>p. p \<noteq> [] \<and> prefix p x) ps")
    case None
    then show ?thesis by (simp add: strip.simps [of ps x])
  next
    case (Some p)
    then show ?thesis using 1 [OF Some] suffix_order.trans [OF _ suffix_drop] by (simp add: strip.simps [of ps x])
  qed
qed

lemma strip_clean: "p \<in> set ps \<Longrightarrow> p \<noteq> [] \<Longrightarrow> \<not> prefix p (strip ps x)"
proof (induction ps x rule: strip.induct)
  case (1 ps x)
  show ?case
  proof (cases "find (\<lambda>p. p \<noteq> [] \<and> prefix p x) ps")
    case None
    then have "\<not> prefix p x" using 1(2,3) by (auto simp: find_None_iff)
    then show ?thesis using None by (simp add: strip.simps [of ps x])
  next
    case (Some q)
    then show ?thesis using 1(1) [OF Some 1(2,3)] by (simp add: strip.simps [of ps x])
  qed
qed

text \<open>No white space at either end.\<close>

definition trimmed :: "string \<Rightarrow> bool" where
  "trimmed x \<longleftrightarrow> (\<forall>p \<in> set space_runes. \<not> prefix p x \<and> \<not> suffix p x)"

lemma space_nonempty: "p \<in> set space_runes \<Longrightarrow> p \<noteq> []"
  by (auto simp: space_runes_def bytes_def)

lemma TrimSpace_trimmed: "trimmed (TrimSpace x)" "sublist (TrimSpace x) x"
proof -
  let ?y = "strip space_runes x" and ?ps = "map rev space_runes"
  let ?z = "strip ?ps (rev ?y)"
  have pre: "prefix (rev ?z) ?y" using strip_suffix [of ?ps "rev ?y"] by (simp add: suffix_to_prefix)
  have "\<not> prefix p (rev ?z) \<and> \<not> suffix p (rev ?z)" if p: "p \<in> set space_runes" for p
  proof
    show "\<not> prefix p (rev ?z)"
      using strip_clean [OF p space_nonempty [OF p], of x] prefix_order.trans [OF _ pre] by blast
    have "\<not> prefix (rev p) ?z" using strip_clean [of "rev p" ?ps "rev ?y"] p space_nonempty [OF p] by simp
    then show "\<not> suffix p (rev ?z)" by (simp add: suffix_to_prefix)
  qed
  then show "trimmed (TrimSpace x)" by (simp add: trimmed_def TrimSpace_def)
  show "sublist (TrimSpace x) x"
    using sublist_order.order.trans [OF prefix_imp_sublist [OF pre] suffix_imp_sublist [OF strip_suffix]] by (simp add: TrimSpace_def)
qed

lemma TrimSpace_id: "trimmed x \<Longrightarrow> TrimSpace x = x"
proof -
  assume x: "trimmed x"
  have l: "strip space_runes x = x" using x by (intro strip_stop) (auto simp: trimmed_def)
  have "strip (map rev space_runes) (rev x) = rev x"
    using x by (intro strip_stop) (auto simp: trimmed_def suffix_to_prefix)
  then show "TrimSpace x = x" by (simp add: TrimSpace_def l)
qed

text \<open>Text that starts and ends with visible ASCII characters has no white space at its ends.\<close>

definition visible :: "char \<Rightarrow> bool" where
  "visible c \<longleftrightarrow> 32 < (of_char c :: nat) \<and> (of_char c :: nat) < 128"

lemma space_invisible: "p \<in> set space_runes \<Longrightarrow> \<not> visible (hd p) \<and> \<not> visible (last p)"
  by (auto simp: space_runes_def bytes_def visible_def)

lemma visible_trimmed:
  assumes "x \<noteq> []" "visible (hd x)" "visible (last x)" shows "trimmed x"
  unfolding trimmed_def
proof
  fix p assume p: "p \<in> set space_runes"
  have "hd x = hd p" if "prefix p x" using that space_nonempty [OF p] by (auto simp: prefix_def)
  moreover have "last x = last p" if "suffix p x" using that space_nonempty [OF p] by (auto simp: suffix_def)
  ultimately show "\<not> prefix p x \<and> \<not> suffix p x" using space_invisible [OF p] assms(2,3) by auto
qed

text \<open>
  Bearer tokens. A token that is extracted from a header stands behind the scheme \<open>Bearer\<close>, in any
  case, and one space; it is not empty, it is a part of the rest of the header, and no white space is
  left at its ends. Conversely every such token is extracted unchanged from the header it is put in.
\<close>

theorem bearer_token:
  "(bearerToken header = Inr tok \<longrightarrow>
      EqualFold (take 7 header) ''Bearer '' \<and> tok \<noteq> [] \<and> trimmed tok \<and> sublist tok (drop 7 header)) \<and>
   (EqualFold scheme ''Bearer '' \<and> tok \<noteq> [] \<and> trimmed tok \<longrightarrow> bearerToken (scheme @ tok) = Inr tok)"
proof (intro conjI impI)
  assume "bearerToken header = Inr tok"
  then have "tok = TrimSpace (drop 7 header)" "tok \<noteq> []" "EqualFold (take 7 header) ''Bearer ''"
    by (auto simp: bearerToken_def Let_def split: if_splits)
  then show "EqualFold (take 7 header) ''Bearer ''" "tok \<noteq> []" "trimmed tok" "sublist tok (drop 7 header)"
    using TrimSpace_trimmed [of "drop 7 header"] by simp_all
next
  assume a: "EqualFold scheme ''Bearer '' \<and> tok \<noteq> [] \<and> trimmed tok"
  then have l: "length scheme = 7" by (auto simp: EqualFold_def dest!: arg_cong [where f = length])
  then show "bearerToken (scheme @ tok) = Inr tok" using a TrimSpace_id [of tok] by (auto simp: bearerToken_def)
qed

theorem bearer_token_witness:
  "bearerToken ''bEARER abc'' = Inr ''abc''"
proof -
  have "trimmed ''abc''" by (rule visible_trimmed) (simp_all add: visible_def)
  moreover have "EqualFold ''bEARER '' ''Bearer ''" by code_simp
  ultimately show ?thesis using bearer_token [of "[]" "''abc''" "''bEARER ''"] by simp
qed

text \<open>Who is let in.\<close>

lemma authenticate_iff:
  "authenticate (newPushAuth Validate aud accounts) r = None \<longleftrightarrow>
     (\<exists>raw p email. bearerToken (Authorization r) = Inr raw \<and> Validate raw = Inr p \<and> Issuer p \<in> set googleIssuers
        \<and> Claims p ''email'' = Some (JString email) \<and> Claims p ''email_verified'' = Some (JBool True)
        \<and> email \<noteq> [] \<and> email \<in> set accounts \<and> (aud = [] \<or> Audience p = aud))"
proof -
  have trusted: "trustedEmail p = Inr email \<longleftrightarrow> Issuer p \<in> set googleIssuers \<and> email \<noteq> []
      \<and> Claims p ''email'' = Some (JString email) \<and> Claims p ''email_verified'' = Some (JBool True)" for p email
    by (auto simp: trustedEmail_def Let_def split: option.splits json.splits)
  have "authenticate (newPushAuth Validate aud accounts) r = None \<longleftrightarrow>
      (\<exists>raw p email. bearerToken (Authorization r) = Inr raw \<and> Validate raw = Inr p
        \<and> trustedEmail p = Inr email \<and> email \<noteq> [] \<and> email \<in> set accounts \<and> (aud = [] \<or> Audience p = aud))"
    unfolding authenticate_def newPushAuth_def google_verify_def by (auto split: sum.splits)
  then show ?thesis unfolding trusted by metis
qed

lemma authenticate_status: "authenticate a r = Some ae \<Longrightarrow> status ae \<in> {401, 403}"
  by (auto simp: authenticate_def split: sum.splits if_splits)

text \<open>
  C9: The push endpoint is guarded. With authentication configured for an audience and a list of
  service accounts, a request is let through if and only if its header carries a bearer token that
  \<open>idtoken.Validate\<close> accepts, whose issuer is Google, whose verified email is non-empty and on the list,
  and whose audience is the configured one (or none is configured). Every other request gets 401 or 403
  and has no effect at all: the handler does not run. In particular an empty list lets nobody in.
\<close>

theorem push_guarded:
  assumes "a = newPushAuth Validate aud accounts"
  shows "if \<exists>raw p email. bearerToken (Authorization r) = Inr raw \<and> Validate raw = Inr p \<and> Issuer p \<in> set googleIssuers
        \<and> Claims p ''email'' = Some (JString email) \<and> Claims p ''email_verified'' = Some (JBool True)
        \<and> email \<noteq> [] \<and> email \<in> set accounts \<and> (aud = [] \<or> Audience p = aud)
    then run_state (pushHandler js handler (Some a) r) s = run_state (PushHandler js handler r) s
    else \<exists>m code. code \<in> {401, 403} \<and> run_state (pushHandler js handler (Some a) r) s = (Refused m code, s)"
  using authenticate_iff [of Validate aud accounts r] authenticate_status [of a r]
  by (cases "authenticate a r") (auto simp: assms pushHandler_def PushHandler_def)

text \<open>A token of the allowed account, and an event carried in the clear.\<close>

definition demo_validate :: "string \<Rightarrow> go_error + payload" where
  "demo_validate raw = (if raw = ''good'' then Inr \<lparr>Issuer = ''accounts.google.com'', Audience = ''me'',
       Claims = [''email'' \<mapsto> JString ''push'', ''email_verified'' \<mapsto> JBool True]\<rparr> else Inl (ErrMsg ''bad''))"

definition demo_pushed :: event where
  "demo_pushed = \<lparr>ID = ''1'', Kind = KindKey, Keys = [''k''], Tag = '''', EVersion = 5, OriginID = ''B'', EmittedAt = 0\<rparr>"

definition demo_json :: push_json where
  "demo_json = \<lparr>Decode_envelope = Inr, Unmarshal_event = (\<lambda>_. Inr demo_pushed)\<rparr>"

definition demo_log :: "event \<Rightarrow> (event list, unit) state" where
  "demo_log ev = updating (\<lambda>l. l @ [ev])"

lemma demo_tokens: "bearerToken ''Bearer good'' = Inr ''good''" "bearerToken ''Bearer evil'' = Inr ''evil''"
proof -
  have "trimmed ''good''" "trimmed ''evil''" by (rule visible_trimmed; simp add: visible_def)+
  then show "bearerToken ''Bearer good'' = Inr ''good''" "bearerToken ''Bearer evil'' = Inr ''evil''"
    by (simp_all add: bearerToken_def EqualFold_def TrimSpace_id)
qed

theorem push_guarded_witness:
  "run_state (pushHandler demo_json demo_log (Some (newPushAuth demo_validate ''me'' [''push'']))
      \<lparr>Authorization = ''Bearer good'', Body = ''x''\<rparr>) [] = (Accepted 204, [demo_pushed])
   \<and> (\<exists>m code. code \<in> {401, 403} \<and> run_state (pushHandler demo_json demo_log (Some (newPushAuth demo_validate ''me'' [''push'']))
      \<lparr>Authorization = ''Bearer evil'', Body = ''x''\<rparr>) [] = (Refused m code, []))"
  using push_guarded [OF refl, of "\<lparr>Authorization = ''Bearer good'', Body = ''x''\<rparr>" demo_validate "[''push'']" "''me''" demo_json demo_log "[]"]
    push_guarded [OF refl, of "\<lparr>Authorization = ''Bearer evil'', Body = ''x''\<rparr>" demo_validate "[''push'']" "''me''" demo_json demo_log "[]"]
  by (simp add: demo_tokens demo_validate_def googleIssuers_def PushHandler_def pushHandler_def demo_json_def demo_log_def)

text \<open>What an admitted push does: a decodable envelope is always acknowledged with 204.\<close>

lemma push_run:
  "run_state (PushHandler js handler r) s =
     (case Decode_envelope js (Body r) of
        Inl _ \<Rightarrow> (Refused ''invalid push envelope'' 400, s)
      | Inr data \<Rightarrow> (Accepted 204, case Unmarshal_event js data of Inl _ \<Rightarrow> s | Inr ev \<Rightarrow> snd (run_state (handler ev) s)))"
  by (simp add: PushHandler_def pushHandler_def split_beta split: sum.splits)

end
