(* ===== verification/Gcp_Pubsub.thy ===== *)
theory Gcp_Pubsub
  imports Push_Auth Cache_Core
begin

text \<open>
  The two Pub/Sub buses of invalidation/gcppubsub/pubsub.go: the streaming-pull bus with its
  subscription, and the push bus in front of the handler of \<open>Push_Auth\<close>.

  Google's Pub/Sub service is a parameter, a record of the calls the code makes over a service state; a
  call returns the gRPC code and error, or success. What the proofs rest on is the locale
  \<open>pubsub_service\<close>. What \<open>Receive\<close> does until its context is cancelled is a list of the steps of the
  callbacks it runs, which run concurrently, in the order in which they take effect.
\<close>

datatype code = AlreadyExists | PermissionDenied | OtherCode nat

record subscription_req =
  Name :: string
  Topic :: string
  AckDeadlineSeconds :: int
  ExpirationTtl :: "duration option"

record 'g pubsub =
  Project :: string
  CreateTopic :: "string \<Rightarrow> 'g \<Rightarrow> (code \<times> go_error) option \<times> 'g"
  CreateSubscription :: "subscription_req \<Rightarrow> 'g \<Rightarrow> (code \<times> go_error) option \<times> 'g"
  DeleteSubscription :: "string \<Rightarrow> 'g \<Rightarrow> go_error option \<times> 'g"
  publisher_Publish :: "string \<Rightarrow> string \<Rightarrow> 'g \<Rightarrow> go_error option \<times> 'g"
  Marshal :: "event \<Rightarrow> go_error + string"
  Unmarshal :: "string \<Rightarrow> go_error + event"

section \<open>Configuration\<close>

record gcp_config =
  subscriptionID :: string
  ackDeadline :: duration
  subscriptionTTL :: duration

definition WithSubscriptionID :: "string \<Rightarrow> gcp_config \<Rightarrow> gcp_config" where
  "WithSubscriptionID i c = c\<lparr>subscriptionID := i\<rparr>"

definition WithAckDeadline :: "duration \<Rightarrow> gcp_config \<Rightarrow> gcp_config" where
  "WithAckDeadline d c = c\<lparr>ackDeadline := d\<rparr>"

definition WithSubscriptionTTL :: "duration \<Rightarrow> gcp_config \<Rightarrow> gcp_config" where
  "WithSubscriptionTTL d c = c\<lparr>subscriptionTTL := d\<rparr>"

record gcp_bus =
  topicID :: string
  topicName :: string
  g_cfg :: gcp_config

definition topic_path :: "'g pubsub \<Rightarrow> string \<Rightarrow> string" where
  "topic_path cl t = ''projects/'' @ Project cl @ ''/topics/'' @ t"

definition subscription_path :: "'g pubsub \<Rightarrow> string \<Rightarrow> string" where
  "subscription_path cl i = ''projects/'' @ Project cl @ ''/subscriptions/'' @ i"

definition ensureTopic :: "'g pubsub \<Rightarrow> string \<Rightarrow> ('g, go_error option) state" where
  "ensureTopic cl name = do {
     r \<leftarrow> State (CreateTopic cl name);
     State_Monad.return (case r of
         None \<Rightarrow> None
       | Some (AlreadyExists, _) \<Rightarrow> None
       | Some (PermissionDenied, _) \<Rightarrow> None
       | Some (_, err) \<Rightarrow> Some (ErrWrap ''gcppubsub: create topic'' err)) }"

text \<open>The eight random bytes of \<open>randHex\<close> are a parameter.\<close>

definition randHex :: "8 word list \<Rightarrow> string" where
  "randHex b = EncodeToString b"

definition gcp_New ::
  "'g pubsub \<Rightarrow> 8 word list \<Rightarrow> string \<Rightarrow> (gcp_config \<Rightarrow> gcp_config) list \<Rightarrow> ('g, go_error + gcp_bus) state" where
  "gcp_New cl rnd tid opts = do {
     let cfg = fold (\<lambda>f c. f c) opts \<lparr>subscriptionID = [], ackDeadline = 10 * Second, subscriptionTTL = 24 * Hour\<rparr>;
     let cfg = (if subscriptionID cfg = [] then cfg\<lparr>subscriptionID := tid @ ''-'' @ randHex rnd\<rparr> else cfg);
     let name = topic_path cl tid;
     err \<leftarrow> ensureTopic cl name;
     State_Monad.return (case err of
         Some e \<Rightarrow> Inl e
       | None \<Rightarrow> Inr \<lparr>topicID = tid, topicName = name, g_cfg = cfg\<rparr>) }"

section \<open>The pull bus\<close>

definition gcp_Publish :: "'g pubsub \<Rightarrow> gcp_bus \<Rightarrow> event \<Rightarrow> ('g, go_error option) state" where
  "gcp_Publish cl b ev = (case Marshal cl ev of
       Inl err \<Rightarrow> State_Monad.return (Some err)
     | Inr data \<Rightarrow> State (publisher_Publish cl (topicID b) data))"

definition clampAckSeconds :: "duration \<Rightarrow> int" where
  "clampAckSeconds d =
     (let secs = i32 (go_div (i64 (i64 (d + Second) - 1)) Second);
          secs = (if secs < 10 then 10 else secs)
      in if 600 < secs then 600 else secs)"

text \<open>The service and the application a callback runs in, and the messages acknowledged.\<close>

record ('g, 's) gcp_state =
  svc :: 'g
  app :: 's
  acked :: "string list"

definition on_svc :: "('g \<Rightarrow> 'x \<times> 'g) \<Rightarrow> (('g, 's) gcp_state, 'x) state" where
  "on_svc f = State (\<lambda>s. case f (svc s) of (x, g) \<Rightarrow> (x, s\<lparr>svc := g\<rparr>))"

definition on_app :: "('s, 'x) state \<Rightarrow> (('g, 's) gcp_state, 'x) state" where
  "on_app m = State (\<lambda>s. case run_state m (app s) of (x, a) \<Rightarrow> (x, s\<lparr>app := a\<rparr>))"

definition Ack :: "string \<Rightarrow> (('g, 's) gcp_state, unit) state" where
  "Ack m = updating (\<lambda>s. s\<lparr>acked := acked s @ [m]\<rparr>)"

text \<open>
  The callback of a message, in two steps: up to the return of the handler, and the acknowledgement. What
  else happens while the handler runs is part of the interference the handler runs under.
\<close>

datatype callback_step = Handling string | Acking string

definition receive_callback ::
  "'g pubsub \<Rightarrow> (event \<Rightarrow> ('s, unit) state) \<Rightarrow> callback_step \<Rightarrow> (('g, 's) gcp_state, unit) state" where
  "receive_callback cl handler x = (case x of
       Handling m \<Rightarrow> (case Unmarshal cl m of
           Inl _ \<Rightarrow> State_Monad.return ()
         | Inr ev \<Rightarrow> on_app (handler ev))
     | Acking m \<Rightarrow> Ack m)"

text \<open>The steps of the callbacks of some messages, interleaved in any way.\<close>

inductive callbacks :: "string list \<Rightarrow> callback_step list \<Rightarrow> bool" where
  no_callback: "callbacks [] []"
| one_more: "callbacks msgs steps \<Longrightarrow> steps' \<in> shuffles [Handling m, Acking m] steps \<Longrightarrow> callbacks (m # msgs) steps'"

definition subscription_request :: "'g pubsub \<Rightarrow> gcp_bus \<Rightarrow> subscription_req" where
  "subscription_request cl b =
     \<lparr>Name = subscription_path cl (subscriptionID (g_cfg b)), Topic = topicName b,
      AckDeadlineSeconds = clampAckSeconds (ackDeadline (g_cfg b)),
      ExpirationTtl = (if 0 < subscriptionTTL (g_cfg b) then Some (subscriptionTTL (g_cfg b)) else None)\<rparr>"

definition gcp_Subscribe ::
  "'g pubsub \<Rightarrow> gcp_bus \<Rightarrow> (event \<Rightarrow> ('s, unit) state) \<Rightarrow> callback_step list \<Rightarrow> go_error option \<Rightarrow>
    (('g, 's) gcp_state, go_error option) state" where
  "gcp_Subscribe cl b handler steps recvErr = do {
     r \<leftarrow> on_svc (CreateSubscription cl (subscription_request cl b));
     (case r of
        Some (c, err) \<Rightarrow>
          if c \<noteq> AlreadyExists then State_Monad.return (Some (ErrWrap ''gcppubsub: create subscription'' err))
          else do { for_each steps (receive_callback cl handler); State_Monad.return recvErr }
      | None \<Rightarrow> do {
          for_each steps (receive_callback cl handler);
          _ \<leftarrow> on_svc (DeleteSubscription cl (subscription_path cl (subscriptionID (g_cfg b))));
          State_Monad.return recvErr }) }"

definition gcp_Close :: "gcp_bus \<Rightarrow> ('g, go_error option) state" where
  "gcp_Close b = State_Monad.return None"

section \<open>The push bus\<close>

text \<open>
  The registered handler is a name of a function here, so that it can be part of the state; \<open>run\<close> runs
  it. A zero-value bus has no publisher.
\<close>

record push_bus =
  pb_topic :: "string option"
  pb_topicName :: string
  pb_auth :: "pushAuth option"

definition WithPushAuth :: "(string \<Rightarrow> go_error + payload) \<Rightarrow> string \<Rightarrow> string list \<Rightarrow> push_bus \<Rightarrow> push_bus" where
  "WithPushAuth Validate aud accounts p = p\<lparr>pb_auth := Some (newPushAuth Validate aud accounts)\<rparr>"

definition NewPush :: "'g pubsub \<Rightarrow> string \<Rightarrow> (push_bus \<Rightarrow> push_bus) list \<Rightarrow> ('g, go_error + push_bus) state" where
  "NewPush cl tid opts = do {
     let name = topic_path cl tid;
     err \<leftarrow> ensureTopic cl name;
     State_Monad.return (case err of
         Some e \<Rightarrow> Inl e
       | None \<Rightarrow> Inr (fold (\<lambda>f p. f p) opts \<lparr>pb_topic = Some tid, pb_topicName = name, pb_auth = None\<rparr>)) }"

definition push_Publish :: "'g pubsub \<Rightarrow> push_bus \<Rightarrow> event \<Rightarrow> ('g, go_error option) state" where
  "push_Publish cl p ev = (case pb_topic p of
       None \<Rightarrow> State_Monad.return None
     | Some tid \<Rightarrow>
         (case Marshal cl ev of
            Inl err \<Rightarrow> State_Monad.return (Some err)
          | Inr data \<Rightarrow> State (publisher_Publish cl tid data)))"

record ('s, 'h) push_state =
  papp :: 's
  registered :: "'h option"

text \<open>\<open>Subscribe\<close> registers the handler, and returns the context's error once it is cancelled.\<close>

definition push_Subscribe :: "'h \<Rightarrow> go_error option \<Rightarrow> (('s, 'h) push_state, go_error option) state" where
  "push_Subscribe h ctxErr = do {
     updating (\<lambda>s. s\<lparr>registered := Some h\<rparr>);
     State_Monad.return ctxErr }"

definition push_Handler ::
  "push_json \<Rightarrow> ('h \<Rightarrow> event \<Rightarrow> ('s, unit) state) \<Rightarrow> push_bus \<Rightarrow> request \<Rightarrow> (('s, 'h) push_state, push_reply) state" where
  "push_Handler js run p = pushHandler js (\<lambda>ev. do {
       h \<leftarrow> reading registered;
       case h of
         None \<Rightarrow> State_Monad.return ()
       | Some f \<Rightarrow> updating (\<lambda>s. s\<lparr>papp := snd (run_state (run f ev) (papp s))\<rparr>) }) (pb_auth p)"

definition push_Close :: "push_bus \<Rightarrow> ('g, go_error option) state" where
  "push_Close p = State_Monad.return None"

section \<open>Facts\<close>

text \<open>
  The ack deadline. Whatever duration is configured, the deadline sent to Pub/Sub is between 10 and
  600 seconds; for a duration of at most \<open>2 ^ 31 - 1\<close> seconds (and not below \<open>- (2 ^ 31)\<close> seconds)
  it is the duration rounded up to whole seconds, clamped to that range.
\<close>

theorem ack_deadline_clamped:
  "10 \<le> clampAckSeconds d \<and> clampAckSeconds d \<le> 600 \<and>
   (- (2 ^ 31) * Second \<le> d \<and> d \<le> (2 ^ 31 - 1) * Second \<longrightarrow>
      clampAckSeconds d = max 10 (min 600 (- ((- d) div Second))))"
proof (intro conjI impI)
  show "10 \<le> clampAckSeconds d" "clampAckSeconds d \<le> 600" by (simp_all add: clampAckSeconds_def Let_def)
  assume d: "- (2 ^ 31) * Second \<le> d \<and> d \<le> (2 ^ 31 - 1) * Second"
  let ?x = "d + Second - 1"
  have w: "i64 (i64 (d + Second) - 1) = ?x" using d by (simp add: i64_id Second_def Millisecond_def)
  show "clampAckSeconds d = max 10 (min 600 (- ((- d) div Second)))"
  proof (cases "0 \<le> ?x")
    case True
    have c: "- ((- d) div Second) = ?x div Second" by (simp add: Second_def Millisecond_def)
    have "?x div Second \<le> 2 ^ 31 - 1" 
    proof -
      have "?x \<le> 2147483647999999999" using d by (simp add: Second_def Millisecond_def)
      then have "?x div 1000000000 \<le> 2147483647999999999 div 1000000000" by (rule zdiv_mono1) simp
      then show ?thesis by (simp add: Second_def Millisecond_def)
    qed
    then have "i32 (go_div ?x Second) = ?x div Second"
      using True by (simp add: go_div_nonneg Second_def Millisecond_def i32_id)
    then show ?thesis unfolding c by (simp add: clampAckSeconds_def Let_def w)
  next
    case False
    have "- d div Second \<ge> 0" using False by (simp add: Second_def Millisecond_def)
    moreover have "go_div ?x Second \<le> 0" "- (2 ^ 31) \<le> go_div ?x Second"
    proof -
      have s: "sgn ?x = - 1" "sgn Second = 1" using False by (simp_all add: Second_def Millisecond_def sgn_if)
      have "\<bar>?x\<bar> div \<bar>Second\<bar> \<le> 2 ^ 31" using False d by (simp add: Second_def Millisecond_def)
      moreover have "0 \<le> \<bar>?x\<bar> div \<bar>Second\<bar>" by (simp add: Second_def Millisecond_def pos_imp_zdiv_nonneg_iff)
      ultimately show "go_div ?x Second \<le> 0" "- (2 ^ 31) \<le> go_div ?x Second" using s by (simp_all add: go_div_def)
    qed
    ultimately show ?thesis by (simp add: clampAckSeconds_def Let_def w i32_id)
  qed
qed

theorem ack_deadline_clamped_witness:
  "clampAckSeconds (90 * Second + 1) = 91"
  using ack_deadline_clamped [of "90 * Second + 1"] by (simp add: Second_def Millisecond_def)

text \<open>Past \<open>2 ^ 31 - 1\<close> seconds the conversion to 32 bits wraps and the longest deadlines become the shortest.\<close>

lemma ack_deadline_wraps: "clampAckSeconds (2 ^ 31 * Second) = 10"
  by (simp add: clampAckSeconds_def Let_def i32_def i64_def go_div_def Second_def Millisecond_def)

section \<open>Subscriptions\<close>

text \<open>
  What the admin calls are documented to do to the set of subscriptions of the project. A call that
  succeeds had its effect. One that fails may have had it too: gRPC returns \<open>DEADLINE_EXCEEDED\<close> also where the
  operation completed, and a call that is retried after it took effect finds its own subscription and
  reports that it already exists.
\<close>

locale pubsub_service =
  fixes cl :: "'g pubsub" and live :: "'g \<Rightarrow> string set"
  assumes created: "CreateSubscription cl req g = (None, g') \<Longrightarrow> live g' = insert (Name req) (live g)"
    and exists_already: "CreateSubscription cl req g = (Some (AlreadyExists, err), g') \<Longrightarrow> live g' = insert (Name req) (live g)"
    and create_failed: "CreateSubscription cl req g = (Some e, g') \<Longrightarrow> live g' \<in> {live g, insert (Name req) (live g)}"
    and deleted: "DeleteSubscription cl n g = (None, g') \<Longrightarrow> live g' = live g - {n}"
    and delete_failed: "DeleteSubscription cl n g = (Some err, g') \<Longrightarrow> live g' \<in> {live g, live g - {n}}"

text \<open>The messages whose handling and whose acknowledgement is among the steps, and the events decoded.\<close>

fun handling :: "callback_step \<Rightarrow> string list" where
  "handling (Handling m) = [m]"
| "handling (Acking m) = []"

fun acking :: "callback_step \<Rightarrow> string list" where
  "acking (Handling m) = []"
| "acking (Acking m) = [m]"

definition decoded :: "'g pubsub \<Rightarrow> string list \<Rightarrow> event list" where
  "decoded cl msgs = concat (map (\<lambda>m. case Unmarshal cl m of Inl _ \<Rightarrow> [] | Inr ev \<Rightarrow> [ev]) msgs)"

lemma run_receive:
  "run_state (for_each steps (receive_callback cl handler)) s =
     ((), s\<lparr>app := snd (run_state (for_each (decoded cl (concat (map handling steps))) handler) (app s)),
       acked := acked s @ concat (map acking steps)\<rparr>)"
proof (induction steps arbitrary: s)
  case (Cons x steps)
  show ?case
  proof (cases x)
    case (Handling m)
    have "run_state (receive_callback cl handler x) s =
        ((), case Unmarshal cl m of Inl _ \<Rightarrow> s | Inr ev \<Rightarrow> s\<lparr>app := snd (run_state (handler ev) (app s))\<rparr>)"
      by (simp add: Handling receive_callback_def on_app_def split_beta split: sum.splits)
    then show ?thesis by (simp add: Cons.IH Handling decoded_def split_beta split: sum.splits)
  next
    case (Acking m)
    have "run_state (receive_callback cl handler x) s = ((), s\<lparr>acked := acked s @ [m]\<rparr>)"
      by (simp add: Acking receive_callback_def Ack_def)
    then show ?thesis by (simp add: Cons.IH Acking)
  qed
qed (simp add: decoded_def)

lemma mset_concat_map: "mset xs = mset ys \<Longrightarrow> mset (concat (map f xs)) = mset (concat (map f ys))"
  by (simp add: mset_concat comp_def flip: sum_mset_sum_list)

lemma callbacks_messages:
  "callbacks msgs steps \<Longrightarrow> mset (concat (map handling steps)) = mset msgs \<and> mset (concat (map acking steps)) = mset msgs"
proof (induction rule: callbacks.induct)
  case (one_more msgs steps steps' m)
  have p: "mset steps' = mset ([Handling m, Acking m] @ steps)" using mset_shuffles [OF one_more.hyps(2)] by simp
  from mset_concat_map [OF p, of handling] mset_concat_map [OF p, of acking] one_more.IH show ?case by simp
qed simp

text \<open>What \<open>Subscribe\<close> does, by the answer to the creation.\<close>

lemma run_Subscribe:
  assumes "CreateSubscription cl (subscription_request cl b) (svc s) = (r, g1)"
    and "DeleteSubscription cl (subscription_path cl (subscriptionID (g_cfg b))) g1 = (e, g2)"
  shows "run_state (gcp_Subscribe cl b handler steps recvErr) s = (case r of
      Some (c, err) \<Rightarrow> if c \<noteq> AlreadyExists then (Some (ErrWrap ''gcppubsub: create subscription'' err), s\<lparr>svc := g1\<rparr>)
        else (recvErr, s\<lparr>svc := g1, app := snd (run_state (for_each (decoded cl (concat (map handling steps))) handler) (app s)),
          acked := acked s @ concat (map acking steps)\<rparr>)
    | None \<Rightarrow> (recvErr, s\<lparr>svc := g2, app := snd (run_state (for_each (decoded cl (concat (map handling steps))) handler) (app s)),
          acked := acked s @ concat (map acking steps)\<rparr>))"
  using assms by (simp add: gcp_Subscribe_def on_svc_def run_receive split: option.splits prod.splits)

context pubsub_service
begin

lemma teardown:
  assumes "CreateSubscription cl req g = (None, g1)" "DeleteSubscription cl (Name req) g1 = (e, g2)"
  shows "if e = None then live g2 = live g - {Name req} else live g2 \<in> {live g - {Name req}, insert (Name req) (live g)}"
  using created [OF assms(1)] deleted [of "Name req" g1 g2] delete_failed [of "Name req" g1 _ g2] assms(2) by (cases e) auto

end

text \<open>
  C31: Subscribing, for any interleaving of the callbacks. If creating the subscription fails the error is
  wrapped and no message is handled; the subscription exists afterwards if the creation took effect in spite
  of its error, and nothing deletes it. If it exists already every message is acknowledged exactly once,
  the handler runs exactly on those that decode, in the order in which they are handled, and the
  subscription is left in place. If it was created the same holds, and then it is deleted: it is gone if the
  deletion succeeds, and otherwise it may still be there. Other subscriptions are never touched.
\<close>

theorem gcp_subscribe_cleans_up:
  assumes service: "pubsub_service cl live"
    and n: "n = subscription_path cl (subscriptionID (g_cfg b))"
    and steps: "callbacks msgs steps"
    and create: "CreateSubscription cl (subscription_request cl b) (svc s) = (r, g1)"
    and run: "run_state (gcp_Subscribe cl b handler steps recvErr) s = (res, s')"
  shows "(if r = None \<or> (\<exists>err. r = Some (AlreadyExists, err))
       then res = recvErr \<and> (\<exists>hs as. mset hs = mset msgs \<and> mset as = mset msgs \<and> acked s' = acked s @ as
         \<and> app s' = snd (run_state (for_each (decoded cl hs) handler) (app s)))
       else (\<exists>c err. r = Some (c, err) \<and> res = Some (ErrWrap ''gcppubsub: create subscription'' err))
         \<and> app s' = app s \<and> acked s' = acked s)
    \<and> (case r of
         None \<Rightarrow> if fst (DeleteSubscription cl n g1) = None then live (svc s') = live (svc s) - {n}
           else live (svc s') \<in> {live (svc s) - {n}, insert n (live (svc s))}
       | Some (c, err) \<Rightarrow> if c = AlreadyExists then live (svc s') = insert n (live (svc s))
           else live (svc s') \<in> {live (svc s), insert n (live (svc s))})"
proof -
  have name: "Name (subscription_request cl b) = n" by (simp add: subscription_request_def n)
  obtain e g2 where del: "DeleteSubscription cl n g1 = (e, g2)" by fastforce
  note out = run_Subscribe [OF create del [unfolded n], of handler steps recvErr, unfolded run]
  have served: "\<exists>hs as. mset hs = mset msgs \<and> mset as = mset msgs \<and> acked s' = acked s @ as
      \<and> app s' = snd (run_state (for_each (decoded cl hs) handler) (app s))"
    if "s' = s\<lparr>svc := g, app := snd (run_state (for_each (decoded cl (concat (map handling steps))) handler) (app s)),
        acked := acked s @ concat (map acking steps)\<rparr>" for g
    using callbacks_messages [OF steps] that
    by (intro exI [of _ "concat (map handling steps)"] exI [of _ "concat (map acking steps)"]) simp
  show ?thesis
  proof (cases r)
    case None
    then have "if e = None then live g2 = live (svc s) - {n} else live g2 \<in> {live (svc s) - {n}, insert n (live (svc s))}"
      using pubsub_service.teardown [OF service, of "subscription_request cl b" "svc s" g1 e g2, unfolded name] create del by simp
    then show ?thesis using None out served [of g2] del by (cases e) simp_all
  next
    case (Some x)
    obtain c err where x: "x = (c, err)" by fastforce
    have live: "live g1 \<in> {live (svc s), insert n (live (svc s))}"
      using pubsub_service.create_failed [OF service] create Some unfolding name [symmetric] by blast
    show ?thesis
    proof (cases "c = AlreadyExists")
      case True
      have "live g1 = insert n (live (svc s))"
        using pubsub_service.exists_already [OF service] create Some x True unfolding name [symmetric] by blast
      then show ?thesis using out served [of g1] Some x True by simp
    next
      case False
      then show ?thesis using out live Some x by simp
    qed
  qed
qed

text \<open>A project whose only state is its list of subscriptions.\<close>

definition demo_pubsub :: "string list pubsub" where
  "demo_pubsub = \<lparr>Project = ''p'', CreateTopic = (\<lambda>_ g. (None, g)),
     CreateSubscription = (\<lambda>req g. if Name req \<in> set g then (Some (AlreadyExists, ErrMsg ''exists''), g) else (None, Name req # g)),
     DeleteSubscription = (\<lambda>n g. if n \<in> set g then (None, removeAll n g) else (None, g)),
     publisher_Publish = (\<lambda>_ _ g. (None, g)), Marshal = (\<lambda>ev. Inr (ID ev)),
     Unmarshal = (\<lambda>m. if m = ''?'' then Inl (ErrMsg ''json'') else Inr demo_pushed)\<rparr>"

interpretation reference_pubsub: pubsub_service demo_pubsub set
  by unfold_locales (auto simp: demo_pubsub_def split: if_splits)

definition demo_gcp_bus :: gcp_bus where
  "demo_gcp_bus = \<lparr>topicID = ''t'', topicName = ''projects/p/topics/t'',
     g_cfg = \<lparr>subscriptionID = ''i'', ackDeadline = 10 * Second, subscriptionTTL = 24 * Hour\<rparr>\<rparr>"

lemma demo_callbacks: "callbacks [''?'', ''x''] [Handling ''x'', Handling ''?'', Acking ''?'', Acking ''x'']"
  by (rule one_more [OF one_more [OF no_callback, of "[Handling ''x'', Acking ''x'']"]]) simp_all

theorem gcp_subscribe_cleans_up_witness:
  "case run_state (gcp_Subscribe demo_pubsub demo_gcp_bus demo_log [Handling ''x'', Handling ''?'', Acking ''?'', Acking ''x''] None)
       \<lparr>svc = [''other''], app = [], acked = []\<rparr> of
     (res, s') \<Rightarrow> res = None \<and> set (svc s') = {''other''} \<and> mset (acked s') = {#''?'', ''x''#} \<and> app s' = [demo_pushed]"
proof -
  let ?s = "\<lparr>svc = [''other''], app = [], acked = []\<rparr> :: (string list, event list) gcp_state"
  let ?n = "subscription_path demo_pubsub (subscriptionID (g_cfg demo_gcp_bus))"
  let ?steps = "[Handling ''x'', Handling ''?'', Acking ''?'', Acking ''x'']"
  have create: "CreateSubscription demo_pubsub (subscription_request demo_pubsub demo_gcp_bus) (svc ?s) = (None, [?n, ''other''])"
    by (simp add: demo_pubsub_def subscription_request_def subscription_path_def)
  obtain res s' where run: "run_state (gcp_Subscribe demo_pubsub demo_gcp_bus demo_log ?steps None) ?s = (res, s')" by fastforce
  have "fst (DeleteSubscription demo_pubsub n g) = None" for n g by (simp add: demo_pubsub_def)
  moreover have "?n \<noteq> ''other''" by (simp add: subscription_path_def)
  moreover have "app s' = [demo_pushed]"
    using run run_Subscribe [OF create, of _ _ demo_log ?steps None] by (auto simp: decoded_def demo_pubsub_def demo_log_def)
  ultimately show ?thesis
    using gcp_subscribe_cleans_up [OF reference_pubsub.pubsub_service_axioms refl demo_callbacks create run] run by auto
qed

end
