(* ===== verification/Fleet_Reads.thy ===== *)
theory Fleet_Reads
  imports Fleet
begin

text \<open>
  What the instances of a fleet read: a write on one instance is read by the others, and the limit of
  coherence, which does depend on methods not being interrupted: an eviction that arrives between the
  write and the install of a fill is lost.
\<close>

section \<open>A write is read by the others\<close>

lemma read_from_L2:
  assumes c: "member h c" "xsf_Do c = sf_alone" and s: "\<not> closed s" "mem_ok h cap (l1_st s)"
    and held: "\<And>d. mem_held h (l1_st s) (keyString c key) = Some d \<Longrightarrow> Expired d (clock_now s)"
    and e: "cells (l2_st s) (keyString c key) = Live e" "Fresh e (clock_now s)" "\<not> is_nil c (Value e)"
  shows "\<exists>s'. run_state (GetOrLoad c key) s = (Return (Inr (Value e)), s') \<and> loads (stats s') = loads (stats s)"
proof -
  obtain d f err a where g: "mem_Get h (clock_now s) (keyString c key) (l1_st s) = ((d, f, err), a)" by (metis prod.collapse)
  have "\<not> f" using mem_Get_law [OF s(2) g] held by (auto split: if_splits)
  then show ?thesis
    using s(1) g e by (simp add: GetOrLoad_def run_alone [OF memberD(1) [OF c(1)]] memberD(2,3) [OF c(1)] memory_ops_def Let_def sf_Do_def c(2)
        sf_alone_def fill_def vs_Load_def run_installL1 [OF c(1)] to_any_def)
qed

lemma at_nodeI:
  "run_state m ((fl_node f i)\<lparr>l2_st := fl_l2 f, clock_now := fl_now f, outbox := []\<rparr>) = (x, s) \<Longrightarrow>
    at_node i m f = (x, f\<lparr>fl_l2 := l2_st s, fl_node := (fl_node f)(i := s), fl_log := fl_log f @ outbox s\<rparr>)"
  by (simp add: at_node_def)

lemma read_at_node:
  assumes "member h (C i)" "xsf_Do (C i) = sf_alone" "\<not> closed (fl_node f i)" and ok: "mem_ok h cap (l1_st (fl_node f i))" and ks: "ks = keyString (C i) key"
    and "\<And>d. mem_held h (l1_st (fl_node f i)) ks = Some d \<Longrightarrow> Expired d (fl_now f)"
    and "cells (fl_l2 f) ks = Live e" "Fresh e (fl_now f)" "\<not> is_nil (C i) (Value e)"
  shows "\<exists>f'. at_node i (GetOrLoad (C i) key) f = (Return (Inr (Value e)), f') \<and> loads (stats (fl_node f' i)) = loads (stats (fl_node f i))"
proof -
  let ?s = "(fl_node f i)\<lparr>l2_st := fl_l2 f, clock_now := fl_now f, outbox := []\<rparr>"
  obtain s' where "run_state (GetOrLoad (C i) key) ?s = (Return (Inr (Value e)), s')" "loads (stats s') = loads (stats ?s)"
    using read_from_L2 [OF assms(1,2), of ?s cap key e] assms by auto
  then show ?thesis using at_nodeI [of "GetOrLoad (C i) key" f i] by auto
qed

lemma Set_opts:
  "cache_Set c key v opts = cache_Set c key v [WithTags (em_tags (fold (\<lambda>f m. f m) opts \<lparr>em_tags = []\<rparr>))]"
proof -
  have "fold (\<lambda>f m. f m) [WithTags (em_tags m)] \<lparr>em_tags = []\<rparr> = m" for m by (simp add: WithTags_def)
  then show ?thesis unfolding cache_Set_def by metis
qed

text \<open>\<open>Set\<close> on an instance: the shared store holds the value, and one event with a new ID is published.\<close>

lemma Set_at_node:
  assumes C: "\<And>i. member h (C i)" "apart C" and inv: "fleet_inv h cap C f" and a: "\<not> closed (fl_node f a)" "roomy (fl_l2 f)"
    and ks: "ks = keyString (C a) key"
  obtains e ev f1 where "at_node a (cache_Set (C a) key v opts) f = (None, f1)" "fl_log f1 = fl_log f @ [ev]"
    "Keys ev = [ks]" "OriginID ev = originID (C a)" "EmittedAt ev = fl_now f" "ID ev \<notin> ID ` set (fl_log f)"
    "cells (fl_l2 f1) ks = Live e" "Value e = v" "\<not> Negative e" "\<And>d. lasting d (C a) \<Longrightarrow> fl_now f + d \<le> FreshUntil e"
    "fl_now f1 = fl_now f" "fl_got f1 = fl_got f" "\<And>j. j \<noteq> a \<Longrightarrow> fl_node f1 j = fl_node f j" "fleet_inv h cap C f1"
proof -
  let ?s = "(fl_node f a)\<lparr>l2_st := fl_l2 f, clock_now := fl_now f, outbox := []\<rparr>"
  let ?id = "EncodeToString (crand (C a) (id_draws (fl_node f a)))"
  have "\<not> closed ?s" "node_ok h cap ?s" using a inv by (simp_all add: node_ok_def fleet_inv_def)
  from Set_stores [OF C(1) [of a] this ks, of v opts] obtain e s' where run: "run_state (cache_Set (C a) key v opts) ?s = (None, s')"
    "cells (l2_st s') ks = Live e" "Value e = v" "\<not> Negative e" "\<And>d. lasting d (C a) \<Longrightarrow> fl_now f + d \<le> FreshUntil e"
    "outbox s' = [key_event (C a) ks (Version e) (fl_now f) ?id]"
    by auto
  define f1 where "f1 = f\<lparr>fl_l2 := l2_st s', fl_node := (fl_node f)(a := s'), fl_log := fl_log f @ outbox s'\<rparr>"
  have at: "at_node a (cache_Set (C a) key v opts) f = (None, f1)" unfolding f1_def by (rule at_nodeI [OF run(1)])
  obtain ts where "cache_Set (C a) key v opts = cache_Set (C a) key v [WithTags ts]" by (rule that) (rule Set_opts)
  then have "f1 = on_node (C a) a (CSet key v ts) f" using run(1) by (simp add: f1_def on_node_def at_node_def)
  then have inv1: "fleet_inv h cap C f1" using call_inv [OF C(1) [of a] C(2) inv _ a(2), of "CSet key v ts"] by simp
  have new: "?id \<notin> ID ` set (fl_log f)" using undrawn [OF C(2), of f a "id_draws (fl_node f a)"] inv by (simp add: fleet_inv_def)
  show ?thesis
    by (rule that [OF at _ _ _ _ _ _ run(3-5) _ _ _ inv1, of "key_event (C a) ks (Version e) (fl_now f) ?id"])
      (use run(2,6) new in \<open>simp_all add: f1_def key_event_def\<close>)
qed

lemma evicted:
  assumes "member h c" "mem_ok h cap (l1_st s)" "dedupe_st s = Some d" "ID ev \<notin> seen d" "\<not> closed s" "OriginID ev \<noteq> originID c"
  shows "\<exists>s'. run_state (onEvent c ev) s = ((), s') \<and> mem_ok h cap (l1_st s') \<and> l2_st s' = l2_st s \<and> clock_now s' = clock_now s
    \<and> outbox s' = outbox s \<and> \<not> closed s' \<and> mem_held h (l1_st s') = mem_held h (l1_st s) |` (- set (Keys ev))"
proof -
  obtain d' where "Seen (ID ev) d = (False, d')" using Seen_ids assms(4) by (metis prod.collapse)
  from onEvent_run [OF memberD(1,2) [OF assms(1)] assms(2,3) this] assms(5,6) show ?thesis by auto
qed

text \<open>The event of a write evicts the key on another instance, which then reads the shared store.\<close>

lemma write_then_read:
  assumes C: "\<And>i. member h (C i)" "apart C" and inv: "fleet_inv h cap C f"
    and a: "\<not> closed (fl_node f a)" "lasting 1 (C a)" and room: "roomy (fl_l2 f)"
    and b: "b \<noteq> a" "\<not> closed (fl_node f b)" "xsf_Do (C b) = sf_alone" "\<not> is_nil (C b) v" "keyString (C b) key = keyString (C a) key"
  obtains g ev f' f'' where "at_node a (cache_Set (C a) key v opts) f = (None, g)" "fl_log g = fl_log f @ [ev]"
    "at_node b (onEvent (C b) ev) g = ((), f')" "at_node b (GetOrLoad (C b) key) f' = (Return (Inr v), f'')"
    "loads (stats (fl_node f'' b)) = loads (stats (fl_node f b))"
proof -
  let ?ks = "keyString (C a) key"
  obtain e ev g where g: "at_node a (cache_Set (C a) key v opts) f = (None, g)" "fl_log g = fl_log f @ [ev]"
    and ev: "Keys ev = [?ks]" "OriginID ev = originID (C a)" "ID ev \<notin> ID ` set (fl_log f)"
    and e: "cells (fl_l2 g) ?ks = Live e" "Value e = v" "\<And>d. lasting d (C a) \<Longrightarrow> fl_now f + d \<le> FreshUntil e"
    and g': "fl_now g = fl_now f" "fl_got g = fl_got f" "\<And>j. j \<noteq> a \<Longrightarrow> fl_node g j = fl_node f j" "fleet_inv h cap C g"
    using Set_at_node [where v = v and opts = opts, OF C inv a(1) room refl] by metis
  obtain s' where s': "deliver (C b) b ev g = g\<lparr>fl_node := (fl_node g)(b := s'), fl_got := (fl_got g)(b := insert (ID ev) (fl_got g b))\<rparr>"
    "closed s' = closed (fl_node f b)" "loads (stats s') = loads (stats (fl_node f b))" "mem_ok h cap (l1_st s')"
    "\<And>k e. mem_held h (l1_st s') k = Some e \<Longrightarrow> closed s' \<or> OriginID ev = originID (C b) \<or> ID ev \<in> fl_got f b \<or> k \<notin> set (Keys ev)"
    using deliver_effect [OF C(1) [of b] g'(4), where ev = ev] g'(2,3) b(1) by metis
  have "ID ev \<notin> fl_got f b" using inv ev(3) unfolding fleet_inv_def ids_ok_def by blast
  then have held: "mem_held h (l1_st s') ?ks = None"
    using s'(5) [of ?ks] s'(2) b(1,2) ev(1,2) C(2) by (cases "mem_held h (l1_st s') ?ks") (auto simp: apart_def)
  obtain f' where f': "at_node b (onEvent (C b) ev) g = ((), f')" by (metis (full_types) old.unit.exhaust surj_pair)
  then have "deliver (C b) b ev g = f'\<lparr>fl_got := (fl_got g)(b := insert (ID ev) (fl_got g b))\<rparr>" by (simp add: deliver_def on_node_def)
  then have f'_eq: "fl_node f' b = s'" "fl_l2 f' = fl_l2 g" "fl_now f' = fl_now f"
    using arg_cong [OF s'(1), of "\<lambda>f. fl_node f b"] arg_cong [OF s'(1), of fl_l2] arg_cong [OF s'(1), of fl_now] g'(1) by simp_all
  have "Fresh e (fl_now f)" using e(3) [OF a(2)] by (simp add: Fresh_def)
  then obtain f'' where "at_node b (GetOrLoad (C b) key) f' = (Return (Inr (Value e)), f'')" "loads (stats (fl_node f'' b)) = loads (stats s')"
    using read_at_node [of h C b f' cap ?ks key e] C(1) b s'(2,4) held e(1,2) by (auto simp: f'_eq)
  then show ?thesis using that [OF g f'] e(2) s'(3) by simp
qed

text \<open>
  C14: A write is read by the others. At any point of a run of the fleet, instance A sets a key. It publishes
  exactly one event, and once that is delivered to another instance B, \<open>GetOrLoad\<close> on B returns the value A
  wrote, without calling the loader, whatever B held for the key before. (For a fresh TTL that the jitter
  leaves positive, and with no other caller of B in flight for the key.)
\<close>

theorem write_reaches_peer:
  assumes C: "\<And>i. member h (C i)" "apart C" and f: "new_fleet h cap f0" "(fleet_step C)\<^sup>*\<^sup>* f0 f"
    and a: "\<not> closed (fl_node f a)" "lasting 1 (C a)" and room: "roomy (fl_l2 f)"
    and b: "b \<noteq> a" "\<not> closed (fl_node f b)" "xsf_Do (C b) = sf_alone" "\<not> is_nil (C b) v" "keyString (C b) key = keyString (C a) key"
  shows "\<exists>g ev f' f''. at_node a (cache_Set (C a) key v opts) f = (None, g) \<and> fl_log g = fl_log f @ [ev]
    \<and> at_node b (onEvent (C b) ev) g = ((), f') \<and> at_node b (GetOrLoad (C b) key) f' = (Return (Inr v), f'')
    \<and> loads (stats (fl_node f'' b)) = loads (stats (fl_node f b))"
  by (rule write_then_read [OF C run_inv [OF C f] a room b]) blast

theorem write_reaches_peer_witness:
  "\<exists>g ev f' f''. at_node 0 (cache_Set (demo_fleet 0) ''k'' 7 []) demo_start = (None, g) \<and> fl_log g = fl_log demo_start @ [ev]
     \<and> at_node 1 (onEvent (demo_fleet 1) ev) g = ((), f') \<and> at_node 1 (GetOrLoad (demo_fleet 1) ''k'') f' = (Return (Inr 7), f'')
     \<and> loads (stats (fl_node f'' 1)) = loads (stats (fl_node demo_start 1))"
  by (rule write_reaches_peer [OF demo_member demo_apart demo_new rtranclp.rtrancl_refl _ demo_lasting])
    (simp_all add: demo_start_def demo_state_def demo_fleet_def demo_roomy)

section \<open>An eviction between the write and the install\<close>

text \<open>A call during which nobody else acts.\<close>

lemma run_still:
  assumes "env c (ticks s) s = s"
  shows "run_state (Now c) s = (clock_now s, tick s)"
    and "run_state (load_origin c key) s = (loader c key (Suc (ticks s)), tick s)"
    and "run_state (l2_call c g) s = (case g (l2_st s) of (x, b) \<Rightarrow> (x, (tick s)\<lparr>l2_st := b\<rparr>))"
  using assms by (simp_all add: Now_def load_origin_def l2_call_def yield_def split: prod.split)

lemma window_order:
  "0 \<le> staleWindow c \<Longrightarrow> run_state (window c t) s = ((fu, su), s') \<Longrightarrow> fu \<le> su"
  by (auto simp: window_def Let_def split: if_splits float64.splits)

text \<open>
  A fill that misses and loads a value, up to the install: five calls, in which nobody else acts.
\<close>

lemma slow_fill:
  fixes c :: "('k, 'v::zero, 'v memcache, 'v vstore, 'r) cache"
  assumes c: "l2 c = Some vs_ops" "lasting 1 c" "0 \<le> staleWindow c" "\<And>m x. m < ticks s + 5 \<Longrightarrow> env c m x = x"
    and miss: "\<not> fresh_live (l2_st s) ks (clock_now s)" "loader c key (ticks s + 3) = Inr val"
  obtains e s1 where "run_state (fill c key ks) s = run_state (do { installL1 c ks e; State_Monad.return (Inr val) }) s1"
    "Value e = val" "Version e = vs_next (l2_st s) ks" "\<not> Negative e" "clock_now s < FreshUntil e" "FreshUntil e \<le> StaleUntil e"
    "cells (l2_st s1) = (cells (l2_st s))(ks := Live e)" "l1_st s1 = l1_st s" "clock_now s1 = clock_now s" "ticks s1 = ticks s + 5"
    "dedupe_st s1 = dedupe_st s" "closed s1 = closed s"
proof -
  let ?b = "l2_st s" and ?t = "clock_now s" and ?st = "loads_update (\<lambda>n. n + 1) (stats s)"
  obtain fu su j where w: "run_state (window c ?t) (s\<lparr>stats := ?st, ticks := ticks s + 4\<rparr>)
      = ((fu, su), s\<lparr>stats := ?st, ticks := ticks s + 4, jitter_draws := j\<rparr>)"
    using run_window_frame [of c ?t "s\<lparr>stats := ?st, ticks := ticks s + 4\<rparr>"] by auto
  have fu: "?t < fu" "fu \<le> su" using window_lasts [OF c(2) w] window_order [OF c(3) w] by auto
  define e where "e = \<lparr>Value = val, Version = vs_next ?b ks, StoredAt = vclock ?b, FreshUntil = fu, StaleUntil = su, Negative = False\<rparr>"
  define b1 where "b1 = ?b\<lparr>cells := (cells ?b)(ks := Live e)\<rparr>"
  define s1 where "s1 = s\<lparr>stats := ?st, jitter_draws := j, ticks := ticks s + 5, l2_st := b1\<rparr>"
  obtain cur found where load: "vs_Load ks ?b = ((cur, found, None), ?b)" "Version cur = cell_version (cells ?b ks)" "\<not> (found \<and> Fresh cur ?t)"
    using miss(1) by (cases "cells ?b ks") (auto simp: vs_Load_def)
  have cas: "vs_SetCAS ks val (cell_version (cells ?b ks)) fu su [] ?b = (Inr e, b1)"
    by (simp add: vs_SetCAS_def Let_def e_def b1_def)
  have "run_state (fill c key ks) s = run_state (do { installL1 c ks e; State_Monad.return (Inr val) }) s1"
    using load miss(2) w cas by (auto simp: fill_def fill_value_def c(1,4) run_still Let_def numeral_eq_Suc s1_def)
  then show ?thesis by (rule that) (simp_all add: e_def fu s1_def b1_def)
qed

text \<open>
  C15: An eviction that comes too early is lost. A fill has missed, loaded a value and written it to the
  shared store; before it installs the stored entry in L1, another instance invalidates the key and the
  event arrives. It evicts nothing, as nothing is there yet, and the fill then installs its entry: L1 now
  holds a value whose key has a tombstone of a greater version in the shared store, no event will evict
  it, and \<open>GetOrLoad\<close> serves it as fresh. The version gate of the install only compares with what L1
  holds.
\<close>

theorem late_install:
  fixes c :: "('k, 'v::zero, 'v memcache, 'v vstore, 'r) cache"
  assumes c: "member h c" "lasting 1 c" "0 \<le> staleWindow c" and ks: "ks = keyString c key"
    and s: "node_ok h cap s" "\<not> closed s" "dedupe_st s = Some d"
    and miss: "\<not> fresh_live (l2_st s) ks (clock_now s)" "loader c key (ticks s + 3) = Inr val"
    and ev: "ID ev \<notin> seen d" "OriginID ev \<noteq> originID c" "Keys ev = [ks]"
    and peer: "peer = (\<lambda>s. snd (run_state (onEvent c ev) (s\<lparr>l2_st := snd (vs_CompareAndDelete ks ForceVersion (l2_st s))\<rparr>)))"
    and run: "run_state (fill (c\<lparr>env := (\<lambda>n. if n = ticks s + 5 then peer else id)\<rparr>) key ks) s = (r, s')"
  shows "\<exists>e w. mem_held h (l1_st s') ks = Some e \<and> Value e = val \<and> cells (l2_st s') ks = Tomb w \<and> Version e < w
    \<and> fst (run_state (GetOrLoad c key) s') = Return (Inr val)"
proof -
  let ?rc = "c\<lparr>env := (\<lambda>n. if n = ticks s + 5 then peer else id)\<rparr>" and ?n = "vs_next (l2_st s) ks"
  have ok: "mem_ok h cap (l1_st s)" "roomy (l2_st s)" using s(1) by (auto simp: node_ok_def)
  obtain e s1 where e: "Value e = val" "Version e = ?n" "\<not> Negative e" "clock_now s < FreshUntil e" "FreshUntil e \<le> StaleUntil e"
    and fill: "run_state (fill ?rc key ks) s = run_state (do { installL1 ?rc ks e; State_Monad.return (Inr val) }) s1"
    and s1: "cells (l2_st s1) = (cells (l2_st s))(ks := Live e)" "l1_st s1 = l1_st s" "clock_now s1 = clock_now s" "ticks s1 = ticks s + 5"
      "dedupe_st s1 = dedupe_st s" "closed s1 = closed s"
    by (rule slow_fill [of ?rc s ks key val]) (use c miss memberD(3) [OF c(1)] in simp_all)
  define b2 where "b2 = snd (vs_CompareAndDelete ks ForceVersion (l2_st s1))"
  have b2: "cells b2 ks = Tomb (?n + 1)" by (simp add: b2_def vs_CompareAndDelete_def Let_def vs_next_def s1(1) e(2))
  obtain s2 where s2: "run_state (onEvent c ev) (s1\<lparr>l2_st := b2\<rparr>) = ((), s2)" "mem_ok h cap (l1_st s2)" "l2_st s2 = b2"
    "clock_now s2 = clock_now s" "\<not> closed s2" "mem_held h (l1_st s2) ks = None"
    using evicted [OF c(1), of cap "s1\<lparr>l2_st := b2\<rparr>" d ev] ok(1) s(2,3) ev s1 by auto
  have "peer s1 = s2" using s2(1) by (simp add: peer b2_def)
  then have s': "s' = s2\<lparr>ticks := ticks s + 6, l1_st := snd (mem_SetIfNewer h (clock_now s) ks e (l1_st s2))\<rparr>"
    using run fill s2(4) s1(4) memberD(2) [OF c(1)] by (auto simp: installL1_def l1_call_def yield_def memory_ops_def split_beta)
  have held: "mem_held h (l1_st s') ks = Some e" "mem_ok h cap (l1_st s')"
    using install_held(1) [OF s2(2)] install_held(3) [OF s2(2), of ks e "clock_now s"] s2(6) by (simp_all add: s')
  obtain d1 found err a where get: "mem_Get h (clock_now s) ks (l1_st s') = ((d1, found, err), a)" by (metis prod.collapse)
  have "found \<and> d1 = e" using mem_Get_law [OF held(2) get] held(1) e(4,5) by (auto simp: Expired_def split: if_splits)
  then have "fst (run_state (GetOrLoad c key) s') = Return (Inr val)"
    using s2(4,5) get e by (simp add: GetOrLoad_def run_alone [OF memberD(1) [OF c(1)]] memberD(2) [OF c(1)] memory_ops_def Let_def
        ks [symmetric] s' Fresh_def)
  then show ?thesis
    using held(1) s2(3) b2 e room_succ [OF next_le [OF ok(2), of ks]] by (intro exI [of _ e] exI [of _ "?n + 1"]) (simp add: s')
qed

definition demo_peer_event :: event where
  "demo_peer_event = key_event (demo_fleet 1) ''k'' 2 1000 ''e1''"

definition demo_race :: "nat \<Rightarrow> (int memcache, int vstore, gokey list) cstate \<Rightarrow> (int memcache, int vstore, gokey list) cstate" where
  "demo_race n = (if n = ticks (demo_state vs_empty :: (int memcache, int vstore, gokey list) cstate) + 5
     then (\<lambda>s. snd (run_state (onEvent (demo_fleet 0) demo_peer_event) (s\<lparr>l2_st := snd (vs_CompareAndDelete ''k'' ForceVersion (l2_st s))\<rparr>)))
     else id)"

theorem late_install_witness:
  "case run_state (fill ((demo_fleet 0)\<lparr>env := demo_race\<rparr>) ''k'' ''k'') (demo_state vs_empty) of (r, s') \<Rightarrow>
     \<exists>e w. mem_held demo_hash (l1_st s') ''k'' = Some e \<and> Value e = 8 \<and> cells (l2_st s') ''k'' = Tomb w \<and> Version e < w
       \<and> fst (run_state (GetOrLoad (demo_fleet 0) ''k'') s') = Return (Inr 8)"
proof -
  let ?s = "demo_state vs_empty :: (int memcache, int vstore, gokey list) cstate"
  obtain r s' where run: "run_state (fill ((demo_fleet 0)\<lparr>env := demo_race\<rparr>) ''k'' ''k'') ?s = (r, s')" by fastforce
  have "\<exists>e w. mem_held demo_hash (l1_st s') ''k'' = Some e \<and> Value e = 8 \<and> cells (l2_st s') ''k'' = Tomb w \<and> Version e < w
       \<and> fst (run_state (GetOrLoad (demo_fleet 0) ''k'') s') = Return (Inr 8)"
    by (rule late_install [OF demo_member demo_lasting _ _ demo_ok(2,1) _ _ _ _ _ _ refl run [unfolded demo_race_def], of "NewDedupe 4"])
      (simp_all add: demo_peer_event_def demo_fleet_def demo_state_def vs_empty_def key_event_def NewDedupe_def)
  then show ?thesis using run by simp
qed

end
