(* ===== verification/Service_Http.thy ===== *)
theory Service_Http
  imports Builder Gcp_Pubsub Redis_Store Fleet_Reads
begin

text \<open>
  What the services under examples/ and demo/ use of the standard library: error texts, the environment,
  and the responses of net/http; and an instance of a fleet built by \<open>Builder\<close>. Keys and values of the
  services are strings, whose zero value is the empty one.
\<close>

instantiation list :: (type) zero
begin

definition zero_list :: "'a list" where
  "zero_list = []"

instance ..

end

section \<open>Errors and responses\<close>

fun Error :: "go_error \<Rightarrow> string" where
  "Error ErrNotFound = ''nimbus: not found''"
| "Error ErrClosed = ''nimbus: cache closed''"
| "Error ErrVersionConflict = ''nimbus/store: version conflict''"
| "Error (ErrMsg m) = m"
| "Error (ErrWrap m e) = m @ '': '' @ Error e"

text \<open>\<open>time.Duration.String\<close>: the largest units that fit, with the fraction of the last one up to its last digit.\<close>

definition fmtFrac :: "nat \<Rightarrow> nat \<Rightarrow> string" where
  "fmtFrac v prec =
     (let ds = dec (v mod 10 ^ prec);
          digits = rev (dropWhile (\<lambda>d. d = CHR ''0'') (rev (replicate (prec - length ds) CHR ''0'' @ ds)))
      in if digits = [] then [] else CHR ''.'' # digits)"

definition Duration_String :: "duration \<Rightarrow> string" where
  "Duration_String d =
     (let u = nat \<bar>d\<bar>; unit = (\<lambda>prec name. dec (u div 10 ^ prec) @ fmtFrac u prec @ name); sec = u div 10 ^ 9
      in (if d < 0 then ''-'' else []) @
         (if u = 0 then ''0s''
          else if u < 10 ^ 3 then unit 0 ''ns''
          else if u < 10 ^ 6 then unit 3 [CHR 0xC2, CHR 0xB5, CHR ''s'']
          else if u < 10 ^ 9 then unit 6 ''ms''
          else (if sec div 60 = 0 then []
                else (if sec div 3600 = 0 then [] else dec (sec div 3600) @ ''h'') @ dec (sec div 60 mod 60) @ ''m'')
            @ dec (sec mod 60) @ fmtFrac u 9 @ ''s''))"

text \<open>How a program ends: by \<open>log.Fatal\<close>, by a panic, or normally.\<close>

datatype exit = Fatal string | Crashed | Done

datatype field = FString string | FInt int | FBool bool | FStats Stats

datatype body = NoBody | Text string | Json "(string \<times> field) list"

record response =
  rs_status :: nat
  rs_type :: string
  rs_body :: body

text \<open>
  \<open>http.Error\<close>, \<open>http.NotFound\<close>, a response without a body, a plain \<open>Write\<close>, and an encoded JSON object.
  A handler that panics writes nothing; net/http closes the connection. That is \<open>None\<close> below.
\<close>

definition http_Error :: "string \<Rightarrow> nat \<Rightarrow> response" where
  "http_Error m code = \<lparr>rs_status = code, rs_type = ''text/plain; charset=utf-8'', rs_body = Text (m @ [CHR 0x0A])\<rparr>"

definition http_NotFound :: response where
  "http_NotFound = http_Error ''404 page not found'' 404"

definition WriteHeader :: "nat \<Rightarrow> response" where
  "WriteHeader code = \<lparr>rs_status = code, rs_type = [], rs_body = NoBody\<rparr>"

definition http_Write :: "string \<Rightarrow> response" where
  "http_Write m = \<lparr>rs_status = 200, rs_type = ''text/plain; charset=utf-8'', rs_body = Text m\<rparr>"

definition json_response :: "(string \<times> field) list \<Rightarrow> response" where
  "json_response fs = \<lparr>rs_status = 200, rs_type = ''application/json'', rs_body = Json fs\<rparr>"

text \<open>
  Requests, and what \<open>http.ServeMux\<close> does beside calling a handler: a pattern with the method GET also serves
  HEAD, and a known path with another method is answered with 405.
\<close>

record http_request = request +
  Method :: string
  Segments :: "string list"

definition is_get :: "http_request \<Rightarrow> bool" where
  "is_get r \<longleftrightarrow> Method r = ''GET'' \<or> Method r = ''HEAD''"

definition not_allowed :: "('s, response option) state" where
  "not_allowed = State_Monad.return (Some (http_Error ''Method Not Allowed'' 405))"

section \<open>Instances built by the Builder\<close>

text \<open>
  A runtime for a cache of strings over the memory store that runs alone: no interference inside a
  method, no other caller in flight, and draws of \<open>math/rand\<close> below 1.
\<close>

definition service_runtime :: "(gokey \<Rightarrow> u64) \<Rightarrow> (string, string, string memcache, 'b, 'x) runtime \<Rightarrow> bool" where
  "service_runtime h rt \<longleftrightarrow> rt_memory rt = memory_value h \<and> rt_any rt = VString \<and> rt_env rt = quiet
     \<and> rt_singleflight rt = sf_alone \<and> rt_is_nil rt = (\<lambda>_. False) \<and> (\<forall>n. 0 \<le> rt_mrand rt n \<and> rt_mrand rt n < 1)"

text \<open>What \<open>Build\<close> makes of a good configuration with the memory store, an L2 and a bus.\<close>

lemma built_instance:
  fixes cfg :: "(string, string, string memcache, 'b) config"
  assumes rt: "service_runtime h rt" and cfg: "\<not> config_bad cfg" "cfg_l1 cfg = memory_value h" "cfg_keyString cfg = None"
    "cfg_l2 cfg = Some L2" "cfg_loader cfg = Some ld"
  obtains c s where "Build rt b cfg = Some (Inr (c, s))" "env c = quiet" "l1 c = memory_ops h" "l2 c = Some L2" "bus c" "xsf_Do c = sf_alone"
    "keyString c = id" "is_nil c = (\<lambda>_. False)" "loader c = ld" "fresh c = cfg_fresh cfg" "staleWindow c = cfg_staleWindow cfg"
    "maxTTL c = cfg_maxTTL cfg" "jitter c = cfg_jitter cfg" "mrand c = rt_mrand rt" "crand c = rt_crand rt" "originID c = EncodeToString (rt_crand rt 0)"
    "mem_ok h 625 (l1_st s)" "mem_held h (l1_st s) = Map.empty" "l2_st s = b" "\<not> closed s" "dedupe_st s = Some (NewDedupe 4096)"
    "id_draws s = 1" "stats s = zero_counters"
proof -
  obtain m :: "string memcache" where m: "mem_New [] = Some m" "memory_value h = Some (memory_ops h, m)" using memory_value_Some by blast
  have "rt_memory rt = Some (memory_ops h, m)" using rt m(2) by (simp add: service_runtime_def)
  from Build_outcome [OF this, of cfg b] cfg m(2)
  have "Build rt b cfg = Some (Inr (new_cache rt cfg ld (memory_ops h),
      new_state rt cfg m b (new_refresher cfg (effective_timeout (cfg_refreshTimeout cfg)))))" by simp
  then show ?thesis
    by (rule that) (use rt cfg default_store [OF m(1), of h] in \<open>simp_all add: new_cache_def new_state_def service_runtime_def fun_eq_iff\<close>)
qed

text \<open>Instances built one by one, with the versioned store as their L2, are a new fleet.\<close>

lemma built_fleet:
  fixes cfg :: "nat \<Rightarrow> (string, string, string memcache, string vstore) config"
  assumes rt: "\<And>i. service_runtime h (rt i)" "inj (\<lambda>(i, n). rt_crand (rt i) n)"
    and cfg: "\<And>i. \<not> config_bad (cfg i)" "\<And>i. cfg_l1 (cfg i) = memory_value h" "\<And>i. cfg_keyString (cfg i) = None"
      "\<And>i. cfg_l2 (cfg i) = Some vs_ops" "\<And>i. cfg_loader (cfg i) = Some (ld i)"
    and C: "\<And>i. Build (rt i) (b0 i) (cfg i) = Some (Inr (C i, fl_node f0 i))" and f0: "fl_log f0 = []" "\<And>i. fl_got f0 i = {}"
  shows "member h (C i)" "apart C" "new_fleet h 625 f0" "xsf_Do (C i) = sf_alone" "keyString (C i) = id" "\<not> is_nil (C i) v" "loader (C i) = ld i"
    "fresh (C i) = cfg_fresh (cfg i)" "staleWindow (C i) = cfg_staleWindow (cfg i)" "maxTTL (C i) = cfg_maxTTL (cfg i)" "jitter (C i) = cfg_jitter (cfg i)"
    "mrand (C i) = rt_mrand (rt i)" "\<not> closed (fl_node f0 i)" "stats (fl_node f0 i) = zero_counters"
proof -
  have c: "env (C i) = quiet \<and> l1 (C i) = memory_ops h \<and> l2 (C i) = Some vs_ops \<and> bus (C i) \<and> xsf_Do (C i) = sf_alone \<and> keyString (C i) = id
    \<and> is_nil (C i) = (\<lambda>_. False) \<and> crand (C i) = rt_crand (rt i) \<and> originID (C i) = EncodeToString (rt_crand (rt i) 0) \<and> loader (C i) = ld i
    \<and> fresh (C i) = cfg_fresh (cfg i) \<and> staleWindow (C i) = cfg_staleWindow (cfg i) \<and> maxTTL (C i) = cfg_maxTTL (cfg i) \<and> jitter (C i) = cfg_jitter (cfg i)
    \<and> mrand (C i) = rt_mrand (rt i) \<and> \<not> closed (fl_node f0 i) \<and> stats (fl_node f0 i) = zero_counters
    \<and> mem_ok h 625 (l1_st (fl_node f0 i)) \<and> mem_held h (l1_st (fl_node f0 i)) = Map.empty \<and> dedupe_st (fl_node f0 i) = Some (NewDedupe 4096)" for i
    by (rule built_instance [OF rt(1) [of i] cfg(1-5) [of i], of "b0 i"]) (simp add: C)
  show "member h (C i)" using c [of i] sf_alone_law by (simp add: member_def)
  have "rt_crand (rt i) m = rt_crand (rt j) n \<Longrightarrow> i = j \<and> m = n" for i j m n using injD [OF rt(2), of "(i, m)" "(j, n)"] by simp
  then show "apart C" using c unfolding apart_def by (metis EncodeToString_inj)
  show "new_fleet h 625 f0" using c f0 by (auto simp: new_fleet_def)
  show "xsf_Do (C i) = sf_alone" "keyString (C i) = id" "\<not> is_nil (C i) v" "loader (C i) = ld i" "fresh (C i) = cfg_fresh (cfg i)"
    "staleWindow (C i) = cfg_staleWindow (cfg i)" "maxTTL (C i) = cfg_maxTTL (cfg i)" "jitter (C i) = cfg_jitter (cfg i)" "mrand (C i) = rt_mrand (rt i)"
    "\<not> closed (fl_node f0 i)" "stats (fl_node f0 i) = zero_counters"
    using c [of i] by simp_all
qed

text \<open>An L2 whose tombstones outlive the default refresh timeout, as those of the Redis store do.\<close>

definition tombstones_last :: "('b, 'v) l2_ops \<Rightarrow> bool" where
  "tombstones_last L2 \<longleftrightarrow> (\<forall>ttl. l2_TombstoneTTL L2 = Some ttl \<longrightarrow> 5 * Second < ttl)"

lemma redis_tombstones_last: "tombstones_last (redis_ops (redis_New json R nw w cd []))"
  by (simp add: tombstones_last_def redis_ops_def redis_TombstoneTTL_def redis_New_def duration_defs)

lemma Duration_String_2s: "Duration_String (2 * Second) = ''2s''"
proof -
  have d: "dec 0 = ''0''" "dec 2 = ''2''" by (simp_all add: dec.simps [of 0] dec.simps [of 2] digit_char_def char_of_def bit_iff_odd)
  have "replicate n CHR ''0'' @ ''0'' = replicate (Suc n) CHR ''0''" for n by (simp add: replicate_append_same)
  then have "fmtFrac 2000000000 9 = []" unfolding fmtFrac_def by (simp add: d Let_def)
  then show ?thesis by (simp add: Duration_String_def duration_defs d Let_def)
qed

lemma at_node_map: "at_node i m f = (x, f') \<Longrightarrow> at_node i (do { x \<leftarrow> m; State_Monad.return (g x) }) f = (g x, f')"
  by (simp add: at_node_def split_beta Let_def split: prod.splits)

text \<open>A runtime for instance \<open>i\<close>.\<close>

definition demo_service_rt :: "nat \<Rightarrow> (string, string, string memcache, 'b, unit) runtime" where
  "demo_service_rt i = \<lparr>rt_memory = memory_value demo_hash, rt_any = VString, rt_Sprint = (\<lambda>_. []), rt_now = 1000, rt_env = quiet,
     rt_singleflight = sf_alone, rt_is_nil = (\<lambda>_. False), rt_crand = (\<lambda>n. replicate i 0 @ 1 # replicate n 0), rt_mrand = (\<lambda>_. 0),
     rt_f64_ovf = 0, rt_range_order = id\<rparr>"

lemma demo_service_runtime: "service_runtime demo_hash (demo_service_rt i)"
  by (simp add: service_runtime_def demo_service_rt_def)

lemma vs_tombstones_last: "tombstones_last vs_ops"
  by (simp add: tombstones_last_def)

lemma demo_service_crand: "inj (\<lambda>(i, n). rt_crand (demo_service_rt i) n)"
proof (rule injI, clarify)
  fix i m j n assume "rt_crand (demo_service_rt i) m = rt_crand (demo_service_rt j) n"
  then have "crand (demo_fleet i) m = crand (demo_fleet j) n" by (simp add: demo_service_rt_def demo_fleet_def)
  then show "i = j \<and> m = n" using demo_apart unfolding apart_def by blast
qed

end
