(* ===== verification/Metrics_Export.thy ===== *)
theory Metrics_Export
  imports Cache_Core
begin

text \<open>
  The OpenTelemetry export, metrics/metrics.go. The meter is a parameter: creating an instrument
  succeeds with the instrument's name or fails, and so does registering the callback. What is
  registered is the list of instrument names and the callback, a function from a snapshot of the
  statistics to the observations it makes. The callback ranges over a map, in an order that is a
  parameter too. Go's \<open>int64(x)\<close> of an unsigned counter is the signed reading of its bits.
\<close>

record meter =
  new_instrument :: "string \<Rightarrow> go_error option"
  RegisterCallback :: "string list \<Rightarrow> go_error option"
  range_getters :: "string list \<Rightarrow> string list"

record metrics_config =
  prefix_name :: string

definition WithPrefix :: "string \<Rightarrow> metrics_config \<Rightarrow> metrics_config" where
  "WithPrefix p c = c\<lparr>prefix_name := p\<rparr>"

definition specs :: "(string \<times> (Stats \<Rightarrow> int)) list" where
  "specs = [(''hits'', \<lambda>s. sint (hits s)), (''stale_hits'', \<lambda>s. sint (staleHits s)), (''misses'', \<lambda>s. sint (misses s)),
     (''loads'', \<lambda>s. sint (loads s)), (''load_errors'', \<lambda>s. sint (loadErrors s)), (''negative_hits'', \<lambda>s. sint (negHits s)),
     (''refreshes'', \<lambda>s. sint (refreshes s)), (''bus_evicts'', \<lambda>s. sint (busEvicts s)), (''evictions'', \<lambda>s. sint (Evictions s))]"

fun make_instruments :: "meter \<Rightarrow> string \<Rightarrow> (string \<times> (Stats \<Rightarrow> int)) list \<Rightarrow>
    go_error + (string \<times> (Stats \<Rightarrow> int)) list" where
  "make_instruments m pre [] = Inr []"
| "make_instruments m pre ((name, get) # sps) =
     (let inst = pre @ ''.'' @ name
      in case new_instrument m inst of
           Some err \<Rightarrow> Inl err
         | None \<Rightarrow>
             (case make_instruments m pre sps of
                Inl err \<Rightarrow> Inl err
              | Inr rest \<Rightarrow> Inr ((inst, get) # rest)))"

text \<open>
  The registration: the instruments, and the observations of one collection. The map from instruments to
  getters is keyed by the value the meter returns; here an instrument is identified with its name, which is
  how OpenTelemetry identifies the instruments of one meter, and the names of the specification differ.
\<close>

record registration =
  observables :: "string list"
  collect :: "Stats \<Rightarrow> (string \<times> int) list"

definition observe :: "(string \<times> (Stats \<Rightarrow> int)) list \<Rightarrow> Stats \<Rightarrow> string \<Rightarrow> string \<times> int" where
  "observe getters s inst = (inst, case map_of getters inst of None \<Rightarrow> 0 | Some get \<Rightarrow> get s)"

definition Register :: "meter \<Rightarrow> (metrics_config \<Rightarrow> metrics_config) list \<Rightarrow> go_error + registration" where
  "Register m opts =
     (let cfg = fold (\<lambda>f c. f c) opts \<lparr>prefix_name = ''nimbus''\<rparr>
      in case make_instruments m (prefix_name cfg) specs of
           Inl err \<Rightarrow> Inl err
         | Inr getters \<Rightarrow>
             let l1len = prefix_name cfg @ ''.l1.entries''; obs = map fst getters @ [l1len]
             in case new_instrument m l1len of
                  Some err \<Rightarrow> Inl err
                | None \<Rightarrow>
                    (case RegisterCallback m obs of
                       Some err \<Rightarrow> Inl err
                     | None \<Rightarrow> Inr \<lparr>observables = obs,
                         collect = (\<lambda>s. map (observe getters s) (range_getters m (map fst getters)) @ [(l1len, i64 (L1Len s))])\<rparr>))"

section \<open>Facts\<close>

lemma make_instruments_Inr:
  "make_instruments m pre sps = Inr gs \<Longrightarrow> gs = map (\<lambda>(name, get). (pre @ ''.'' @ name, get)) sps"
  by (induction sps arbitrary: gs) (auto simp: Let_def split: option.splits sum.splits)

lemma specs_distinct: "distinct (map fst specs)" "''l1.entries'' \<notin> set (map fst specs)"
  by (simp_all add: specs_def)

lemma sint_below: "unat x < 2 ^ 63 \<Longrightarrow> sint x = int (unat x)" for x :: u64
proof -
  assume "unat x < 2 ^ 63"
  then have "int (unat x) < int (2 ^ 63)" by (simp only: of_nat_less_iff)
  then have "uint x < 2 ^ 63" by simp
  then have "signed_take_bit 63 (uint x) = uint x" by (intro signed_take_bit_int_eq_self) (simp_all add: order_trans [OF _ unsigned_greater_eq])
  then show ?thesis by (simp add: sint_uint)
qed

text \<open>
  C40: The exported metrics are the statistics. If registering succeeds, a collection makes exactly one
  observation per registered instrument, the instruments have distinct names, and each counter below
  \<open>2 ^ 63\<close> is observed under its own name with its exact value, whatever the order in which the map of
  the getters is ranged over. The number of L2 errors is exported nowhere.
\<close>

theorem metrics_faithful:
  assumes "Register m opts = Inr reg"
    and range: "\<And>xs. distinct xs \<Longrightarrow> distinct (range_getters m xs) \<and> set (range_getters m xs) = set xs"
  shows "distinct (map fst (collect reg s)) \<and> set (map fst (collect reg s)) = set (observables reg)
    \<and> distinct (observables reg) \<and> length (observables reg) = 10
    \<and> collect reg (s\<lparr>l2Errors := n\<rparr>) = collect reg s
    \<and> (\<exists>pre. \<forall>(name, x) \<in> set [(''hits'', hits s), (''stale_hits'', staleHits s), (''misses'', misses s), (''loads'', loads s),
         (''load_errors'', loadErrors s), (''negative_hits'', negHits s), (''refreshes'', refreshes s),
         (''bus_evicts'', busEvicts s), (''evictions'', Evictions s)].
         unat x < 2 ^ 63 \<longrightarrow> (pre @ ''.'' @ name, int (unat x)) \<in> set (collect reg s))"
proof -
  define pre where "pre = prefix_name (fold (\<lambda>f c. f c) opts \<lparr>prefix_name = ''nimbus''\<rparr>)"
  let ?gs = "map (\<lambda>(name, get). (pre @ ''.'' @ name, get)) specs"
  have reg: "observables reg = map fst ?gs @ [pre @ ''.l1.entries'']"
    "collect reg s' = map (observe ?gs s') (range_getters m (map fst ?gs)) @ [(pre @ ''.l1.entries'', i64 (L1Len s'))]" for s'
    using assms make_instruments_Inr
    by (fastforce simp: Register_def Let_def simp flip: pre_def split: sum.splits option.splits)+
  have d: "distinct (observables reg)" "distinct (map fst ?gs)" "pre @ ''.l1.entries'' \<notin> set (map fst ?gs)"
    by (simp_all add: reg(1) specs_def)
  have names: "map fst (collect reg s) = range_getters m (map fst ?gs) @ [pre @ ''.l1.entries'']"
    by (simp add: reg(2) observe_def comp_def)
  have found: "(inst, get s) \<in> set (collect reg s)" if "(inst, get) \<in> set ?gs" for inst get
  proof -
    have "map_of ?gs inst = Some get" using that d(2) by (rule map_of_is_SomeI [rotated])
    moreover have "inst \<in> set (range_getters m (map fst ?gs))" using range [OF d(2)] that by force
    ultimately show ?thesis by (force simp: reg(2) observe_def)
  qed
  then have all: "\<forall>(name, get) \<in> set specs. (pre @ ''.'' @ name, get s) \<in> set (collect reg s)" by force
  have "observe ?gs (s\<lparr>l2Errors := n\<rparr>) inst = observe ?gs s inst" for inst
    by (simp add: observe_def specs_def)
  then have same: "collect reg (s\<lparr>l2Errors := n\<rparr>) = collect reg s" by (simp add: reg(2))
  have "\<forall>(name, x) \<in> set [(''hits'', hits s), (''stale_hits'', staleHits s), (''misses'', misses s), (''loads'', loads s),
         (''load_errors'', loadErrors s), (''negative_hits'', negHits s), (''refreshes'', refreshes s),
         (''bus_evicts'', busEvicts s), (''evictions'', Evictions s)].
         unat x < 2 ^ 63 \<longrightarrow> (pre @ ''.'' @ name, int (unat x)) \<in> set (collect reg s)"
    using all by (auto simp: specs_def sint_below)
  moreover have "distinct (map fst (collect reg s)) \<and> set (map fst (collect reg s)) = set (observables reg)"
    unfolding names reg(1) using range [OF d(2)] d(3) by (simp only: distinct_append set_append) auto
  moreover have "length (observables reg) = 10" by (simp add: reg(1) specs_def)
  ultimately show ?thesis using d(1) same by blast
qed

theorem metrics_faithful_witness:
  "\<exists>reg. Register \<lparr>new_instrument = (\<lambda>_. None), RegisterCallback = (\<lambda>_. None), range_getters = rev\<rparr> [WithPrefix ''x''] = Inr reg
     \<and> length (observables reg) = 10"
proof -
  let ?m = "\<lparr>new_instrument = (\<lambda>_. None), RegisterCallback = (\<lambda>_. None), range_getters = rev\<rparr>"
  obtain reg where r: "Register ?m [WithPrefix ''x''] = Inr reg"
    by (simp add: Register_def WithPrefix_def specs_def Let_def)
  show ?thesis using metrics_faithful [OF r] r by simp
qed

end
