(* ===== verification/Cloudrun.thy ===== *)
theory Cloudrun
  imports Service_Http Metrics_Export
begin

text \<open>
  examples/cloudrun/main.go: the service for Google Cloud Run, from the start-up to the handlers of its
  routes. Connecting to Redis (with the store on top of it) and to Pub/Sub, and the validation of
  tokens, are parameters; a start-up that ends in \<open>log.Fatalf\<close> is its message.
\<close>

section \<open>Start-up\<close>

definition mustEnv :: "(string \<Rightarrow> string) \<Rightarrow> string \<Rightarrow> string + string" where
  "mustEnv getenv k = (if getenv k = [] then Inl (''missing required env '' @ k) else Inr (getenv k))"

definition envOr :: "(string \<Rightarrow> string) \<Rightarrow> string \<Rightarrow> string \<Rightarrow> string" where
  "envOr getenv k dflt = (if getenv k \<noteq> [] then getenv k else dflt)"

definition loadItem :: "string \<Rightarrow> nat \<Rightarrow> go_error + string" where
  "loadItem i t = Inr (''item-'' @ i)"

definition push_options :: "(string \<Rightarrow> go_error + payload) \<Rightarrow> string \<Rightarrow> string \<Rightarrow> (push_bus \<Rightarrow> push_bus) list" where
  "push_options Validate pushAudience pushSAEmail =
     (if pushAudience \<noteq> [] \<and> pushSAEmail \<noteq> [] then [WithPushAuth Validate pushAudience [pushSAEmail]] else [])"

definition cloudrun_config ::
  "(('a, string) l1_ops \<times> 'a) option \<Rightarrow> ('b, string) l2_ops \<Rightarrow> (string, string, 'a, 'b) config" where
  "cloudrun_config mem L2 =
     Builder_RefreshMode RefreshRequestBound
       (Builder_Jitter (Fin (dbl (1 / 10)))
         (Builder_TTL (30 * Second) (5 * Minute)
           (Builder_Bus RealBus (Builder_L2 (Some L2) (Builder_L1 mem (NewBuilder (Some loadItem)))))))"

record ('g, 'b) cloud =
  dial_redis :: "string \<Rightarrow> go_error + ('b, string) l2_ops"
  dial_pubsub :: "string \<Rightarrow> go_error + 'g pubsub"
  idtoken_Validate :: "string \<Rightarrow> go_error + payload"
  stdout_exporter :: "go_error option"
  otel_meter :: meter

definition setupMetrics :: "('g, 'b) cloud \<Rightarrow> string + registration" where
  "setupMetrics w = (case stdout_exporter w of
       Some err \<Rightarrow> Inl (''metrics exporter: '' @ Error err)
     | None \<Rightarrow> (case Register (otel_meter w) [] of
           Inl err \<Rightarrow> Inl (''metrics register: '' @ Error err)
         | Inr reg \<Rightarrow> Inr reg))"

record ('a, 'b) service =
  svc_bus :: push_bus
  svc_cache :: "(string, string, 'a, 'b, string refresher_value) cache"
  svc_state :: "('a, 'b, string refresher_value) cstate"
  svc_metrics :: "registration option"
  svc_addr :: string

text \<open>The rest of the start-up once the clients are connected, and all of it.\<close>

definition cloudrun_build ::
  "('g, 'b) cloud \<Rightarrow> (string \<Rightarrow> string) \<Rightarrow> (('a, string) l1_ops \<times> 'a) option \<Rightarrow> (string, string, 'a, 'b, 'x) runtime \<Rightarrow> 'b \<Rightarrow>
    ('b, string) l2_ops \<Rightarrow> push_bus \<Rightarrow> (string + ('a, 'b) service) option" where
  "cloudrun_build w getenv mem rt b0 L2 p = (case Build rt b0 (cloudrun_config mem L2) of
       None \<Rightarrow> None
     | Some (Inl err) \<Rightarrow> Some (Inl (''cache: '' @ Error err))
     | Some (Inr (c, s)) \<Rightarrow> Some
         (case (if getenv ''METRICS'' = ''1'' then map_sum id Some (setupMetrics w) else Inr None) of
            Inl m \<Rightarrow> Inl m
          | Inr reg \<Rightarrow> Inr \<lparr>svc_bus = p, svc_cache = c, svc_state = s, svc_metrics = reg,
              svc_addr = '':'' @ envOr getenv ''PORT'' ''8080''\<rparr>))"

definition cloudrun_start ::
  "('g, 'b) cloud \<Rightarrow> (string \<Rightarrow> string) \<Rightarrow> (('a, string) l1_ops \<times> 'a) option \<Rightarrow> (string, string, 'a, 'b, 'x) runtime \<Rightarrow> 'b \<Rightarrow>
    ('g, (string + ('a, 'b) service) option) state" where
  "cloudrun_start w getenv mem rt b0 = (case mustEnv getenv ''PROJECT_ID'' of
       Inl m \<Rightarrow> State_Monad.return (Some (Inl m))
     | Inr projectID \<Rightarrow> (case mustEnv getenv ''REDIS_ADDR'' of
         Inl m \<Rightarrow> State_Monad.return (Some (Inl m))
       | Inr redisAddr \<Rightarrow> (case dial_redis w redisAddr of
           Inl err \<Rightarrow> State_Monad.return (Some (Inl (''redis: '' @ Error err)))
         | Inr L2 \<Rightarrow> (case dial_pubsub w projectID of
             Inl err \<Rightarrow> State_Monad.return (Some (Inl (''pubsub: '' @ Error err)))
           | Inr psClient \<Rightarrow> do {
               r \<leftarrow> NewPush psClient (envOr getenv ''PUBSUB_TOPIC'' ''nimbus-invalidation'')
                     (push_options (idtoken_Validate w) (getenv ''PUSH_AUDIENCE'') (getenv ''PUSH_SA_EMAIL''));
               State_Monad.return (case r of
                   Inl err \<Rightarrow> Some (Inl (''bus: '' @ Error err))
                 | Inr p \<Rightarrow> cloudrun_build w getenv mem rt b0 L2 p) }))))"

section \<open>Handlers\<close>

definition writeJSON :: "(string \<times> field) list \<Rightarrow> response" where
  "writeJSON v = json_response v"

definition get_item ::
  "(string, string, 'a, 'b, 'r) cache \<Rightarrow> string \<Rightarrow> ('a, 'b, 'r, response option) prog" where
  "get_item c i = do {
     r \<leftarrow> GetOrLoad c i;
     State_Monad.return (case r of
         Panic \<Rightarrow> None
       | Return (Inl err) \<Rightarrow> Some (if errors_is err ErrNotFound then http_NotFound else http_Error (Error err) 500)
       | Return (Inr v) \<Rightarrow> Some (writeJSON [(''id'', FString i), (''value'', FString v)])) }"

text \<open>
  \<open>decode\<close> is what \<open>json.Decoder.Decode\<close> leaves in the field \<open>Value\<close> of the zero struct; its error is
  ignored by the code.
\<close>

definition put_item ::
  "(string \<Rightarrow> string) \<Rightarrow> (string, string, 'a, 'b, 'r) cache \<Rightarrow> string \<Rightarrow> string \<Rightarrow> ('a, 'b, 'r, response option) prog" where
  "put_item decode c i content = do {
     err \<leftarrow> cache_Set c i (decode content) [];
     State_Monad.return (Some (case err of
         Some e \<Rightarrow> http_Error (Error e) 500
       | None \<Rightarrow> WriteHeader 204)) }"

definition delete_item ::
  "(string, string, 'a, 'b, 'r) cache \<Rightarrow> string \<Rightarrow> ('a, 'b, 'r, response option) prog" where
  "delete_item c i = do {
     err \<leftarrow> Invalidate c i;
     State_Monad.return (Some (case err of
         Some e \<Rightarrow> http_Error (Error e) 500
       | None \<Rightarrow> WriteHeader 204)) }"

text \<open>The routes. A wildcard matches one non-empty segment.\<close>

definition on_cache :: "('s, 'x) state \<Rightarrow> (('s, 'h) push_state, 'x) state" where
  "on_cache m = State (\<lambda>s. let (x, a) = run_state m (papp s) in (x, s\<lparr>papp := a\<rparr>))"

fun push_response :: "push_reply \<Rightarrow> response" where
  "push_response (Refused m code) = http_Error m code"
| "push_response (Accepted code) = WriteHeader code"

definition cloudrun_serve ::
  "push_json \<Rightarrow> (string \<Rightarrow> string) \<Rightarrow> push_bus \<Rightarrow> (string, string, 'a, 'b, 'r) cache \<Rightarrow> http_request \<Rightarrow>
    ((('a, 'b, 'r) cstate, unit) push_state, response option) state" where
  "cloudrun_serve js decode p c r =
     (if Segments r = [''_ah'', ''push''] then
        (if Method r = ''POST''
         then do { reply \<leftarrow> push_Handler js (\<lambda>_. onEvent c) p (request.truncate r);
                   State_Monad.return (Some (push_response reply)) }
         else not_allowed)
      else if Segments r = [''healthz''] then
        (if is_get r then State_Monad.return (Some (http_Write ''ok'')) else not_allowed)
      else case Segments r of
          [x, i] \<Rightarrow>
            if x = ''items'' \<and> i \<noteq> [] then
              (if is_get r then on_cache (get_item c i)
               else if Method r = ''PUT'' then on_cache (put_item decode c i (Body r))
               else if Method r = ''DELETE'' then on_cache (delete_item c i)
               else not_allowed)
            else State_Monad.return (Some http_NotFound)
        | _ \<Rightarrow> State_Monad.return (Some http_NotFound))"

text \<open>What the goroutine that waits for SIGTERM does once \<open>srv.Shutdown\<close> has returned (theory \<open>Cloudrun_Exit\<close>).\<close>

definition cloudrun_shutdown :: "(string, string, 'a, 'b, 'r) cache \<Rightarrow> ('a, 'b, 'r, unit) prog" where
  "cloudrun_shutdown c = do { _ \<leftarrow> cache_Close c; State_Monad.return () }"

section \<open>The configuration\<close>

lemmas cloudrun_config_defs = cloudrun_config_def Builder_RefreshMode_def Builder_Jitter_def Builder_TTL_def Builder_Bus_def
  Builder_L2_def Builder_L1_def NewBuilder_def

lemma dbl_tenth: "dbl (1 / 10) = 3602879701896397 / 2 ^ 55" "dbl (3602879701896397 / 2 ^ 55) = 3602879701896397 / 2 ^ 55"
proof -
  have "dexp (1 / 10) = - 4" "dexp (3602879701896397 / 2 ^ 55) = - 4"
    by (rule dexp_unique; simp add: power_int_def power_divide)+
  moreover have "\<lfloor>36028797018963968 / 5 :: rat\<rfloor> = 7205759403792793" by (simp add: floor_eq_iff)
  ultimately show "dbl (1 / 10) = 3602879701896397 / 2 ^ 55" "dbl (3602879701896397 / 2 ^ 55) = 3602879701896397 / 2 ^ 55"
    by (simp_all add: dbl_eq power_int_def power_divide rne_def Let_def)
qed

lemma cloudrun_config_simps:
  "cfg_loader (cloudrun_config mem L2) = Some loadItem" "cfg_l1 (cloudrun_config mem L2) = mem" "cfg_l2 (cloudrun_config mem L2) = Some L2"
  "cfg_keyString (cloudrun_config mem L2) = None" "cfg_fresh (cloudrun_config mem L2) = 30 * Second"
  "cfg_staleWindow (cloudrun_config mem L2) = 5 * Minute" "cfg_maxTTL (cloudrun_config mem L2) = 0"
  "cfg_jitter (cloudrun_config mem L2) = Fin (3602879701896397 / 2 ^ 55)" "cfg_refreshTimeout (cloudrun_config mem L2) = 0"
  "cfg_negTTL (cloudrun_config mem L2) = 0"
  by (simp_all add: cloudrun_config_defs dbl_tenth)

lemma cloudrun_config_good: "tombstones_last L2 \<Longrightarrow> \<not> config_bad (cloudrun_config mem L2)"
  by (auto simp: config_bad_guards cloudrun_config_simps tombstones_last_def effective_timeout_def duration_defs)

lemma lasting_jitter:
  assumes "lifetimes_ok c" "jitter c = Fin fr" "0 < fr" "0 < fresh c" "maxTTL c \<le> 0"
    and "of_int d \<le> of_int (fresh c) * (1 - fr) - of_int (fresh c) / 2 ^ 50 - (1 :: rat)"
  shows "lasting d c"
proof -
  have "d \<le> fresh_span c n" for n
  proof -
    let ?x = "applyJitter (f64_ovf c) (fresh c) fr (mrand c n)"
    have j: "0 \<le> fr" "fr \<le> 1" "dbl fr = fr" "0 \<le> mrand c n" "mrand c n \<le> 1" "fresh c \<le> 2 ^ 61"
      using assms(1,2) by (auto simp: lifetimes_ok_def jitter_ok_def less_imp_le)
    have "\<bar>of_int ?x - of_int (fresh c) :: rat\<bar> \<le> of_int (fresh c) * fr + of_int (fresh c) / 2 ^ 50 + 1"
      by (rule applyJitter_bounds(2) [OF j(1-5) less_imp_le [OF assms(4)] j(6)])
    then have "(of_int d :: rat) \<le> of_int ?x" using assms(6) by (simp only: abs_le_iff right_diff_distrib) linarith
    then show ?thesis using assms(2-4) by (simp add: fresh_span_def)
  qed
  then show ?thesis using assms(1,5) by (simp add: lasting_def lifetimes_ok_def)
qed

text \<open>Entries stay fresh for at least 20 of the 30 seconds.\<close>

lemma cloudrun_lasting:
  assumes "fresh c = 30 * Second" "staleWindow c = 5 * Minute" "maxTTL c = 0" "jitter c = Fin (3602879701896397 / 2 ^ 55)"
    "mrand c = r" "\<And>n. 0 \<le> r n \<and> r n < 1"
  shows "lasting (20 * Second) c"
proof -
  have "lifetimes_ok c" using assms dbl_tenth(2) by (auto simp: lifetimes_ok_def jitter_ok_def duration_defs)
  then show ?thesis by (rule lasting_jitter [OF _ assms(4)]) (simp_all add: assms duration_defs)
qed

text \<open>The builder accepts the configuration.\<close>

lemma cloudrun_instance:
  assumes "service_runtime h rt" "tombstones_last L2"
  obtains c s where "Build rt b (cloudrun_config (memory_value h) L2) = Some (Inr (c, s))" "l2 c = Some L2" "\<not> closed s"
  using built_instance [OF assms(1) cloudrun_config_good [OF assms(2)], of "memory_value h" L2 loadItem b thesis]
  unfolding cloudrun_config_simps by blast

section \<open>The push endpoint\<close>

text \<open>The start-up returns, and once the clients are connected and the topic is there it does not fail.\<close>

lemma cloudrun_built:
  assumes "service_runtime h rt" "tombstones_last L2" "getenv ''METRICS'' \<noteq> ''1''"
  shows "\<exists>sv. cloudrun_build w getenv (memory_value h) rt b0 L2 p = Some (Inr sv) \<and> svc_bus sv = p \<and> l2 (svc_cache sv) = Some L2"
  by (rule cloudrun_instance [OF assms(1,2), of b0]) (simp add: cloudrun_build_def assms(3))

lemma cloudrun_started:
  assumes "run_state (cloudrun_start w getenv mem rt b0) g = (Some (Inr sv), g')"
  shows "\<exists>ps L2 p. run_state (NewPush ps (envOr getenv ''PUBSUB_TOPIC'' ''nimbus-invalidation'')
        (push_options (idtoken_Validate w) (getenv ''PUSH_AUDIENCE'') (getenv ''PUSH_SA_EMAIL''))) g = (Inr p, g')
      \<and> cloudrun_build w getenv mem rt b0 L2 p = Some (Inr sv)"
  using assms by (auto simp: cloudrun_start_def split: sum.splits prod.splits)

lemma NewPush_auth:
  assumes "run_state (NewPush ps tid (push_options Validate aud email)) g = (Inr p, g')"
  shows "pb_auth p = (if aud \<noteq> [] \<and> email \<noteq> [] then Some (newPushAuth Validate aud [email]) else None)"
  using assms by (auto simp: NewPush_def push_options_def WithPushAuth_def Let_def split: option.splits prod.splits if_splits)

text \<open>
  C18: The push endpoint of the Cloud Run service is closed to strangers. The service has started with
  PUSH_AUDIENCE and PUSH_SA_EMAIL set. Then a POST to /_ah/push changes nothing and is answered with 401 or
  403, unless it carries a bearer token that \<open>idtoken.Validate\<close> accepts, issued by Google for exactly that
  audience, with exactly that verified email; and with such a token it is handled as if there were no
  authentication.
\<close>

theorem cloudrun_push_guarded:
  assumes "run_state (cloudrun_start w getenv mem rt b0) g = (Some (Inr sv), g')"
    and "getenv ''PUSH_AUDIENCE'' \<noteq> []" "getenv ''PUSH_SA_EMAIL'' \<noteq> []"
    and r: "Method r = ''POST''" "Segments r = [''_ah'', ''push'']"
  shows "if \<exists>raw t. bearerToken (Authorization r) = Inr raw \<and> idtoken_Validate w raw = Inr t \<and> Issuer t \<in> set googleIssuers
        \<and> Audience t = getenv ''PUSH_AUDIENCE'' \<and> Claims t ''email'' = Some (JString (getenv ''PUSH_SA_EMAIL''))
        \<and> Claims t ''email_verified'' = Some (JBool True)
    then run_state (cloudrun_serve js decode (svc_bus sv) (svc_cache sv) r) s
      = run_state (cloudrun_serve js decode ((svc_bus sv)\<lparr>pb_auth := None\<rparr>) (svc_cache sv) r) s
    else \<exists>m code. code \<in> {401, 403} \<and> run_state (cloudrun_serve js decode (svc_bus sv) (svc_cache sv) r) s = (Some (http_Error m code), s)"
proof -
  let ?a = "newPushAuth (idtoken_Validate w) (getenv ''PUSH_AUDIENCE'') [getenv ''PUSH_SA_EMAIL'']" and ?r = "request.truncate r"
  obtain ps L2 p where p: "run_state (NewPush ps (envOr getenv ''PUBSUB_TOPIC'' ''nimbus-invalidation'')
      (push_options (idtoken_Validate w) (getenv ''PUSH_AUDIENCE'') (getenv ''PUSH_SA_EMAIL''))) g = (Inr p, g')"
    "cloudrun_build w getenv mem rt b0 L2 p = Some (Inr sv)"
    using cloudrun_started [OF assms(1)] by blast
  have "svc_bus sv = p" using p(2) by (auto simp: cloudrun_build_def split: option.splits sum.splits prod.splits if_splits)
  then have auth: "pb_auth (svc_bus sv) = Some ?a" using NewPush_auth [OF p(1)] assms(2,3) by simp
  have "Authorization ?r = Authorization r" by (simp add: request.truncate_def)
  then show ?thesis
    using authenticate_iff [of "idtoken_Validate w" "getenv ''PUSH_AUDIENCE''" "[getenv ''PUSH_SA_EMAIL'']" ?r] authenticate_status [of ?a ?r] assms(2,3)
    by (cases "authenticate ?a ?r") (auto simp: cloudrun_serve_def r push_Handler_def pushHandler_def auth)
qed

text \<open>An environment, and connections that succeed.\<close>

definition demo_getenv :: "string \<Rightarrow> string" where
  "demo_getenv k = (if k = ''PROJECT_ID'' then ''p'' else if k = ''REDIS_ADDR'' then ''r:6379'' else if k = ''PUSH_AUDIENCE'' then ''me''
     else if k = ''PUSH_SA_EMAIL'' then ''push'' else [])"

definition demo_cloud :: "(string list, string vstore) cloud" where
  "demo_cloud = \<lparr>dial_redis = (\<lambda>_. Inr vs_ops), dial_pubsub = (\<lambda>_. Inr demo_pubsub), idtoken_Validate = demo_validate,
     stdout_exporter = None, otel_meter = \<lparr>new_instrument = (\<lambda>_. None), RegisterCallback = (\<lambda>_. None), range_getters = id\<rparr>\<rparr>"

definition demo_post :: "string \<Rightarrow> http_request" where
  "demo_post token = \<lparr>Authorization = ''Bearer '' @ token, Body = ''x'', Method = ''POST'', Segments = [''_ah'', ''push'']\<rparr>"

lemma demo_cloud_starts:
  "\<exists>sv g'. run_state (cloudrun_start demo_cloud demo_getenv (memory_value demo_hash) (demo_service_rt 0) vs_empty) [] = (Some (Inr sv), g')"
proof -
  obtain p g where p: "run_state (NewPush demo_pubsub ''nimbus-invalidation'' (push_options demo_validate ''me'' ''push'')) [] = (Inr p, g)"
    by (simp add: NewPush_def ensureTopic_def demo_pubsub_def Let_def)
  have "demo_getenv ''METRICS'' \<noteq> ''1''" by (simp add: demo_getenv_def)
  from cloudrun_built [where getenv = demo_getenv, OF demo_service_runtime vs_tombstones_last this]
  obtain sv where "cloudrun_build demo_cloud demo_getenv (memory_value demo_hash) (demo_service_rt 0) vs_empty vs_ops p = Some (Inr sv)" by blast
  then show ?thesis using p by (simp add: cloudrun_start_def mustEnv_def envOr_def demo_getenv_def demo_cloud_def)
qed

theorem cloudrun_push_guarded_witness:
  "\<exists>sv g'. run_state (cloudrun_start demo_cloud demo_getenv (memory_value demo_hash) (demo_service_rt 0) vs_empty) [] = (Some (Inr sv), g')
     \<and> (\<forall>s. run_state (cloudrun_serve demo_json id (svc_bus sv) (svc_cache sv) (demo_post ''good'')) s
          = run_state (cloudrun_serve demo_json id ((svc_bus sv)\<lparr>pb_auth := None\<rparr>) (svc_cache sv) (demo_post ''good'')) s
        \<and> (\<exists>m code. code \<in> {401, 403} \<and>
             run_state (cloudrun_serve demo_json id (svc_bus sv) (svc_cache sv) (demo_post ''evil'')) s = (Some (http_Error m code), s)))"
proof -
  obtain sv g' where start: "run_state (cloudrun_start demo_cloud demo_getenv (memory_value demo_hash) (demo_service_rt 0) vs_empty) [] = (Some (Inr sv), g')"
    using demo_cloud_starts by blast
  have env: "demo_getenv ''PUSH_AUDIENCE'' = ''me''" "demo_getenv ''PUSH_SA_EMAIL'' = ''push''" by (simp_all add: demo_getenv_def)
  have post: "Method (demo_post t) = ''POST''" "Segments (demo_post t) = [''_ah'', ''push'']" "Authorization (demo_post t) = ''Bearer '' @ t" for t
    by (simp_all add: demo_post_def)
  have v: "idtoken_Validate demo_cloud = demo_validate" by (simp add: demo_cloud_def)
  have "demo_getenv ''PUSH_AUDIENCE'' \<noteq> []" "demo_getenv ''PUSH_SA_EMAIL'' \<noteq> []" by (simp_all add: env)
  note guarded = cloudrun_push_guarded [OF start this post(1,2), of _ demo_json id, unfolded env v post(3)]
  show ?thesis
    using start guarded [of "''good''"] guarded [of "''evil''"] demo_tokens by (auto simp: demo_validate_def googleIssuers_def)
qed

section \<open>A write is read on another instance\<close>

text \<open>A service whose cache has subscribed, on the state of its cache.\<close>

definition listening :: "(('s, unit) push_state, 'x) state \<Rightarrow> ('s, 'x) state" where
  "listening m = State (\<lambda>s. let (x, t) = run_state m \<lparr>papp = s, registered = Some ()\<rparr> in (x, papp t))"

lemma listening_on_cache [simp]: "listening (on_cache m) = m"
  by (cases m) (simp add: listening_def on_cache_def split_beta)

text \<open>After the shutdown every request for an item is answered with 500, and a push changes nothing.\<close>

lemma after_shutdown:
  assumes c: "env c = quiet" "\<not> closeDone s" "run_state (cloudrun_shutdown c) s = ((), s')"
    and r: "Segments r = [''items'', i]" "i \<noteq> []" "is_get r \<or> Method r = ''PUT'' \<or> Method r = ''DELETE''"
  shows "fst (run_state (listening (cloudrun_serve js decode p c r)) s') = Some (http_Error ''nimbus: cache closed'' 500)"
    and "snd (run_state (onEvent c ev) s') = tick s'"
proof -
  have "closed s'" using c run_Close [OF c(1,2)] by (auto simp: cloudrun_shutdown_def split: prod.splits)
  moreover have "run_state (yield c) s' = ((), tick s')" by (simp add: run_yield c(1))
  ultimately have closed: "run_state (GetOrLoad c k) s' = (Return (Inl ErrClosed), tick s')" "run_state (cache_Set c k v opts) s' = (Some ErrClosed, tick s')"
    "run_state (Invalidate c k) s' = (Some ErrClosed, tick s')" "run_state (onEvent c ev) s' = ((), tick s')" for k v opts
    using closed_entry_points [of c s' "tick s'"] by simp_all
  show "fst (run_state (listening (cloudrun_serve js decode p c r)) s') = Some (http_Error ''nimbus: cache closed'' 500)"
    using r by (auto simp: cloudrun_serve_def get_item_def put_item_def delete_item_def closed is_get_def)
  show "snd (run_state (onEvent c ev) s') = tick s'" by (simp add: closed)
qed

lemma serve_push:
  assumes "Method r = ''POST''" "Segments r = [''_ah'', ''push'']" "case pb_auth p of None \<Rightarrow> True | Some a \<Rightarrow> authenticate a (request.truncate r) = None"
    "Decode_envelope js (Body r) = Inr data" "Unmarshal_event js data = Inr ev"
  shows "run_state (listening (cloudrun_serve js decode p c r)) s = (Some (WriteHeader 204), snd (run_state (onEvent c ev) s))"
proof -
  have "Body (request.truncate r) = Body r" by (simp add: request.truncate_def)
  then show ?thesis using assms by (simp add: listening_def cloudrun_serve_def push_Handler_def pushHandler_def split_beta split: option.splits)
qed

text \<open>The instances of the service, all over one versioned store, as a fleet.\<close>

lemma cloudrun_fleet:
  assumes rt: "\<And>i. service_runtime h (rt i)" "inj (\<lambda>(i, n). rt_crand (rt i) n)"
    and C: "\<And>i. Build (rt i) (b0 i) (cloudrun_config (memory_value h) vs_ops) = Some (Inr (C i, fl_node f0 i))"
    and f0: "fl_log f0 = []" "\<And>i. fl_got f0 i = {}"
  shows "member h (C i)" "apart C" "new_fleet h 625 f0" "lasting (20 * Second) (C i)" "xsf_Do (C i) = sf_alone" "keyString (C i) = id" "\<not> is_nil (C i) v"
proof -
  note c = built_fleet [OF rt cloudrun_config_good [OF vs_tombstones_last] _ _ _ _ C f0, unfolded cloudrun_config_simps, OF refl refl refl refl]
  show "member h (C i)" "apart C" "new_fleet h 625 f0" "xsf_Do (C i) = sf_alone" "keyString (C i) = id" "\<not> is_nil (C i) v" by (rule c)+
  show "lasting (20 * Second) (C i)" by (rule cloudrun_lasting [OF c(8-12)]) (use rt(1) [of i] in \<open>auto simp: service_runtime_def\<close>)
qed

text \<open>Requests of an instance in a fleet, over any L2, by what the methods of its cache do.\<close>

lemma put_served:
  assumes "at_node n (cache_Set c i (decode (Body r)) []) f = (None, g)" "Method r = ''PUT''" "Segments r = [''items'', i]" "i \<noteq> []"
  shows "at_node n (listening (cloudrun_serve js decode p c r)) f = (Some (WriteHeader 204), g)"
  using assms(2-) by (simp add: cloudrun_serve_def is_get_def put_item_def at_node_map [OF assms(1)])

lemma got_served:
  assumes "at_node n (GetOrLoad c i) f = (Return (Inr v), g)" "Method r = ''GET''" "Segments r = [''items'', i]" "i \<noteq> []"
  shows "at_node n (listening (cloudrun_serve js decode p c r)) f = (Some (json_response [(''id'', FString i), (''value'', FString v)]), g)"
  using assms(2-) by (simp add: cloudrun_serve_def is_get_def get_item_def writeJSON_def at_node_map [OF assms(1)])

lemma push_served:
  assumes "at_node n (onEvent c ev) f = ((), g)" "Method r = ''POST''" "Segments r = [''_ah'', ''push'']"
    "case pb_auth p of None \<Rightarrow> True | Some au \<Rightarrow> authenticate au (request.truncate r) = None"
    "Decode_envelope js (Body r) = Inr data" "Unmarshal_event js data = Inr ev"
  shows "at_node n (listening (cloudrun_serve js decode p c r)) f = (Some (WriteHeader 204), g)"
  using assms(1) unfolding at_node_def serve_push [OF assms(2-)] by (auto simp: split_beta Let_def)

text \<open>
  An item put on one instance is got on another. Instances of the service, started with the
  configuration of the example, share a versioned store; at any point of their run a PUT to A is answered
  with 204 and publishes one event. Once Pub/Sub has pushed it to B, in a request that passes the
  authentication, and B has answered 204, a GET of the item on B is answered with 200 and the value that was
  put: without asking the origin, and whatever B held before.
\<close>

theorem cloudrun_put_get:
  assumes rt: "\<And>i. service_runtime h (rt i)" "inj (\<lambda>(i, n). rt_crand (rt i) n)"
    and C: "\<And>i. Build (rt i) (b0 i) (cloudrun_config (memory_value h) vs_ops) = Some (Inr (C i, fl_node f0 i))"
    and f0: "fl_log f0 = []" "\<And>i. fl_got f0 i = {}"
    and f: "(fleet_step C)\<^sup>*\<^sup>* f0 f" "roomy (fl_l2 f)" "\<not> closed (fl_node f a)" "\<not> closed (fl_node f b)" "b \<noteq> a"
    and put: "Method rp = ''PUT''" "Segments rp = [''items'', i]" "i \<noteq> []" and get: "Method rg = ''GET''" "Segments rg = [''items'', i]"
  shows "\<exists>g ev. at_node a (listening (cloudrun_serve js decode pa (C a) rp)) f = (Some (WriteHeader 204), g) \<and> fl_log g = fl_log f @ [ev]
    \<and> (\<forall>rq data. Method rq = ''POST'' \<and> Segments rq = [''_ah'', ''push'']
        \<and> (case pb_auth pb of None \<Rightarrow> True | Some au \<Rightarrow> authenticate au (request.truncate rq) = None)
        \<and> Decode_envelope js (Body rq) = Inr data \<and> Unmarshal_event js data = Inr ev \<longrightarrow>
        (\<exists>f' f''. at_node b (listening (cloudrun_serve js decode pb (C b) rq)) g = (Some (WriteHeader 204), f')
           \<and> at_node b (listening (cloudrun_serve js decode pb (C b) rg)) f'
              = (Some (json_response [(''id'', FString i), (''value'', FString (decode (Body rp)))]), f'')
           \<and> loads (stats (fl_node f'' b)) = loads (stats (fl_node f b))))"
proof -
  note c = cloudrun_fleet [OF rt C f0]
  have ks: "keyString (C b) i = keyString (C a) i" by (simp add: c(6))
  have l: "lasting 1 (C a)" by (rule lasting_mono [OF c(4)]) (simp add: duration_defs)
  obtain g ev f' f'' where g: "at_node a (cache_Set (C a) i (decode (Body rp)) []) f = (None, g)" "fl_log g = fl_log f @ [ev]"
    and f': "at_node b (onEvent (C b) ev) g = ((), f')"
    and f'': "at_node b (GetOrLoad (C b) i) f' = (Return (Inr (decode (Body rp))), f'')" "loads (stats (fl_node f'' b)) = loads (stats (fl_node f b))"
    by (rule write_then_read [OF c(1,2) run_inv [OF c(1-3) f(1)] f(3) l f(2,5,4) c(5,7) ks])
  have "at_node b (listening (cloudrun_serve js decode pb (C b) rq)) g = (Some (WriteHeader 204), f')"
    if "Method rq = ''POST''" "Segments rq = [''_ah'', ''push'']" "case pb_auth pb of None \<Rightarrow> True | Some au \<Rightarrow> authenticate au (request.truncate rq) = None"
      "Decode_envelope js (Body rq) = Inr data" "Unmarshal_event js data = Inr ev" for rq data
    by (rule push_served [OF f' that])
  then show ?thesis using put_served [where decode = decode and r = rp, OF g(1) put] g(2) got_served [OF f''(1) get put(3)] f''(2) by (intro exI [of _ g] exI [of _ ev]) auto
qed

definition demo_put :: http_request where
  "demo_put = \<lparr>Authorization = [], Body = ''v'', Method = ''PUT'', Segments = [''items'', ''k'']\<rparr>"

definition demo_get :: http_request where
  "demo_get = \<lparr>Authorization = [], Body = [], Method = ''GET'', Segments = [''items'', ''k'']\<rparr>"

definition demo_bus :: push_bus where
  "demo_bus = \<lparr>pb_topic = Some ''t'', pb_topicName = ''projects/p/topics/t'', pb_auth = None\<rparr>"

text \<open>Only a push looks at the event codec.\<close>

lemma serve_put_json: "cloudrun_serve js decode p c demo_put = cloudrun_serve js' decode p c demo_put"
  by (simp add: cloudrun_serve_def demo_put_def is_get_def)

theorem cloudrun_put_get_witness:
  "\<exists>C f0 js g f' f''. (\<forall>i. Build (demo_service_rt i) vs_empty (cloudrun_config (memory_value demo_hash) vs_ops) = Some (Inr (C i, fl_node f0 i)))
     \<and> at_node 0 (listening (cloudrun_serve js (\<lambda>x. x) demo_bus (C 0) demo_put)) f0 = (Some (WriteHeader 204), g)
     \<and> at_node 1 (listening (cloudrun_serve js (\<lambda>x. x) demo_bus (C 1) (demo_post []))) g = (Some (WriteHeader 204), f')
     \<and> at_node 1 (listening (cloudrun_serve js (\<lambda>x. x) demo_bus (C 1) demo_get)) f'
        = (Some (json_response [(''id'', FString ''k''), (''value'', FString ''v'')]), f'')"
proof -
  have "\<exists>cs. Build (demo_service_rt i) vs_empty (cloudrun_config (memory_value demo_hash) vs_ops) = Some (Inr cs) \<and> \<not> closed (snd cs)" for i
    by (rule cloudrun_instance [OF demo_service_runtime vs_tombstones_last, of i vs_empty]) auto
  then obtain D where D: "\<And>i. Build (demo_service_rt i) vs_empty (cloudrun_config (memory_value demo_hash) vs_ops) = Some (Inr (D i))"
    "\<And>i. \<not> closed (snd (D i))" by metis
  define C where "C = (\<lambda>i. fst (D i))"
  define f0 where "f0 = \<lparr>fl_l2 = vs_empty, fl_now = 1000, fl_node = (\<lambda>i. snd (D i)), fl_log = [], fl_got = (\<lambda>_. {})\<rparr>"
  have B: "Build (demo_service_rt i) vs_empty (cloudrun_config (memory_value demo_hash) vs_ops) = Some (Inr (C i, fl_node f0 i))" for i
    using D(1) by (simp add: C_def f0_def)
  have f0: "fl_log f0 = []" "fl_got f0 i = {}" "roomy (fl_l2 f0)" "\<not> closed (fl_node f0 i)" for i
    using D(2) demo_roomy by (simp_all add: f0_def)
  have req: "Method demo_put = ''PUT''" "Segments demo_put = [''items'', ''k'']" "''k'' \<noteq> []" "Method demo_get = ''GET''" "Segments demo_get = [''items'', ''k'']"
    "Body demo_put = ''v''" by (simp_all add: demo_put_def demo_get_def)
  note served = cloudrun_put_get [OF demo_service_runtime demo_service_crand B f0(1,2) rtranclp.rtrancl_refl f0(3) f0(4) [of 0] f0(4) [of 1] one_neq_zero req(1-5),
      of _ "\<lambda>x. x" demo_bus demo_bus, unfolded req(6)]
  obtain g ev where g: "at_node 0 (listening (cloudrun_serve demo_json (\<lambda>x. x) demo_bus (C 0) demo_put)) f0 = (Some (WriteHeader 204), g)" "fl_log g = fl_log f0 @ [ev]"
    using served [of demo_json] by blast
  define js where "js = \<lparr>Decode_envelope = Inr, Unmarshal_event = (\<lambda>_. Inr ev)\<rparr>"
  have g_js: "at_node 0 (listening (cloudrun_serve js (\<lambda>x. x) demo_bus (C 0) demo_put)) f0 = (Some (WriteHeader 204), g)"
    using g(1) serve_put_json [of js] by metis
  obtain g2 ev2 where s2: "at_node 0 (listening (cloudrun_serve js (\<lambda>x. x) demo_bus (C 0) demo_put)) f0 = (Some (WriteHeader 204), g2)" "fl_log g2 = fl_log f0 @ [ev2]"
    "\<forall>rq data. Method rq = ''POST'' \<and> Segments rq = [''_ah'', ''push'']
        \<and> (case pb_auth demo_bus of None \<Rightarrow> True | Some au \<Rightarrow> authenticate au (request.truncate rq) = None)
        \<and> Decode_envelope js (Body rq) = Inr data \<and> Unmarshal_event js data = Inr ev2 \<longrightarrow>
        (\<exists>f' f''. at_node 1 (listening (cloudrun_serve js (\<lambda>x. x) demo_bus (C 1) rq)) g2 = (Some (WriteHeader 204), f')
           \<and> at_node 1 (listening (cloudrun_serve js (\<lambda>x. x) demo_bus (C 1) demo_get)) f' = (Some (json_response [(''id'', FString ''k''), (''value'', FString ''v'')]), f'')
           \<and> loads (stats (fl_node f'' 1)) = loads (stats (fl_node f0 1)))"
    using served [of js] by blast
  have "g2 = g" "ev2 = ev" using s2(1,2) g g_js by auto
  then obtain f' f'' where "at_node 1 (listening (cloudrun_serve js (\<lambda>x. x) demo_bus (C 1) (demo_post []))) g = (Some (WriteHeader 204), f')"
    "at_node 1 (listening (cloudrun_serve js (\<lambda>x. x) demo_bus (C 1) demo_get)) f' = (Some (json_response [(''id'', FString ''k''), (''value'', FString ''v'')]), f'')"
    using s2(3) [rule_format, of "demo_post []" "''x''"] by (auto simp: demo_post_def demo_bus_def js_def)
  then show ?thesis using B g_js by blast
qed

end
