(* ===== verification/Cloudrun_Redis.thy ===== *)
theory Cloudrun_Redis
  imports Fleet_Redis Cloudrun
begin

text \<open>
  From the HTTP request to the scripts on the server: instances of the Cloud Run service built over the Redis
  store, as examples/cloudrun/main.go builds them. What \<open>Cloudrun\<close> shows over the abstract store holds here by
  the simulation of theory \<open>Fleet_Redis\<close>.
\<close>

section \<open>Reading what another instance wrote\<close>




section \<open>The service over Redis\<close>




text \<open>Two instances over an empty server, with strings stored as they are.\<close>

definition plain :: "string codec" where
  "plain = \<lparr>Encode = Inr, Decode = Inr\<rparr>"

definition plain_redis :: "(ref_server, string) rstore" where
  "plain_redis = redis_New (encoding_of plain) ref_redis (\<lambda>_. Reached) (\<lambda>_. id) None []"

lemma plain_simps [simp]:
  "client plain_redis = ref_redis" "net plain_redis n = Reached" "world plain_redis n = id" "codec plain_redis = plain"
  "store_k plain_redis key = ''rc:k:'' @ key" "store_t plain_redis tag = ''rc:t:'' @ tag"
  "tombstoneTTL plain_redis = 60 * Second" "tagTTL plain_redis = 24 * Hour"
  by (simp_all add: plain_redis_def redis_New_def store_k_def store_t_def)




end
