(* ===== verification/Go_Utf8.thy ===== *)
theory Go_Utf8
  imports Nimbus_Prelude
begin

text \<open>
  UTF-8, as far as it decides what becomes of a Go string on its way through encoding/json: a string is any
  sequence of bytes, and Marshal writes one that is not valid UTF-8 with the replacement character in place
  of each byte that belongs to no character (encoding/json, \<open>Marshal\<close>; the valid sequences are those of
  unicode/utf8).
\<close>

section \<open>Valid UTF-8\<close>

definition cont :: "nat \<Rightarrow> bool" where
  "cont b \<longleftrightarrow> 128 \<le> b \<and> b \<le> 191"

text \<open>The second byte after certain first ones is restricted: no overlong forms, no surrogates, nothing above U+10FFFF.\<close>

definition second_ok :: "nat \<Rightarrow> nat \<Rightarrow> bool" where
  "second_ok a b \<longleftrightarrow> (if a = 224 then 160 else if a = 240 then 144 else 128) \<le> b
     \<and> b \<le> (if a = 237 then 159 else if a = 244 then 143 else 191)"

text \<open>The length of the character at the start of a byte sequence; 0 if there is none.\<close>

fun rune_width :: "nat list \<Rightarrow> nat" where
  "rune_width [] = 0"
| "rune_width (a # s) =
     (if a < 128 then 1
      else if 194 \<le> a \<and> a \<le> 223 then (case s of b # _ \<Rightarrow> if cont b then 2 else 0 | _ \<Rightarrow> 0)
      else if 224 \<le> a \<and> a \<le> 239 then (case s of b # c # _ \<Rightarrow> if second_ok a b \<and> cont c then 3 else 0 | _ \<Rightarrow> 0)
      else if 240 \<le> a \<and> a \<le> 244 then (case s of b # c # d # _ \<Rightarrow> if second_ok a b \<and> cont c \<and> cont d then 4 else 0 | _ \<Rightarrow> 0)
      else 0)"

definition width :: "string \<Rightarrow> nat" where
  "width s = rune_width (map of_char s)"

lemma rune_width_le: "rune_width s \<le> length s"
  by (cases s) (auto split: list.split)

lemma width_le: "width s \<le> length s"
  using rune_width_le [of "map of_char s"] by (simp add: width_def)

function valid_utf8 :: "string \<Rightarrow> bool" where
  "valid_utf8 [] \<longleftrightarrow> True"
| "valid_utf8 (c # s) = (let n = width (c # s) in if n = 0 then False else valid_utf8 (drop n (c # s)))"
  by pat_completeness auto
termination
  by (relation "measure length") auto

definition replacement :: string where
  "replacement = map char_of [239, 191, 189 :: nat]"

function to_valid_utf8 :: "string \<Rightarrow> string" where
  "to_valid_utf8 [] = []"
| "to_valid_utf8 (c # s) =
     (let n = width (c # s)
      in if n = 0 then replacement @ to_valid_utf8 s
         else take n (c # s) @ to_valid_utf8 (drop n (c # s)))"
  by pat_completeness auto
termination
  by (relation "measure length") auto

declare valid_utf8.simps(2) [simp del] to_valid_utf8.simps(2) [simp del]

lemma to_valid_utf8_longer: "length s \<le> length (to_valid_utf8 s)"
proof (induction s rule: to_valid_utf8.induct)
  case (2 c s)
  then show ?case
    using width_le [of "c # s"] by (cases "width (c # s) = 0") (auto simp: to_valid_utf8.simps(2) Let_def replacement_def)
qed simp

lemma take_append_eq: "take n xs @ ys = xs \<longleftrightarrow> ys = drop n xs"
  by (metis append_take_drop_id same_append_eq)

text \<open>A string goes through unchanged if and only if it is valid.\<close>

lemma to_valid_utf8_same: "to_valid_utf8 s = s \<longleftrightarrow> valid_utf8 s"
proof (induction s rule: to_valid_utf8.induct)
  case (2 c s)
  let ?n = "width (c # s)"
  show ?case
  proof (cases "?n = 0")
    case True
    have "length (c # s) < length (to_valid_utf8 (c # s))"
      using True to_valid_utf8_longer [of s] by (simp add: to_valid_utf8.simps(2) replacement_def)
    then have "to_valid_utf8 (c # s) \<noteq> c # s" by (metis less_irrefl)
    then show ?thesis using True by (simp add: valid_utf8.simps(2))
  next
    case False
    have "to_valid_utf8 (c # s) = take ?n (c # s) @ to_valid_utf8 (drop ?n (c # s))"
      unfolding to_valid_utf8.simps(2) Let_def using False by simp
    then have "to_valid_utf8 (c # s) = c # s \<longleftrightarrow> to_valid_utf8 (drop ?n (c # s)) = drop ?n (c # s)"
      by (simp only: take_append_eq)
    then show ?thesis unfolding valid_utf8.simps(2) Let_def using 2(2) [OF refl False] False by simp
  qed
qed simp

text \<open>ASCII is valid.\<close>

lemma valid_ascii: "(\<And>c. c \<in> set s \<Longrightarrow> of_char c < (128 :: nat)) \<Longrightarrow> valid_utf8 s"
proof (induction s)
  case (Cons c s)
  then have "width (c # s) = 1" by (simp add: width_def)
  then show ?case using Cons by (simp add: valid_utf8.simps(2))
qed simp

end
