(* ===== verification/Redis_Pubsub.thy ===== *)
theory Redis_Pubsub
  imports Invalidation Go_Monad Go_Utf8
begin

text \<open>
  The bus over Redis Pub/Sub, invalidation/redispubsub/redispubsub.go.

  The server and JSON are parameters. \<open>PUBLISH\<close> hands a message to the channel and replies, or the client
  reports an error; the messages a subscriber receives until its context is cancelled are a list. What may
  happen to a message on its way, and what encoding/json does to a string, is stated in the locale
  \<open>redis_channel\<close> and by the theorems, not built in.
\<close>

record 'g redis_pubsub =
  cmd_PUBLISH :: "string \<Rightarrow> string \<Rightarrow> 'g \<Rightarrow> go_error option \<times> 'g"
  rp_Marshal :: "event \<Rightarrow> go_error + string"
  rp_Unmarshal :: "string \<Rightarrow> go_error + event"

record redis_bus =
  channel :: string

definition redis_bus_New :: "string \<Rightarrow> redis_bus" where
  "redis_bus_New ch = \<lparr>channel = ch\<rparr>"

definition redis_Publish :: "'g redis_pubsub \<Rightarrow> redis_bus \<Rightarrow> event \<Rightarrow> ('g, go_error option) state" where
  "redis_Publish cl b ev = (case rp_Marshal cl ev of
       Inl err \<Rightarrow> State_Monad.return (Some err)
     | Inr data \<Rightarrow> State (cmd_PUBLISH cl (channel b) data))"

definition message_callback ::
  "'g redis_pubsub \<Rightarrow> (event \<Rightarrow> ('s, unit) state) \<Rightarrow> string \<Rightarrow> ('s, unit) state" where
  "message_callback cl handler m = (case rp_Unmarshal cl m of
       Inl _ \<Rightarrow> State_Monad.return ()
     | Inr ev \<Rightarrow> handler ev)"

definition redis_Subscribe ::
  "'g redis_pubsub \<Rightarrow> redis_bus \<Rightarrow> (event \<Rightarrow> ('s, unit) state) \<Rightarrow> string list \<Rightarrow> go_error option \<Rightarrow>
    ('s, go_error option) state" where
  "redis_Subscribe cl b handler msgs recvErr = do {
     for_each msgs (message_callback cl handler);
     State_Monad.return recvErr }"

definition redis_bus_Close :: "redis_bus \<Rightarrow> ('g, go_error option) state" where
  "redis_bus_Close b = State_Monad.return None"

section \<open>Publishing and receiving\<close>

fun publish_all :: "'g redis_pubsub \<Rightarrow> redis_bus \<Rightarrow> event list \<Rightarrow> ('g, go_error option list) state" where
  "publish_all cl b [] = State_Monad.return []"
| "publish_all cl b (ev # evs) = do {
     e \<leftarrow> redis_Publish cl b ev;
     es \<leftarrow> publish_all cl b evs;
     State_Monad.return (e # es) }"

text \<open>
  What encoding/json makes of an event: Marshal writes its strings as valid UTF-8, Unmarshal reads them back.
\<close>

definition json_event :: "event \<Rightarrow> event" where
  "json_event ev = ev\<lparr>ID := to_valid_utf8 (ID ev), Kind := to_valid_utf8 (Kind ev), Keys := map to_valid_utf8 (Keys ev),
     Tag := to_valid_utf8 (Tag ev), OriginID := to_valid_utf8 (OriginID ev)\<rparr>"

text \<open>
  What is documented of \<open>PUBLISH\<close>: if it succeeds, the message has been sent on that channel, after those sent
  before; if the client reports an error, it may have been sent or not (the reply may be what was lost).
\<close>

locale redis_channel =
  fixes cl :: "'g redis_pubsub" and sent_on :: "'g \<Rightarrow> string \<Rightarrow> string list"
  assumes published: "cmd_PUBLISH cl ch m g = (None, g') \<Longrightarrow> sent_on g' = (sent_on g)(ch := sent_on g ch @ [m])"
    and uncertain: "cmd_PUBLISH cl ch m g = (Some e, g') \<Longrightarrow>
      sent_on g' = sent_on g \<or> sent_on g' = (sent_on g)(ch := sent_on g ch @ [m])"
    and json_coerces: "rp_Marshal cl ev = Inr m \<Longrightarrow> rp_Unmarshal cl m = Inr (json_event ev)"
begin

lemma Publish_sent:
  assumes "run_state (redis_Publish cl b ev) g = (e, g')"
  obtains "e \<noteq> None" "sent_on g' = sent_on g"
  | m where "sent_on g' = (sent_on g)(channel b := sent_on g (channel b) @ [m])" "rp_Unmarshal cl m = Inr (json_event ev)"
proof (cases "rp_Marshal cl ev")
  case (Inl err)
  then show thesis using assms that(1) by (auto simp: redis_Publish_def)
next
  case (Inr m)
  then have "cmd_PUBLISH cl (channel b) m g = (e, g')" using assms by (simp add: redis_Publish_def)
  then show thesis using published uncertain json_coerces [OF Inr] that by (cases e) blast+
qed

text \<open>The events \<open>out\<close> that went out, among them all whose \<open>Publish\<close> succeeded, and the messages that carry them.\<close>

lemma publish_all_sent:
  "run_state (publish_all cl b evs) g = (es, g') \<Longrightarrow>
   length es = length evs \<and>
   (\<exists>ms out. sent_on g' = (sent_on g)(channel b := sent_on g (channel b) @ ms) \<and>
      map (rp_Unmarshal cl) ms = map (Inr \<circ> json_event) out \<and> subseq out evs \<and>
      subseq (map fst (filter (\<lambda>p. snd p = None) (zip evs es))) out)"
proof (induction evs arbitrary: g es g')
  case (Cons ev evs)
  obtain e g1 where one: "run_state (redis_Publish cl b ev) g = (e, g1)" by fastforce
  obtain es1 g2 where rest: "run_state (publish_all cl b evs) g1 = (es1, g2)" by fastforce
  have es: "es = e # es1" "g' = g2" using Cons.prems one rest by simp_all
  obtain ms out where ms: "sent_on g2 = (sent_on g1)(channel b := sent_on g1 (channel b) @ ms)"
    "map (rp_Unmarshal cl) ms = map (Inr \<circ> json_event) out" "length es1 = length evs" "subseq out evs"
    "subseq (map fst (filter (\<lambda>p. snd p = None) (zip evs es1))) out"
    using Cons.IH [OF rest] by blast
  show ?case
  proof (rule Publish_sent [OF one])
    assume "e \<noteq> None" "sent_on g1 = sent_on g"
    then show ?thesis using ms es by (intro conjI exI [of _ ms] exI [of _ out]) (auto simp: subseq_Cons')
  next
    fix m assume "sent_on g1 = (sent_on g)(channel b := sent_on g (channel b) @ [m])" "rp_Unmarshal cl m = Inr (json_event ev)"
    then show ?thesis using ms es by (intro conjI exI [of _ "m # ms"] exI [of _ "ev # out"]) (auto intro: list_emb_Cons)
  qed
qed (auto intro: exI [of _ "[]"])

end

lemma run_for_each_callbacks:
  "run_state (for_each msgs (message_callback cl handler)) s =
     run_state (for_each (concat (map (\<lambda>m. case rp_Unmarshal cl m of Inl _ \<Rightarrow> [] | Inr ev \<Rightarrow> [ev]) msgs)) handler) s"
  by (induction msgs arbitrary: s) (auto simp: message_callback_def split_beta split: sum.splits)

lemma concat_decoded:
  "map f ms = map (Inr \<circ> g) xs \<Longrightarrow> concat (map (\<lambda>m. case f m of Inl _ \<Rightarrow> [] | Inr ev \<Rightarrow> [ev]) ms) = map g xs"
proof (induction ms arbitrary: xs)
  case (Cons m ms)
  then show ?case by (cases xs) auto
qed simp

text \<open>A message that is an event.\<close>

definition is_message :: "'g redis_pubsub \<Rightarrow> string \<Rightarrow> bool" where
  "is_message cl m \<longleftrightarrow> (case rp_Unmarshal cl m of Inl _ \<Rightarrow> False | Inr _ \<Rightarrow> True)"

lemma concat_filtered:
  "concat (map (\<lambda>m. case rp_Unmarshal cl m of Inl _ \<Rightarrow> [] | Inr ev \<Rightarrow> [ev]) (filter (is_message cl) ms)) =
     concat (map (\<lambda>m. case rp_Unmarshal cl m of Inl _ \<Rightarrow> [] | Inr ev \<Rightarrow> [ev]) ms)"
  by (induction ms) (auto simp: is_message_def split: sum.splits)

lemma subseq_images:
  assumes "subseq xs ys" "map f ys = map h zs"
  obtains us where "subseq us zs" "map f xs = map h us" "xs = ys \<Longrightarrow> us = zs"
proof (cases "xs = ys")
  case False
  obtain N where "xs = nths ys N" using assms(1) by (auto simp: subseq_conv_nths)
  then have "map f xs = map h (nths zs N)" using assms(2) by (metis nths_map)
  then show thesis using that False by (meson subseq_conv_nths)
qed (use assms that in blast)

text \<open>
  C33: What a subscriber of the Redis bus gets. Events are published one after the other; some may fail, whether
  the message went out or not. A subscriber receives some of the messages sent since it subscribed, in order,
  not those sent while it is disconnected, and possibly other messages that are no events in between. Then
  its handler runs on some of the published events, each at most once and in the order of publication, as
  encoding/json returns them (with every string made valid UTF-8); if the subscriber has missed nothing,
  then on every event whose \<open>Publish\<close> returned no error. Messages that are no events are skipped, and
  \<open>Subscribe\<close> returns what ended the subscription.
\<close>

theorem redis_bus_delivers:
  assumes channel: "redis_channel cl sent_on"
    and pub: "run_state (publish_all cl b evs) g = (es, g')" and new: "sent_on g (channel b) = []"
    and received: "subseq (filter (is_message cl) msgs) (sent_on g' (channel b))"
  shows "length es = length evs \<and>
    (\<exists>got. subseq got evs
      \<and> run_state (redis_Subscribe cl b handler msgs recvErr) s = (recvErr, snd (run_state (for_each (map json_event got) handler) s))
      \<and> (filter (is_message cl) msgs = sent_on g' (channel b) \<longrightarrow> subseq (map fst (filter (\<lambda>p. snd p = None) (zip evs es))) got))"
proof -
  obtain ms out where ms: "length es = length evs" "sent_on g' (channel b) = ms" "map (rp_Unmarshal cl) ms = map (Inr \<circ> json_event) out"
    "subseq out evs" "subseq (map fst (filter (\<lambda>p. snd p = None) (zip evs es))) out"
    using redis_channel.publish_all_sent [OF channel pub] new by auto
  obtain got where got: "subseq got out" "map (rp_Unmarshal cl) (filter (is_message cl) msgs) = map (Inr \<circ> json_event) got"
    "filter (is_message cl) msgs = ms \<Longrightarrow> got = out"
    using subseq_images [OF received [unfolded ms(2)] ms(3)] by blast
  have "run_state (redis_Subscribe cl b handler msgs recvErr) s = (recvErr, snd (run_state (for_each (map json_event got) handler) s))"
    using concat_decoded [OF got(2)] by (simp add: redis_Subscribe_def run_for_each_callbacks concat_filtered split_beta)
  moreover have "subseq got evs" using got(1) ms(4) by (rule subseq_order.trans)
  ultimately show ?thesis using ms got(3) by (intro conjI exI [of _ got]) auto
qed

section \<open>A reference server\<close>

text \<open>
  A server that keeps the log of every channel, fails on the channel with the empty name, and a wire format
  for all events: numbers in unary, strings with every byte marked, lists with their length first.
\<close>

definition put_nat :: "nat \<Rightarrow> string" where
  "put_nat n = replicate n CHR ''x'' @ ''.''"

fun get_nat :: "string \<Rightarrow> (nat \<times> string) option" where
  "get_nat [] = None"
| "get_nat (a # r) = (if a = CHR ''x'' then map_option (apfst Suc) (get_nat r) else if a = CHR ''.'' then Some (0, r) else None)"

definition put_str :: "string \<Rightarrow> string" where
  "put_str s = put_nat (length s) @ s"

definition get_str :: "string \<Rightarrow> (string \<times> string) option" where
  "get_str r = map_option (\<lambda>(n, r). (take n r, drop n r)) (get_nat r)"

primrec get_strs :: "nat \<Rightarrow> string \<Rightarrow> (string list \<times> string) option" where
  "get_strs 0 r = Some ([], r)"
| "get_strs (Suc n) r = Option.bind (get_str r) (\<lambda>(s, r). map_option (apfst (Cons s)) (get_strs n r))"

definition put_event :: "event \<Rightarrow> string" where
  "put_event ev = put_nat (length (Keys ev)) @ concat (map put_str (Keys ev @ [ID ev, Kind ev, Tag ev, OriginID ev]))
     @ put_nat (unat (EVersion ev)) @ put_nat (nat (EmittedAt ev)) @ put_nat (nat (- EmittedAt ev))"

definition get_event :: "string \<Rightarrow> event option" where
  "get_event r = Option.bind (get_nat r) (\<lambda>(n, r). Option.bind (get_strs (n + 4) r) (\<lambda>(ss, r). Option.bind (get_nat r) (\<lambda>(v, r).
     Option.bind (get_nat r) (\<lambda>(p, r). Option.bind (get_nat r) (\<lambda>(q, _).
       Some \<lparr>ID = ss ! n, Kind = ss ! (n + 1), Keys = take n ss, Tag = ss ! (n + 2), EVersion = of_nat v,
         OriginID = ss ! (n + 3), EmittedAt = int p - int q\<rparr>)))))"

lemma get_put_nat: "get_nat (put_nat n @ r) = Some (n, r)"
  by (induction n) (simp_all add: put_nat_def)

lemma get_put_str: "get_str (put_str s @ r) = Some (s, r)"
  by (simp add: get_str_def put_str_def get_put_nat)

lemma get_put_strs: "get_strs (length ss) (concat (map put_str ss) @ r) = Some (ss, r)"
  by (induction ss) (simp_all add: get_put_str)

lemma get_put_event: "get_event (put_event ev) = Some ev"
proof -
  have "get_strs (length (Keys ev) + 4) (concat (map put_str (Keys ev @ [ID ev, Kind ev, Tag ev, OriginID ev])) @ r) =
      Some (Keys ev @ [ID ev, Kind ev, Tag ev, OriginID ev], r)" for r
    using get_put_strs [of "Keys ev @ [ID ev, Kind ev, Tag ev, OriginID ev]" r] by (simp only: length_append list.size) (simp add: numeral_eq_Suc)
  then show ?thesis
    using get_put_nat [of _ "[]"] by (simp add: get_event_def put_event_def get_put_nat nth_append del: concat_append map_append get_strs.simps)
qed

definition ref_pubsub :: "(string \<Rightarrow> string list) redis_pubsub" where
  "ref_pubsub = \<lparr>cmd_PUBLISH = (\<lambda>ch m g. if ch = [] then (Some (ErrMsg ''refused''), g) else (None, g(ch := g ch @ [m]))),
     rp_Marshal = (\<lambda>ev. Inr (put_event (json_event ev))),
     rp_Unmarshal = (\<lambda>m. case get_event m of None \<Rightarrow> Inl (ErrMsg ''json'') | Some ev \<Rightarrow> Inr ev)\<rparr>"

interpretation reference_channel: redis_channel ref_pubsub id
  by unfold_locales (auto simp: ref_pubsub_def get_put_event split: if_splits)

lemma ref_publish_all: "channel b \<noteq> [] \<Longrightarrow> fst (run_state (publish_all ref_pubsub b evs) g) = replicate (length evs) None"
  by (induction evs arbitrary: g) (simp_all add: redis_Publish_def ref_pubsub_def split_beta)

text \<open>Three events, one for a key that is not valid UTF-8; the subscriber misses the first and receives one message that is no event.\<close>

abbreviation demo_sent :: "event list" where
  "demo_sent \<equiv> [demo_event ''1'', (demo_event ''2'')\<lparr>Keys := [[char_of (255 :: nat)]]\<rparr>, demo_event ''3'']"

theorem redis_bus_delivers_witness:
  "\<exists>g' got. run_state (publish_all ref_pubsub (redis_bus_New ''c'') demo_sent) (\<lambda>_. []) = ([None, None, None], g')
     \<and> subseq got demo_sent
     \<and> run_state (redis_Subscribe ref_pubsub (redis_bus_New ''c'') (\<lambda>ev. updating (\<lambda>l. l @ [Keys ev])) (''?'' # tl (g' ''c'')) None) [] =
         (None, snd (run_state (for_each (map json_event got) (\<lambda>ev. updating (\<lambda>l. l @ [Keys ev]))) []))"
proof -
  obtain es g' where run: "run_state (publish_all ref_pubsub (redis_bus_New ''c'') demo_sent) (\<lambda>_. []) = (es, g')" by fastforce
  have es: "es = [None, None, None]" using ref_publish_all [of "redis_bus_New ''c''" demo_sent "\<lambda>_. []"] unfolding run by (simp add: redis_bus_New_def numeral_eq_Suc)
  have "\<not> is_message ref_pubsub ''?''" by (simp add: is_message_def ref_pubsub_def get_event_def)
  moreover have "subseq (filter P (tl xs)) xs" for P and xs :: "string list" by (cases xs) (auto intro: list_emb_Cons)
  ultimately have "subseq (filter (is_message ref_pubsub) (''?'' # tl (g' ''c''))) (id g' (channel (redis_bus_New ''c'')))"
    by (simp add: redis_bus_New_def)
  from redis_bus_delivers [OF reference_channel.redis_channel_axioms run _ this, of "\<lambda>ev. updating (\<lambda>l. l @ [Keys ev])" None "[]"]
  show ?thesis using run unfolding es by (simp only: id_apply simp_thms) blast
qed

end
