(* ===== verification/Cache_Lifecycle.thy ===== *)
theory Cache_Lifecycle
  imports Cache_Ops
begin

text \<open>
  The life of a cache: open, and from its first \<open>Close\<close> on closed. No other method touches the closed flag,
  the once of \<open>Close\<close>, the error it keeps or the subscription, so that a condition on these alone holds
  until \<open>Close\<close> is called, whatever else runs, if the rest of the program keeps it.
\<close>

definition lifecycle :: "('a, 'b, 'r) cstate \<Rightarrow> bool \<times> bool \<times> go_error option \<times> bool" where
  "lifecycle s = (closed s, closeDone s, closeErr s, subscribed s)"

lemma lifecycle_simps [simp]:
  "lifecycle (s\<lparr>l1_st := a\<rparr>) = lifecycle s" "lifecycle (s\<lparr>l2_st := b\<rparr>) = lifecycle s" "lifecycle (s\<lparr>ref_st := r\<rparr>) = lifecycle s"
  "lifecycle (s\<lparr>stats := n\<rparr>) = lifecycle s" "lifecycle (s\<lparr>id_draws := k\<rparr>) = lifecycle s" "lifecycle (s\<lparr>jitter_draws := k\<rparr>) = lifecycle s"
  "lifecycle (s\<lparr>tags := m\<rparr>) = lifecycle s" "lifecycle (s\<lparr>dedupe_st := d\<rparr>) = lifecycle s" "lifecycle (s\<lparr>outbox := evs\<rparr>) = lifecycle s"
  "lifecycle (s\<lparr>ticks := k\<rparr>) = lifecycle s"
  by (simp_all add: lifecycle_def)

definition undisturbed ::
  "(bool \<times> bool \<times> go_error option \<times> bool \<Rightarrow> bool) \<Rightarrow> ('k, 'v, 'a, 'b, 'r) cache \<Rightarrow> bool" where
  "undisturbed P c \<longleftrightarrow> singleflight_law (xsf_Do c) \<and> (\<forall>n s. P (lifecycle s) \<longrightarrow> P (lifecycle (env c n s)))"

lemma quiet_undisturbed: "env c = quiet \<Longrightarrow> singleflight_law (xsf_Do c) \<Longrightarrow> undisturbed P c"
  by (simp add: undisturbed_def quiet_def)

abbreviation lives :: "(bool \<times> bool \<times> go_error option \<times> bool \<Rightarrow> bool) \<Rightarrow> ('a, 'b, 'r, 'x) prog \<Rightarrow> bool" where
  "lives P m \<equiv> keeps (\<lambda>s. P (lifecycle s)) m"

lemma lives_pure:
  "lives P (State_Monad.return x)" "lives P (reading g)" "lives P (add1 upd)" "lives P (newID c)" "lives P (indexTags ks ts)"
  "lives P (window c now)" "lives P (dedupe_Seen i)" "lives P (take_tag c tag)"
  by (auto simp: hoare_def add1_def count_def newID_def indexTags_def window_def dedupe_Seen_def take_tag_def Let_def
      split: option.split prod.split)

lemma lives_yield: "undisturbed P c \<Longrightarrow> lives P (yield c)"
  by (simp add: hoare_def yield_def undisturbed_def)

lemma lives_calls:
  assumes "undisturbed P c"
  shows "lives P (Now c)" "lives P (load_origin c key)" "lives P (is_closed c)" "lives P (publish c ev)"
    "lives P (l1_call c f)" "lives P (l2_call c g)" "lives P (ref_call c r)"
  unfolding Now_def load_origin_def is_closed_def publish_def l1_call_def l2_call_def ref_call_def
  by (intro hoare_bind [OF lives_yield [OF assms]] hoare_if lives_pure hoare_updating hoareI; simp add: split_beta)+

text \<open>The rules for every construct.\<close>

lemma lives_bind: "lives P m \<Longrightarrow> (\<And>a. lives P (f a)) \<Longrightarrow> lives P (m \<bind> f)"
  by (rule hoare_bind)

lemmas lives_rules = lives_bind hoare_if hoare_prod hoare_option hoare_sum hoare_let lives_pure

lemma lives_installL1: "undisturbed P c \<Longrightarrow> lives P (installL1 c ks e)"
  unfolding installL1_def by (intro lives_rules lives_calls)

lemma lives_fill: "undisturbed P c \<Longrightarrow> lives P (fill c key ks)"
  unfolding fill_def fill_local_def fill_negative_def fill_value_def valueEntry_def
  by (intro lives_rules lives_calls lives_installL1)

lemma lives_sf_Do: "undisturbed P c \<Longrightarrow> lives P fn \<Longrightarrow> lives P (sf_Do c ks fn)"
  unfolding sf_Do_def by (rule hoare_bind [OF singleflight_keeps]) (auto simp: undisturbed_def intro!: lives_rules)

lemma lives_methods:
  assumes u: "undisturbed P c"
  shows "lives P (cache_Get c key)" "lives P (GetOrLoad c key)" "lives P (refresh_run c key ks)" "lives P (cache_Set c key v opts)"
    "lives P (Invalidate c key)" "lives P (InvalidateTag c tag)" "lives P (onEvent c ev)" "lives P (cache_Stats c)"
  unfolding cache_Get_def GetOrLoad_def refresh_run_def scheduleRefresh_def cache_Set_def Invalidate_def InvalidateTag_def broadcast_def
    onEvent_def bus_evict_def cache_Stats_def
  by (intro lives_rules lives_calls [OF u] lives_installL1 [OF u] lives_fill [OF u] lives_sf_Do [OF u] keeps_for_each)+

fun not_close :: "('k, 'v) cache_call \<Rightarrow> bool" where
  "not_close CClose = False"
| "not_close _ = True"

text \<open>Until \<open>Close\<close> is called.\<close>

lemma lives_call:
  assumes "undisturbed P c" "not_close call"
  shows "lives P (cache_do c call)"
  using assms(2) by (cases call) (auto intro!: lives_methods [OF assms(1)] lives_rules)

text \<open>\<open>Close\<close> itself: what has been closed once is closed.\<close>

lemma once_closed:
  assumes "undisturbed fst c"
  shows "hoare (\<lambda>s. closeDone s \<longrightarrow> closed s) (cache_Close c) (\<lambda>_. closed)"
proof -
  have ref: "hoare closed (ref_call c r) (\<lambda>_. closed)" for r
    using lives_calls(7) [OF assms, of r] by (simp add: lifecycle_def)
  have close: "hoare (\<lambda>_. True) (do {
       updating (\<lambda>s. s\<lparr>closeDone := True, closed := True\<rparr>);
       updating (\<lambda>s. s\<lparr>subscribed := False\<rparr>);
       err \<leftarrow> ref_call c (ref_Close (refresher c));
       updating (\<lambda>s. s\<lparr>closeErr := err\<rparr>);
       reading closeErr }) (\<lambda>_. closed)"
    by (rule hoare_bind [of _ _ "\<lambda>_. closed"], rule hoare_updating, simp)
      (auto intro!: hoare_bind [of _ _ "\<lambda>_. closed"] hoare_updating hoare_reading ref)
  have "hoare (\<lambda>s. closeDone s \<longrightarrow> closed s) (reading closeDone) (\<lambda>once s. once \<longrightarrow> closed s)"
    by (rule hoare_reading) simp
  then show ?thesis
    unfolding cache_Close_def
    by (rule hoare_bind) (auto intro!: hoare_if hoare_reading hoare_pre [OF close])
qed

end
