(* ===== verification/Cloudrun_Exit.thy ===== *)
theory Cloudrun_Exit
  imports Cloudrun Cache_Lifecycle
begin

text \<open>
  The end of examples/cloudrun/main.go. Two goroutines race once a signal arrives: the one that waits for it
  calls \<open>srv.Shutdown\<close>, which closes the listener, waits for the requests in flight and only then lets
  it close the cache; \<open>main\<close> is blocked in \<open>srv.ListenAndServe\<close>, which returns \<open>http.ErrServerClosed\<close> as soon
  as \<open>Shutdown\<close> is called, and then returns itself, which ends the process with every other goroutine.
  The requests in flight are the handlers of theory \<open>Cloudrun\<close>, each one step.
\<close>

section \<open>The process\<close>

definition ErrServerClosed :: go_error where
  "ErrServerClosed = ErrMsg ''http: Server closed''"

text \<open>What \<open>main\<close> does with the result of \<open>ListenAndServe\<close>.\<close>

definition after_serving :: "go_error option \<Rightarrow> exit" where
  "after_serving err = (case err of
       None \<Rightarrow> Done
     | Some e \<Rightarrow> if errors_is e ErrServerClosed then Done else Fatal (Error e))"

text \<open>The deferred calls of \<open>main\<close>, last one first; \<open>log.Fatal\<close> skips them.\<close>

datatype cleanup = Unregister | ShutdownProvider | ClosePubsub | CloseRedis

definition stopMetrics :: "cleanup list" where
  "stopMetrics = [Unregister, ShutdownProvider]"

definition cloudrun_deferred :: "registration option \<Rightarrow> cleanup list" where
  "cloudrun_deferred reg = (case reg of None \<Rightarrow> [] | Some _ \<Rightarrow> stopMetrics) @ [ClosePubsub, CloseRedis]"

datatype serving = Serving | Exited exit

datatype watcher = Awaiting | Draining | Stopped

record ('a, 'b, 'r) process =
  pr_main :: serving
  pr_watch :: watcher
  pr_flight :: "http_request list"
  pr_answers :: "(http_request \<times> response option) list"
  pr_cleanup :: "cleanup list"
  pr_cache :: "('a, 'b, 'r) cstate"

definition leave :: "registration option \<Rightarrow> go_error option \<Rightarrow> ('a, 'b, 'r) process \<Rightarrow> ('a, 'b, 'r) process" where
  "leave reg err s = (case after_serving err of
       Done \<Rightarrow> s\<lparr>pr_main := Exited Done, pr_cleanup := cloudrun_deferred reg\<rparr>
     | x \<Rightarrow> s\<lparr>pr_main := Exited x\<rparr>)"

text \<open>
  A request arrives or is answered; the signal comes, and \<open>Shutdown\<close> closes the listener; \<open>Shutdown\<close> returns because
  nothing is in flight, or because its ten seconds are over (its error is ignored), and the cache is
  closed; \<open>ListenAndServe\<close> returns, after a shutdown or for a failure of its own.
\<close>

inductive proc_step ::
  "push_json \<Rightarrow> (string \<Rightarrow> string) \<Rightarrow> push_bus \<Rightarrow> (string, string, 'a, 'b, 'r) cache \<Rightarrow> registration option \<Rightarrow>
    ('a, 'b, 'r) process \<Rightarrow> ('a, 'b, 'r) process \<Rightarrow> bool"
  for js decode p c reg where
  Arrive: "pr_main s = Serving \<Longrightarrow> pr_watch s = Awaiting \<Longrightarrow>
    proc_step js decode p c reg s (s\<lparr>pr_flight := pr_flight s @ [r]\<rparr>)"
| Answer: "pr_main s = Serving \<Longrightarrow> pr_flight s = rs @ r # rs' \<Longrightarrow>
    run_state (listening (cloudrun_serve js decode p c r)) (pr_cache s) = (resp, st) \<Longrightarrow>
    proc_step js decode p c reg s (s\<lparr>pr_flight := rs @ rs', pr_answers := pr_answers s @ [(r, resp)], pr_cache := st\<rparr>)"
| Signal: "pr_main s = Serving \<Longrightarrow> pr_watch s = Awaiting \<Longrightarrow> proc_step js decode p c reg s (s\<lparr>pr_watch := Draining\<rparr>)"
| Drained: "pr_main s = Serving \<Longrightarrow> pr_watch s = Draining \<Longrightarrow> pr_flight s = [] \<Longrightarrow>
    proc_step js decode p c reg s (s\<lparr>pr_watch := Stopped, pr_cache := snd (run_state (cloudrun_shutdown c) (pr_cache s))\<rparr>)"
| TimedOut: "pr_main s = Serving \<Longrightarrow> pr_watch s = Draining \<Longrightarrow>
    proc_step js decode p c reg s (s\<lparr>pr_watch := Stopped, pr_cache := snd (run_state (cloudrun_shutdown c) (pr_cache s))\<rparr>)"
| Return: "pr_main s = Serving \<Longrightarrow> pr_watch s \<noteq> Awaiting \<Longrightarrow> proc_step js decode p c reg s (leave reg (Some ErrServerClosed) s)"
| Fail: "pr_main s = Serving \<Longrightarrow> pr_watch s = Awaiting \<Longrightarrow> \<not> errors_is e ErrServerClosed \<Longrightarrow>
    proc_step js decode p c reg s (leave reg (Some e) s)"

inductive_cases proc_stepE: "proc_step js decode p c reg s t"

section \<open>What is left undone\<close>

lemma exit_final: "pr_main s = Exited x \<Longrightarrow> \<not> proc_step js decode p c reg s t"
  by (auto elim: proc_stepE)

lemma leave_closed: "leave reg (Some ErrServerClosed) s = s\<lparr>pr_main := Exited Done, pr_cleanup := cloudrun_deferred reg\<rparr>"
  by (simp add: leave_def after_serving_def errors_is_refl)

text \<open>
  C19: A signal may cut off the requests in flight. Whatever requests the service is handling when the signal
  arrives, there is a run in which \<open>main\<close> returns at once: the process has ended normally and the
  clients of Redis and Pub/Sub are closed, but the requests are not answered and the cache was never
  closed. Nothing happens after that.
\<close>

theorem shutdown_not_awaited:
  assumes "pr_main s = Serving" "pr_watch s = Awaiting"
  shows "\<exists>t. (proc_step js decode p c reg)\<^sup>*\<^sup>* s t \<and> pr_main t = Exited Done \<and> {ClosePubsub, CloseRedis} \<subseteq> set (pr_cleanup t)
    \<and> pr_flight t = pr_flight s \<and> pr_answers t = pr_answers s \<and> pr_cache t = pr_cache s \<and> (\<forall>u. \<not> proc_step js decode p c reg t u)"
proof -
  let ?s1 = "s\<lparr>pr_watch := Draining\<rparr>" and ?t = "leave reg (Some ErrServerClosed) (s\<lparr>pr_watch := Draining\<rparr>)"
  have "proc_step js decode p c reg s ?s1" by (rule Signal [OF assms])
  moreover have "proc_step js decode p c reg ?s1 ?t" by (rule Return) (use assms(1) in simp_all)
  ultimately have "(proc_step js decode p c reg)\<^sup>*\<^sup>* s ?t" by (meson converse_rtranclp_into_rtranclp r_into_rtranclp)
  moreover have "\<not> proc_step js decode p c reg ?t u" for u by (rule exit_final) (simp add: leave_closed)
  ultimately show ?thesis by (intro exI [of _ ?t]) (simp add: leave_closed cloudrun_deferred_def)
qed


theorem shutdown_not_awaited_witness:
  "\<exists>c st t. Build (demo_service_rt 0) vs_empty (cloudrun_config (memory_value demo_hash) vs_ops) = Some (Inr (c, st))
     \<and> (proc_step demo_json (\<lambda>x. x) demo_bus c None)\<^sup>*\<^sup>*
         \<lparr>pr_main = Serving, pr_watch = Awaiting, pr_flight = [demo_put], pr_answers = [], pr_cleanup = [], pr_cache = st\<rparr> t
     \<and> pr_main t = Exited Done \<and> pr_flight t = [demo_put] \<and> pr_answers t = [] \<and> \<not> closed (pr_cache t)"
proof -
  obtain c st where b: "Build (demo_service_rt 0) vs_empty (cloudrun_config (memory_value demo_hash) vs_ops) = Some (Inr (c, st))" "\<not> closed st"
    by (rule cloudrun_instance [OF demo_service_runtime vs_tombstones_last, of 0 vs_empty])
  let ?s = "\<lparr>pr_main = Serving, pr_watch = Awaiting, pr_flight = [demo_put], pr_answers = [], pr_cleanup = [], pr_cache = st\<rparr>"
  obtain t where "(proc_step demo_json (\<lambda>x. x) demo_bus c None)\<^sup>*\<^sup>* ?s t" "pr_main t = Exited Done" "pr_flight t = [demo_put]"
    "pr_answers t = []" "pr_cache t = st"
    using shutdown_not_awaited [of ?s demo_json "\<lambda>x. x" demo_bus c None] by auto
  then show ?thesis using b by blast
qed

section \<open>What the goroutine does if it is left the time\<close>

lemma serve_lives:
  assumes u: "undisturbed P c" and s: "P (lifecycle s)"
  shows "P (lifecycle (snd (run_state (listening (cloudrun_serve js decode p c r)) s)))"
proof -
  have methods: "lives P (get_item c i)" "lives P (put_item decode c i x)" "lives P (delete_item c i)" for i x
    unfolding get_item_def put_item_def delete_item_def by (intro lives_rules lives_methods [OF u])+
  note hoare_run [OF methods(1) s, simp] hoare_run [OF methods(2) s, simp] hoare_run [OF methods(3) s, simp]
    hoare_run [OF lives_methods(7) [OF u] s, simp]
  show ?thesis
    using s by (auto simp: cloudrun_serve_def listening_def on_cache_def not_allowed_def push_Handler_def pushHandler_def split_beta Let_def
        split: list.split option.split sum.split)
qed

lemma proc_lives:
  assumes "proc_step js decode p c reg s t" and u: "undisturbed P c" and s: "P (lifecycle (pr_cache s))"
  shows "P (lifecycle (pr_cache t)) \<or> t = s\<lparr>pr_watch := Stopped, pr_cache := snd (run_state (cloudrun_shutdown c) (pr_cache s))\<rparr>"
  using assms(1) serve_lives [OF u s] s by (elim proc_stepE) (auto simp: leave_def split: exit.split; metis snd_conv)+

lemma shutdown_closes:
  assumes "undisturbed fst c" "closeDone s \<longrightarrow> closed s"
  shows "closed (snd (run_state (cloudrun_shutdown c) s))"
  using hoare_run [OF once_closed [OF assms(1)] assms(2)] by (simp add: cloudrun_shutdown_def split_beta)

text \<open>
  Where the goroutine comes to its end before \<open>main\<close> returns, the cache is closed, and it stays so, also for
  requests that outlived the ten seconds.
\<close>

theorem stopped_closed:
  assumes "(proc_step js decode p c reg)\<^sup>*\<^sup>* s t" "pr_watch s \<noteq> Stopped" "\<not> closeDone (pr_cache s)"
    and u: "\<And>P. undisturbed P c"
  shows "pr_watch t = Stopped \<longrightarrow> closed (pr_cache t)"
proof -
  let ?I = "\<lambda>t. (closeDone (pr_cache t) \<longrightarrow> closed (pr_cache t)) \<and> (pr_watch t = Stopped \<longrightarrow> closed (pr_cache t))"
  have "?I t" using assms(1)
  proof (induction rule: rtranclp_induct)
    case base then show ?case using assms(2,3) by simp
  next
    case (step t v)
    have "closed (pr_cache t) \<Longrightarrow> closed (pr_cache v)" "closeDone (pr_cache v) \<longrightarrow> closed (pr_cache v)"
      "v = t\<lparr>pr_watch := Stopped, pr_cache := snd (run_state (cloudrun_shutdown c) (pr_cache t))\<rparr> \<Longrightarrow> closed (pr_cache v)"
      using proc_lives [OF step.hyps(2) u, of fst] proc_lives [OF step.hyps(2) u, of "\<lambda>(cl, once, _). once \<longrightarrow> cl"]
        shutdown_closes [OF u] step.IH by (auto simp: lifecycle_def)
    moreover have "pr_watch v = Stopped \<Longrightarrow> pr_watch t = Stopped \<or> v = t\<lparr>pr_watch := Stopped, pr_cache := snd (run_state (cloudrun_shutdown c) (pr_cache t))\<rparr>"
      using step.hyps(2) by (elim proc_stepE) (auto simp: leave_def split: exit.splits)
    ultimately show ?case using step.IH by blast
  qed
  then show ?thesis by blast
qed

lemma answer_all:
  "pr_main s = Serving \<Longrightarrow> \<exists>t. (proc_step js decode p c reg)\<^sup>*\<^sup>* s t \<and> pr_main t = Serving \<and> pr_watch t = pr_watch s \<and> pr_flight t = []
    \<and> map fst (pr_answers t) = map fst (pr_answers s) @ pr_flight s"
proof (induction "pr_flight s" arbitrary: s)
  case Nil
  then show ?case by (intro exI [of _ s]) auto
next
  case (Cons r rs)
  obtain resp st where "run_state (listening (cloudrun_serve js decode p c r)) (pr_cache s) = (resp, st)" by force
  then have "proc_step js decode p c reg s (s\<lparr>pr_flight := rs, pr_answers := pr_answers s @ [(r, resp)], pr_cache := st\<rparr>)" (is "proc_step _ _ _ _ _ _ ?u")
    using Answer [of s "[]" r rs] Cons by simp
  moreover obtain t where "(proc_step js decode p c reg)\<^sup>*\<^sup>* ?u t" "pr_main t = Serving" "pr_watch t = pr_watch s" "pr_flight t = []"
    "map fst (pr_answers t) = map fst (pr_answers s) @ r # rs"
    using Cons(1) [of ?u] Cons(3) by auto
  ultimately show ?case using Cons(2) by (metis converse_rtranclp_into_rtranclp)
qed

text \<open>
  So the shutdown is a race and not a failure in every case: there is also a run in which every request in
  flight is answered, the cache is closed, and then the process ends.
\<close>

theorem shutdown_may_complete:
  assumes s: "pr_main s = Serving" "pr_watch s = Awaiting" "\<not> closeDone (pr_cache s)" and u: "\<And>P. undisturbed P c"
  shows "\<exists>t. (proc_step js decode p c reg)\<^sup>*\<^sup>* s t \<and> pr_main t = Exited Done \<and> pr_flight t = []
    \<and> map fst (pr_answers t) = map fst (pr_answers s) @ pr_flight s \<and> closed (pr_cache t)"
proof -
  let ?step = "proc_step js decode p c reg" and ?s1 = "s\<lparr>pr_watch := Draining\<rparr>"
  have s1: "?step s ?s1" by (rule Signal [OF s(1,2)])
  obtain t where t: "?step\<^sup>*\<^sup>* ?s1 t" "pr_main t = Serving" "pr_watch t = Draining" "pr_flight t = []"
    "map fst (pr_answers t) = map fst (pr_answers s) @ pr_flight s"
    using answer_all [of ?s1 js decode p c reg] s(1) by auto
  define v where "v = t\<lparr>pr_watch := Stopped, pr_cache := snd (run_state (cloudrun_shutdown c) (pr_cache t))\<rparr>"
  have "?step\<^sup>*\<^sup>* s v"
    using s1 t(1) Drained [OF t(2-4)] unfolding v_def by (meson converse_rtranclp_into_rtranclp rtranclp.rtrancl_into_rtrancl)
  moreover have "?step v (leave reg (Some ErrServerClosed) v)" by (rule Return) (simp_all add: v_def t(2))
  moreover have "closed (pr_cache v)" using stopped_closed [OF calculation(1) _ s(3) u] s(2) by (simp add: v_def)
  ultimately show ?thesis
    using t(4,5) by (intro exI [of _ "leave reg (Some ErrServerClosed) v"]) (auto simp: leave_closed v_def intro: rtranclp.rtrancl_into_rtrancl)
qed

end
