(* ===== verification/Redisbus.thy ===== *)
theory Redisbus
  imports Service_Http
begin

text \<open>
  examples/redisbus/main.go: two instances over one Redis and one channel; a write on the first is seen by
  the second. The program is modelled as it runs, from the construction of the instances to its last
  line, on a fleet (theory \<open>Fleet\<close>) over any shared store; theory \<open>Redisbus_Redis\<close> has it over the Redis store.
  What happens while the program sleeps, the passing of time and the delivery of events by the bus's
  goroutines, is the parameter \<open>sleep\<close>. What the single calls do is shown here over the abstract store.
  In the text of the last fatal message the value stands as it is, where the code quotes it.
\<close>

section \<open>The program\<close>

definition bus_key :: string where
  "bus_key = ''user:42''"

text \<open>The loader numbers its calls; \<open>revision t\<close> is the number of the call made at tick \<open>t\<close>.\<close>

definition redisbus_loader :: "(nat \<Rightarrow> int) \<Rightarrow> string \<Rightarrow> nat \<Rightarrow> go_error + string" where
  "redisbus_loader revision k t = Inr (''value-for-'' @ k @ ''-rev'' @ FormatInt (revision t))"

definition redisbus_config ::
  "(('a, string) l1_ops \<times> 'a) option \<Rightarrow> (string \<Rightarrow> nat \<Rightarrow> go_error + string) \<Rightarrow> ('b, string) l2_ops \<Rightarrow> (string, string, 'a, 'b) config" where
  "redisbus_config mem ld L2 =
     Builder_TTL (30 * Second) (5 * Minute) (Builder_Bus RealBus (Builder_L2 (Some L2) (Builder_L1 mem (NewBuilder (Some ld)))))"

text \<open>Connecting, with the store on top of the client, is a parameter.\<close>

definition newInstance ::
  "(string \<Rightarrow> go_error + ('b, string) l2_ops) \<Rightarrow> (('a, string) l1_ops \<times> 'a) option \<Rightarrow> (string, string, 'a, 'b, 'x) runtime \<Rightarrow> 'b \<Rightarrow>
    string \<Rightarrow> (string \<Rightarrow> nat \<Rightarrow> go_error + string) \<Rightarrow>
    (string + (string, string, 'a, 'b, string refresher_value) cache \<times> ('a, 'b, string refresher_value) cstate) option" where
  "newInstance dial mem rt b redisAddr ld = (case dial redisAddr of
       Inl err \<Rightarrow> Some (Inl (''connect redis ('' @ redisAddr @ ''): '' @ Error err))
     | Inr L2 \<Rightarrow> (case Build rt b (redisbus_config mem ld L2) of
           None \<Rightarrow> None
         | Some (Inl err) \<Rightarrow> Some (Inl (''build cache: '' @ Error err))
         | Some (Inr cs) \<Rightarrow> Some (Inr cs)))"

definition bus_envOr :: "(string \<Rightarrow> string) \<Rightarrow> string \<Rightarrow> string \<Rightarrow> string" where
  "bus_envOr getenv k dflt = (if getenv k \<noteq> [] then getenv k else dflt)"

text \<open>
  The two instances, each in its own runtime and with the loader as it is seen from its ticks; the first that
  cannot be made ends the program.
\<close>

definition redisbus_start ::
  "(string \<Rightarrow> go_error + ('b, string) l2_ops) \<Rightarrow> (('a, string) l1_ops \<times> 'a) option \<Rightarrow> (nat \<Rightarrow> (string, string, 'a, 'b, 'x) runtime) \<Rightarrow> 'b \<Rightarrow>
    (string \<Rightarrow> string) \<Rightarrow> (nat \<Rightarrow> string \<Rightarrow> nat \<Rightarrow> go_error + string) \<Rightarrow>
    (string + (nat \<Rightarrow> (string, string, 'a, 'b, string refresher_value) cache \<times> ('a, 'b, string refresher_value) cstate)) option" where
  "redisbus_start dial mem rt b0 getenv ld =
     (let redisAddr = bus_envOr getenv ''REDIS_ADDR'' ''localhost:6379''
      in case newInstance dial mem (rt 0) b0 redisAddr (ld 0) of
           None \<Rightarrow> None
         | Some (Inl m) \<Rightarrow> Some (Inl m)
         | Some (Inr a) \<Rightarrow>
             (case newInstance dial mem (rt 1) b0 redisAddr (ld 1) of
                None \<Rightarrow> None
              | Some (Inl m) \<Rightarrow> Some (Inl m)
              | Some (Inr b) \<Rightarrow> Some (Inr (\<lambda>i. if i = 0 then a else b))))"

text \<open>
  \<open>waitForEvict\<close> over the \<open>Get\<close> of a cache, the clock and \<open>time.Sleep\<close>. It may poll forever if sleeping does not
  advance the clock.
\<close>

partial_function (option) evict_loop ::
  "duration \<Rightarrow> ('s \<Rightarrow> ('v \<times> bool \<times> go_error option) \<times> 's) \<Rightarrow> ('s \<Rightarrow> time) \<Rightarrow> (duration \<Rightarrow> 's \<Rightarrow> 's) \<Rightarrow> time \<Rightarrow> 's \<Rightarrow> (go_error option \<times> 's) option" where
  "evict_loop timeout get now sleep deadline s =
     (if now s < deadline
      then (case get s of ((_, ok, err), s1) \<Rightarrow>
              if err \<noteq> None then Some (err, s1)
              else if \<not> ok then Some (None, s1)
              else evict_loop timeout get now sleep deadline (sleep (20 * Millisecond) s1))
      else Some (Some (ErrMsg (''L1 entry still present after '' @ Duration_String timeout)), s))"

definition waitForEvict ::
  "('s \<Rightarrow> ('v \<times> bool \<times> go_error option) \<times> 's) \<Rightarrow> ('s \<Rightarrow> time) \<Rightarrow> (duration \<Rightarrow> 's \<Rightarrow> 's) \<Rightarrow> duration \<Rightarrow> 's \<Rightarrow> (go_error option \<times> 's) option" where
  "waitForEvict get now sleep timeout s = evict_loop timeout get now sleep (now s + timeout) s"

text \<open>Polling ends, with a result, as soon as sleeping takes time.\<close>

lemma evict_loop_total:
  assumes "\<And>s. now (snd (get s)) = now s" "\<And>s. now s + 20 * Millisecond \<le> now (sleep (20 * Millisecond) s)"
  shows "\<exists>r. evict_loop timeout get now sleep deadline s = Some r"
proof (induction "nat (deadline - now s)" arbitrary: s rule: less_induct)
  case less
  obtain v ok err s1 where g: "get s = ((v, ok, err), s1)" by (metis prod.collapse)
  have "now s + 20 * Millisecond \<le> now (sleep (20 * Millisecond) s1)" using assms(1) [of s] assms(2) [of s1] g by simp
  then have "now s < deadline \<Longrightarrow> \<exists>r. evict_loop timeout get now sleep deadline (sleep (20 * Millisecond) s1) = Some r"
    by (intro less) (simp add: duration_defs)
  then show ?case by (subst evict_loop.simps) (auto simp: g)
qed

definition with_value ::
  "string \<Rightarrow> string outcome \<Rightarrow> 'w \<Rightarrow> (string \<Rightarrow> (exit \<times> 'w) option) \<Rightarrow> (exit \<times> 'w) option" where
  "with_value what r w k = (case r of
       Panic \<Rightarrow> Some (Crashed, w)
     | Return (Inl err) \<Rightarrow> Some (Fatal (what @ '': '' @ Error err), w)
     | Return (Inr v) \<Rightarrow> k v)"

text \<open>The deferred closes run on a normal return only; the last one deferred runs first.\<close>

definition close_both ::
  "(nat \<Rightarrow> (string, string, string memcache, 'b, 'r) cache) \<Rightarrow> (string, 'b, 'r) fleet_over \<Rightarrow> (string, 'b, 'r) fleet_over" where
  "close_both C f = on_node (C 0) 0 CClose (on_node (C 1) 1 CClose f)"

definition redisbus_main ::
  "(nat \<Rightarrow> (string, string, string memcache, 'b, 'r) cache) \<Rightarrow> (duration \<Rightarrow> (string, 'b, 'r) fleet_over \<Rightarrow> (string, 'b, 'r) fleet_over) \<Rightarrow>
    (string, 'b, 'r) fleet_over \<Rightarrow> (exit \<times> (string, 'b, 'r) fleet_over) option" where
  "redisbus_main C sleep f0 =
     (case at_node 0 (GetOrLoad (C 0) bus_key) (sleep (200 * Millisecond) f0) of (ra, f1) \<Rightarrow>
      with_value ''A GetOrLoad'' ra f1 (\<lambda>va.
      case at_node 1 (GetOrLoad (C 1) bus_key) f1 of (rb, f2) \<Rightarrow>
      with_value ''B GetOrLoad'' rb f2 (\<lambda>vb.
      case at_node 0 (cache_Set (C 0) bus_key ''value-set-by-A'' []) f2 of (err, f3) \<Rightarrow>
      case err of
        Some e \<Rightarrow> Some (Fatal (''A Set: '' @ Error e), f3)
      | None \<Rightarrow>
          (case waitForEvict (at_node 1 (cache_Get (C 1) bus_key)) fl_now sleep (2 * Second) f3 of
             None \<Rightarrow> None
           | Some (Some e, f4) \<Rightarrow> Some (Fatal (''B never saw the invalidation: '' @ Error e), f4)
           | Some (None, f4) \<Rightarrow>
               (case at_node 1 (GetOrLoad (C 1) bus_key) f4 of (rb2, f5) \<Rightarrow>
                with_value ''B GetOrLoad after evict'' rb2 f5 (\<lambda>v.
                Some (if v \<noteq> ''value-set-by-A''
                      then (Fatal (''cross-instance coherence FAILED: B still sees '' @ v), f5)
                      else (Done, close_both C f5))))))))"

section \<open>Reading through\<close>

text \<open>A read that misses L1, of a loader that always answers: the shared store then holds what it returns.\<close>

lemma GetOrLoad_warms:
  fixes c :: "('k, 'v::zero, 'v memcache, 'v vstore, 'r) cache"
  assumes c: "member h c" "xsf_Do c = sf_alone" "lasting 1 c" "0 \<le> staleWindow c" "\<And>v. \<not> is_nil c v" and s: "\<not> closed s" "mem_ok h cap (l1_st s)"
    and held: "mem_held h (l1_st s) ks = None" and ks: "ks = keyString c key" and ld: "\<And>t. \<exists>v. loader c key t = Inr v"
  obtains e s' where "run_state (GetOrLoad c key) s = (Return (Inr (Value e)), s')" "cells (l2_st s') ks = Live e" "Fresh e (clock_now s)"
    "\<And>d. mem_held h (l1_st s') ks = Some d \<Longrightarrow> d = e" "\<not> closed s'"
    "cells (l2_st s) ks \<noteq> Live e \<Longrightarrow> \<not> Negative e"
    "fresh_live (l2_st s) ks (clock_now s) \<Longrightarrow> cells (l2_st s) ks = Live e \<and> loads (stats s') = loads (stats s)"
proof -
  obtain d f err a where g: "mem_Get h (clock_now s) ks (l1_st s) = ((d, f, err), a)" by (metis prod.collapse)
  have a: "\<not> f" "mem_ok h cap a" "mem_held h a ks = None" using mem_Get_law [OF s(2) g] held by (auto simp: map_le_def dom_def split: if_splits)
  let ?s = "s\<lparr>ticks := ticks s + 3, l1_st := a, stats := misses_update (\<lambda>n. n + 1) (stats s)\<rparr>"
  have get: "run_state (GetOrLoad c key) s = (Return (Inr v), t)" if "run_state (fill c key ks) ?s = (Inr v, t)" for v t
    using s(1) g a(1) that by (simp add: GetOrLoad_def run_alone [OF memberD(1) [OF c(1)]] memberD(2) [OF c(1)] memory_ops_def Let_def sf_Do_def c(2)
        sf_alone_def ks [symmetric] to_any_def c(5) numeral_eq_Suc)
  have installed: "d = e" if "mem_held h (snd (mem_SetIfNewer h t ks e a)) ks = Some d" for t d e
    using install_held(2) [OF a(2) that] a(3) by simp
  show ?thesis
  proof (cases "fresh_live (l2_st s) ks (clock_now s)")
    case True
    then obtain e where e: "cells (l2_st s) ks = Live e" "Fresh e (clock_now s)" by blast
    have "run_state (fill c key ks) ?s = (Inr (Value e), ?s\<lparr>ticks := ticks s + 6, l1_st := snd (mem_SetIfNewer h (clock_now s) ks e a)\<rparr>)"
      using e by (simp add: fill_def memberD(3) [OF c(1)] run_alone [OF memberD(1) [OF c(1)]] vs_Load_def run_installL1 [OF c(1)] numeral_eq_Suc)
    from get [OF this] show ?thesis by (rule that) (use e s(1) installed in simp_all)
  next
    case False
    obtain v where v: "loader c key (ticks ?s + 3) = Inr v" using ld by blast
    obtain e s1 where e: "run_state (fill c key ks) ?s = run_state (do { installL1 c ks e; State_Monad.return (Inr v) }) s1"
      "Value e = v" "\<not> Negative e" "clock_now ?s < FreshUntil e" "cells (l2_st s1) = (cells (l2_st ?s))(ks := Live e)"
      "l1_st s1 = l1_st ?s" "closed s1 = closed ?s"
      by (rule slow_fill [where c = c and s = ?s and ks = ks and key = key and val = v])
        (use False v c memberD [OF c(1)] in \<open>simp_all add: quiet_def\<close>)
    let ?t = "(tick s1)\<lparr>l1_st := snd (mem_SetIfNewer h (clock_now s1) ks e a)\<rparr>"
    have "run_state (GetOrLoad c key) s = (Return (Inr (Value e)), ?t)"
      using e(1,2,6) by (intro get) (simp add: run_installL1 [OF c(1)])
    then show ?thesis using e s(1) installed False by (intro that [of e ?t]) (auto simp: Fresh_def)
  qed
qed

section \<open>Calls and sleeps on the fleet\<close>

text \<open>Versions that leave room for \<open>n\<close> more writes.\<close>

definition room_for :: "nat \<Rightarrow> 'v vstore \<Rightarrow> bool" where
  "room_for n b \<longleftrightarrow> unat (vseed b) + n < 2 ^ 53 \<and> (\<forall>k. unat (cell_version (cells b k)) + n < 2 ^ 53) \<and> (\<forall>t. distinct (tagged b t))"

lemma room_for_roomy: "room_for n b \<Longrightarrow> roomy b"
  by (auto simp: room_for_def roomy_def word_less_nat_alt intro: le_less_trans [OF le_add1])

lemma unat_inc: "unat (v + 1) \<le> Suc (unat v)" for v :: u64
  by (simp add: unat_word_ariths mod_less_eq_dividend order_trans [OF mod_less_eq_dividend])

lemma room_for_less: "room_for (Suc n) b \<Longrightarrow> l2_post t K b b' \<Longrightarrow> room_for n b'"
proof -
  assume r: "room_for (Suc n) b" and p: "l2_post t K b b'"
  have "unat (cell_version (cells b' k)) + n < 2 ^ 53" for k
  proof (cases "cells b' k = cells b k")
    case True
    have "unat (cell_version (cells b k)) + Suc n < 2 ^ 53" using r by (simp add: room_for_def)
    then show ?thesis using True by simp
  next
    case False
    then have "cell_version (cells b' k) = vs_next b k" using p unfolding l2_post_def by blast
    moreover have "unat (vs_next b k) \<le> max (unat (vseed b)) (Suc (unat (cell_version (cells b k))))"
      using unat_inc [of "cell_version (cells b k)"] by (cases "cells b k") (auto simp: vs_next_def)
    moreover have "unat (vseed b) + Suc n < 2 ^ 53" "unat (cell_version (cells b k)) + Suc n < 2 ^ 53" using r by (simp_all add: room_for_def)
    ultimately show ?thesis by (auto simp: max_def split: if_splits)
  qed
  then show "room_for n b'" using r p by (simp add: room_for_def l2_post_def)
qed

text \<open>A call leaves room and the invariant.\<close>

lemma call_kept:
  assumes "member h (C i)" "apart C" "fleet_inv h cap C f" "\<not> is_event call" "room_for (Suc n) (fl_l2 f)"
  shows "fleet_inv h cap C (on_node (C i) i call f)" "room_for n (fl_l2 (on_node (C i) i call f))"
proof -
  have r: "roomy (fl_l2 f)" by (rule room_for_roomy [OF assms(5)])
  show "fleet_inv h cap C (on_node (C i) i call f)" by (rule call_inv [OF assms(1-4) r])
  let ?s = "(fl_node f i)\<lparr>l2_st := fl_l2 f, clock_now := fl_now f, outbox := []\<rparr>"
  have "node_ok h cap ?s" using assms(3) r by (simp add: node_ok_def fleet_inv_def)
  from cache_do_post [OF assms(1) this assms(4)] show "room_for n (fl_l2 (on_node (C i) i call f))"
    using room_for_less [OF assms(5)] by (auto simp: node_post_def on_node_def at_node_def split_beta Let_def)
qed

text \<open>What happens while the program sleeps: events are delivered and time passes.\<close>

inductive idle_step :: "(nat \<Rightarrow> ('k, 'v::zero, 'v memcache, 'v vstore, 'r) cache) \<Rightarrow> ('v, 'r) fleet \<Rightarrow> ('v, 'r) fleet \<Rightarrow> bool"
  for C where
  Idle_Deliver: "ev \<in> set (fl_log f) \<Longrightarrow> idle_step C f (deliver (C i) i ev f)"
| Idle_Time: "fl_now f \<le> t \<Longrightarrow> vseed (fl_l2 f) \<le> sd \<Longrightarrow> idle_step C f (f\<lparr>fl_now := t, fl_l2 := (fl_l2 f)\<lparr>vclock := t', vseed := sd\<rparr>\<rparr>)"

text \<open>
  What stays: the shared store, the log, the instances that are open; an instance holds nothing new, and
  not the key of an event that it has received.
\<close>

definition calm :: "(gokey \<Rightarrow> u64) \<Rightarrow> int \<Rightarrow> (nat \<Rightarrow> ('k, 'v::zero, 'v memcache, 'v vstore, 'r) cache) \<Rightarrow> event \<Rightarrow> gokey \<Rightarrow>
    ('v, 'r) fleet \<Rightarrow> ('v, 'r) fleet \<Rightarrow> bool" where
  "calm h cap C ev k f f' \<longleftrightarrow> fleet_inv h cap C f' \<and> cells (fl_l2 f') = cells (fl_l2 f)
     \<and> fl_log f' = fl_log f \<and> fl_now f \<le> fl_now f' \<and> (\<forall>i. fl_got f i \<subseteq> fl_got f' i)
     \<and> (\<forall>i. closed (fl_node f' i) = closed (fl_node f i) \<and> loads (stats (fl_node f' i)) = loads (stats (fl_node f i))
          \<and> mem_held h (l1_st (fl_node f' i)) \<subseteq>\<^sub>m mem_held h (l1_st (fl_node f i))
          \<and> (ID ev \<in> fl_got f' i \<longrightarrow> ID ev \<in> fl_got f i \<or> OriginID ev = originID (C i) \<or> closed (fl_node f i)
               \<or> mem_held h (l1_st (fl_node f' i)) k = None))"

lemma calm_refl: "fleet_inv h cap C f \<Longrightarrow> calm h cap C ev k f f"
  by (simp add: calm_def)

lemma map_le_None: "m \<subseteq>\<^sub>m n \<Longrightarrow> n k = None \<Longrightarrow> m k = None"
  by (metis domIff map_le_def)

lemma calm_trans: "calm h cap C ev k f g \<Longrightarrow> calm h cap C ev k g g' \<Longrightarrow> calm h cap C ev k f g'"
proof -
  assume a: "calm h cap C ev k f g" and b: "calm h cap C ev k g g'"
  have "closed (fl_node g' i) = closed (fl_node f i) \<and> loads (stats (fl_node g' i)) = loads (stats (fl_node f i))
      \<and> mem_held h (l1_st (fl_node g' i)) \<subseteq>\<^sub>m mem_held h (l1_st (fl_node f i))
      \<and> (ID ev \<in> fl_got g' i \<longrightarrow> ID ev \<in> fl_got f i \<or> OriginID ev = originID (C i) \<or> closed (fl_node f i)
           \<or> mem_held h (l1_st (fl_node g' i)) k = None)" for i
    using a b map_le_trans [of "mem_held h (l1_st (fl_node g' i))"] map_le_None [of "mem_held h (l1_st (fl_node g' i))"]
    unfolding calm_def by metis
  moreover have "fl_got f i \<subseteq> fl_got g' i" for i using a b unfolding calm_def by (meson order_trans)
  ultimately show "calm h cap C ev k f g'" using a b by (simp add: calm_def)
qed

lemma calm_step:
  assumes C: "\<And>i. member h (C i)" and inv: "fleet_inv h cap C f" and ev: "ev \<in> set (fl_log f)" "Keys ev = [k]" and step: "idle_step C f f'"
  shows "calm h cap C ev k f f'"
  using step
proof cases
  case (Idle_Deliver ev' i)
  obtain s' where s': "deliver (C i) i ev' f = f\<lparr>fl_node := (fl_node f)(i := s'), fl_got := (fl_got f)(i := insert (ID ev') (fl_got f i))\<rparr>"
    "closed s' = closed (fl_node f i)" "loads (stats s') = loads (stats (fl_node f i))"
    "mem_held h (l1_st s') \<subseteq>\<^sub>m mem_held h (l1_st (fl_node f i))"
    "\<And>k e. mem_held h (l1_st s') k = Some e \<Longrightarrow> closed s' \<or> OriginID ev' = originID (C i) \<or> ID ev' \<in> fl_got f i \<or> k \<notin> set (Keys ev')"
    using deliver_effect [OF C [of i] inv, where ev = ev'] by metis
  have "ev' = ev" if "ID ev' = ID ev"
    using inv that ev(1) Idle_Deliver(2) unfolding fleet_inv_def ids_ok_def by (auto simp: distinct_map dest: inj_onD)
  then have "ID ev = ID ev' \<longrightarrow> ID ev \<in> fl_got f i \<or> OriginID ev = originID (C i) \<or> closed (fl_node f i) \<or> mem_held h (l1_st s') k = None"
    using s'(2,5) ev(2) by (cases "mem_held h (l1_st s') k") fastforce+
  then show ?thesis using deliver_inv [OF C inv Idle_Deliver(2), of i] s'(2-4) unfolding Idle_Deliver(1) s'(1) by (auto simp: calm_def)
next
  case (Idle_Time t sd t')
  then show ?thesis using time_inv [OF inv Idle_Time(2,3), of t'] by (simp add: calm_def)
qed

lemma calm_sleep:
  assumes C: "\<And>i. member h (C i)" and inv: "fleet_inv h cap C f" and ev: "ev \<in> set (fl_log f)" "Keys ev = [k]" and run: "(idle_step C)\<^sup>*\<^sup>* f f'"
  shows "calm h cap C ev k f f'"
  using run
proof induction
  case (step g g')
  then have "fleet_inv h cap C g" "fl_log g = fl_log f" by (simp_all add: calm_def)
  then show ?case using calm_trans [OF step.IH] calm_step [OF C _ _ ev(2) step(2)] ev(1) by simp
qed (rule calm_refl [OF inv])

section \<open>Waiting for the eviction\<close>

lemma Get_at_node:
  assumes C: "\<And>i. member h (C i)" "apart C" and inv: "fleet_inv h cap C f" and s: "\<not> closed (fl_node f i)" "roomy (fl_l2 f)" and ks: "ks = keyString (C i) key"
  obtains v ok f' where "at_node i (cache_Get (C i) key) f = ((v, ok, None), f')" "calm h cap C ev k f f'" "fl_now f' = fl_now f" "fl_got f' = fl_got f"
    "ok \<Longrightarrow> mem_held h (l1_st (fl_node f' i)) ks \<noteq> None"
    "\<And>d. \<not> ok \<Longrightarrow> mem_held h (l1_st (fl_node f' i)) ks = Some d \<Longrightarrow> Negative d \<or> Expired d (fl_now f)"
proof -
  let ?s = "(fl_node f i)\<lparr>l2_st := fl_l2 f, clock_now := fl_now f, outbox := []\<rparr>"
  obtain e found err a where g: "mem_Get h (fl_now f) ks (l1_st (fl_node f i)) = ((e, found, err), a)" by (metis prod.collapse)
  have "mem_ok h cap (l1_st (fl_node f i))" using inv by (simp add: fleet_inv_def)
  note law = mem_Get_law [OF this g]
  define ok where "ok \<longleftrightarrow> found \<and> \<not> Expired e (fl_now f) \<and> \<not> Negative e"
  define n where "n = ticks (fl_node f i) + (if found then 3 else 2)"
  define v where "v = (if ok then Value e else 0)"
  have swap: "?s\<lparr>ticks := n, l1_st := a\<rparr> = ?s\<lparr>l1_st := a, ticks := n\<rparr>" by (cases "fl_node f i") simp
  have run: "run_state (cache_Get (C i) key) ?s = ((v, ok, None), ?s\<lparr>l1_st := a, ticks := n\<rparr>)"
  proof (cases found)
    case True
    then show ?thesis using s(1) g law by (simp add: cache_Get_def run_alone [OF memberD(1) [OF C(1)]] memberD(2) [OF C(1)] memory_ops_def ks [symmetric]
          ok_def v_def n_def numeral_eq_Suc)
  next
    case False
    then show ?thesis using s(1) g law unfolding swap [symmetric] by (simp add: cache_Get_def run_alone [OF memberD(1) [OF C(1)]] memberD(2) [OF C(1)]
          memory_ops_def ks [symmetric] ok_def v_def n_def numeral_eq_Suc)
  qed
  define f' where "f' = f\<lparr>fl_node := (fl_node f)(i := ?s\<lparr>l1_st := a, ticks := n\<rparr>)\<rparr>"
  have at: "at_node i (cache_Get (C i) key) f = ((v, ok, None), f')" using at_nodeI [OF run] by (simp add: f'_def)
  have "on_node (C i) i (CGet key) f = f'" by (simp add: on_node_def at_node_def run f'_def)
  then have "fleet_inv h cap C f'" using call_inv [OF C(1) [of i] C(2) inv _ s(2), of "CGet key"] by simp
  then have "calm h cap C ev k f f'" using law by (simp add: calm_def f'_def)
  then show ?thesis by (rule that [OF at]) (use law in \<open>auto simp: f'_def ok_def map_le_def dom_def split: if_splits\<close>)
qed

section \<open>The instances\<close>

lemmas redisbus_config_defs = redisbus_config_def Builder_TTL_def Builder_Bus_def Builder_L2_def Builder_L1_def NewBuilder_def

lemma redisbus_config_simps:
  "cfg_loader (redisbus_config mem ld L2) = Some ld" "cfg_l1 (redisbus_config mem ld L2) = mem" "cfg_l2 (redisbus_config mem ld L2) = Some L2"
  "cfg_keyString (redisbus_config mem ld L2) = None" "cfg_fresh (redisbus_config mem ld L2) = 30 * Second"
  "cfg_staleWindow (redisbus_config mem ld L2) = 5 * Minute" "cfg_maxTTL (redisbus_config mem ld L2) = 0"
  "cfg_jitter (redisbus_config mem ld L2) = Fin 0" "cfg_refreshTimeout (redisbus_config mem ld L2) = 0" "cfg_negTTL (redisbus_config mem ld L2) = 0"
  by (simp_all add: redisbus_config_defs)

lemma redisbus_config_good: "tombstones_last L2 \<Longrightarrow> \<not> config_bad (redisbus_config mem ld L2)"
  by (auto simp: config_bad_guards redisbus_config_simps tombstones_last_def effective_timeout_def duration_defs)

text \<open>The start-up makes both instances at the address of the environment, or at the default one.\<close>

lemma redisbus_started:
  assumes rt: "\<And>i. service_runtime h (rt i)" and L2: "dial (if getenv ''REDIS_ADDR'' = [] then ''localhost:6379'' else getenv ''REDIS_ADDR'') = Inr L2" "tombstones_last L2"
  obtains D where "redisbus_start dial (memory_value h) rt b0 getenv ld = Some (Inr D)" "l2 (fst (D 0)) = Some L2" "l2 (fst (D 1)) = Some L2"
    "\<not> closed (snd (D 0))" "\<not> closed (snd (D 1))"
proof -
  let ?addr = "bus_envOr getenv ''REDIS_ADDR'' ''localhost:6379''"
  have "\<exists>cs. newInstance dial (memory_value h) (rt i) b0 ?addr (ld i) = Some (Inr cs) \<and> l2 (fst cs) = Some L2 \<and> \<not> closed (snd cs)" for i
    by (rule built_instance [OF rt redisbus_config_good [OF L2(2)], of "memory_value h" "ld i" L2 "ld i" i b0])
      (use L2(1) in \<open>auto simp: redisbus_config_simps newInstance_def bus_envOr_def\<close>)
  then obtain D where "\<And>i. newInstance dial (memory_value h) (rt i) b0 ?addr (ld i) = Some (Inr (D i))" "\<And>i. l2 (fst (D i)) = Some L2"
    "\<And>i. \<not> closed (snd (D i))" by metis
  then show ?thesis by (intro that [of "\<lambda>i. if i = 0 then D 0 else D 1"]) (simp_all add: redisbus_start_def Let_def del: One_nat_def)
qed

lemma newInstance_built:
  assumes "newInstance dial (memory_value h) rt b addr ld = Some (Inr cs)" "dial addr = Inr L2"
  shows "Build rt b (redisbus_config (memory_value h) ld L2) = Some (Inr cs)"
  using assms by (auto simp: newInstance_def split: option.splits sum.splits)

text \<open>A read through instance \<open>i\<close>, which holds nothing at the key.\<close>

lemma read_through:
  assumes C: "\<And>i. member h (C i)" "apart C" and inv: "fleet_inv h cap C f" "room_for (Suc n) (fl_l2 f)"
    and i: "xsf_Do (C i) = sf_alone" "lasting 1 (C i)" "0 \<le> staleWindow (C i)" "\<And>v. \<not> is_nil (C i) v" "\<not> closed (fl_node f i)" "\<And>t. \<exists>v. loader (C i) key t = Inr v"
    and ks: "ks = keyString (C i) key" "mem_held h (l1_st (fl_node f i)) ks = None"
  obtains e f' where "at_node i (GetOrLoad (C i) key) f = (Return (Inr (Value e)), f')" "cells (fl_l2 f') ks = Live e" "Fresh e (fl_now f)"
    "\<And>d. mem_held h (l1_st (fl_node f' i)) ks = Some d \<Longrightarrow> d = e" "\<not> closed (fl_node f' i)" "cells (fl_l2 f) ks \<noteq> Live e \<Longrightarrow> \<not> Negative e"
    "fresh_live (fl_l2 f) ks (fl_now f) \<Longrightarrow> cells (fl_l2 f) ks = Live e \<and> loads (stats (fl_node f' i)) = loads (stats (fl_node f i))"
    "fleet_inv h cap C f'" "room_for n (fl_l2 f')" "fl_now f' = fl_now f" "\<And>j. j \<noteq> i \<Longrightarrow> fl_node f' j = fl_node f j"
proof -
  let ?s = "(fl_node f i)\<lparr>l2_st := fl_l2 f, clock_now := fl_now f, outbox := []\<rparr>"
  have s: "\<not> closed ?s" "mem_ok h cap (l1_st ?s)" "mem_held h (l1_st ?s) ks = None" using i(5) ks(2) inv(1) by (simp_all add: fleet_inv_def)
  obtain e s' where e: "run_state (GetOrLoad (C i) key) ?s = (Return (Inr (Value e)), s')" "cells (l2_st s') ks = Live e" "Fresh e (fl_now f)"
    "\<And>d. mem_held h (l1_st s') ks = Some d \<Longrightarrow> d = e" "\<not> closed s'" "cells (fl_l2 f) ks \<noteq> Live e \<Longrightarrow> \<not> Negative e"
    "fresh_live (fl_l2 f) ks (fl_now f) \<Longrightarrow> cells (fl_l2 f) ks = Live e \<and> loads (stats s') = loads (stats (fl_node f i))"
    by (rule GetOrLoad_warms [OF C(1) [of i] i(1-4) s ks(1) i(6)]) simp
  define f' where "f' = f\<lparr>fl_l2 := l2_st s', fl_node := (fl_node f)(i := s'), fl_log := fl_log f @ outbox s'\<rparr>"
  have at: "at_node i (GetOrLoad (C i) key) f = (Return (Inr (Value e)), f')" unfolding f'_def by (rule at_nodeI [OF e(1)])
  have "on_node (C i) i (CGetOrLoad key) f = f'" by (simp add: on_node_def at_node_def e(1) f'_def)
  then have "fleet_inv h cap C f'" "room_for n (fl_l2 f')" using call_kept [OF C(1) [of i] C(2) inv(1) _ inv(2), of "CGetOrLoad key"] by simp_all
  then show ?thesis by (intro that [OF at]) (use e in \<open>simp_all add: f'_def\<close>)
qed

lemma onEvent_silent:
  assumes "env c = quiet" shows "outbox (snd (run_state (onEvent c ev) s)) = outbox s"
proof -
  have loop: "outbox (snd (run_state (for_each ks (bus_evict c)) s)) = outbox s" for ks s
    by (induction ks arbitrary: s) (simp_all add: bus_evict_def run_alone [OF assms] split_beta)
  then show ?thesis by (simp add: onEvent_def run_alone [OF assms] dedupe_Seen_def split_beta Let_def loop split: option.split)
qed

lemma deliver_frame:
  assumes "env c = quiet"
  shows "fl_log (deliver c i ev f) = fl_log f" "fl_now (deliver c i ev f) = fl_now f" "fl_got (deliver c i ev f) i = insert (ID ev) (fl_got f i)"
  using onEvent_silent [OF assms, of ev] by (simp_all add: deliver_def on_node_def at_node_def split_beta Let_def)

lemma close_loads:
  assumes "\<And>i. env (C i) = quiet"
  shows "loads (stats (fl_node (close_both C f) i)) = loads (stats (fl_node f i))"
proof -
  have "stats (snd (run_state (cache_Close (C j)) s)) = stats s" for j s
    by (simp add: cache_Close_def run_alone [OF assms] split: prod.split)
  then show ?thesis by (simp add: close_both_def on_node_def at_node_def split_beta Let_def)
qed

end
