(* ===== verification/Redisbus_Redis.thy ===== *)
theory Redisbus_Redis
  imports Cloudrun_Redis Redisbus
begin

text \<open>
  The Redis bus example over the Redis store, as examples/redisbus/main.go builds it: the program of theory
  \<open>Redisbus\<close> on a fleet over Redis. Each call is followed on the fleet over the abstract store that the one over
  Redis stands for (theory \<open>Fleet_Redis\<close>), where theory \<open>Redisbus\<close> says what it does.
\<close>

section \<open>Calls over Redis\<close>









section \<open>Reading and writing\<close>

lemma over_lasting [simp]: "lasting d (over L2 c) = lasting d c"
  by (simp add: lasting_def fresh_span_def split: float64.split)



section \<open>Sleeping and waiting\<close>





section \<open>The program ends well\<close>













end
