(* ===== verification/Demo_Services.thy ===== *)
theory Demo_Services
  imports Service_Http Cache_Lifecycle
begin

text \<open>
  examples/basic/main.go, the smallest program on the library, and demo/local/main.go, the HTTP service of
  the docker compose demo: its configuration from the environment, the choice of the bus, and the handlers
  of its routes. Connections, the host name and the formatting of times are parameters.
\<close>

section \<open>The basic example\<close>

definition basic_loader :: "string \<Rightarrow> nat \<Rightarrow> go_error + string" where
  "basic_loader i t = Inr (''value-for-'' @ i)"

definition basic_config :: "(string, string, 'a, 'b) config" where
  "basic_config = Builder_TTL Minute 0 (NewBuilder (Some basic_loader))"

text \<open>The loop prints the values it gets; a fatal error or a panic ends the program.\<close>

fun basic_loop :: "(string, string, 'a, 'b, 'r) cache \<Rightarrow> nat \<Rightarrow> ('a, 'b, 'r, string list \<times> exit) prog" where
  "basic_loop c 0 = State_Monad.return ([], Done)"
| "basic_loop c (Suc n) = do {
     r \<leftarrow> GetOrLoad c ''user:42'';
     case r of
       Panic \<Rightarrow> State_Monad.return ([], Crashed)
     | Return (Inl err) \<Rightarrow> State_Monad.return ([], Fatal (Error err))
     | Return (Inr v) \<Rightarrow> do { (out, e) \<leftarrow> basic_loop c n; State_Monad.return (v # out, e) } }"

definition basic_main ::
  "(string, string, 'a, 'b, 'x) runtime \<Rightarrow> 'b \<Rightarrow> (exit \<times> string list \<times> Stats option) option" where
  "basic_main rt b = (case Build rt b basic_config of
       None \<Rightarrow> None
     | Some (Inl err) \<Rightarrow> Some (Fatal (Error err), [], None)
     | Some (Inr (c, s)) \<Rightarrow> Some (fst (run_state (do {
         (out, e) \<leftarrow> basic_loop c 3;
         if e \<noteq> Done then State_Monad.return (e, out, None)
         else do { st \<leftarrow> cache_Stats c; _ \<leftarrow> cache_Close c; State_Monad.return (Done, out, Some st) } }) s)))"

text \<open>A hit keeps the entry, and a miss without an L2 leaves one.\<close>

lemma warm_read:
  assumes c: "env c = quiet" "l1 c = memory_ops h" and s: "\<not> closed s" "mem_ok h cap (l1_st s)"
    and e: "mem_held h (l1_st s) (keyString c key) = Some e" "Fresh e (clock_now s)" "\<not> Expired e (clock_now s)" "\<not> Negative e"
  obtains s' where "run_state (GetOrLoad c key) s = (Return (Inr (Value e)), s')" "\<not> closed s'" "mem_ok h cap (l1_st s')" "clock_now s' = clock_now s"
    "mem_held h (l1_st s') (keyString c key) = Some e" "stats s' = hits_update (\<lambda>n. n + 1) (stats s)"
proof -
  obtain a where g: "mem_Get h (clock_now s) (keyString c key) (l1_st s) = ((e, True, None), a)" using mem_Get_hit [OF s(2) e(1,3)] by blast
  show ?thesis
    by (rule that [of "s\<lparr>ticks := Suc (Suc (Suc (ticks s))), l1_st := a, stats := hits_update (\<lambda>n. n + 1) (stats s)\<rparr>"])
      (use mem_Get_law [OF s(2) g] g s e in \<open>simp_all add: GetOrLoad_def run_alone [OF c(1)] c(2) memory_ops_def Let_def\<close>)
qed

lemma cold_read:
  assumes c: "env c = quiet" "l1 c = memory_ops h" "l2 c = None" "xsf_Do c = sf_alone" "jitter c = Fin 0" "0 < fresh c" "staleWindow c = 0" "maxTTL c = 0" "\<And>v. \<not> is_nil c v"
    and s: "\<not> closed s" "mem_ok h cap (l1_st s)" "mem_held h (l1_st s) (keyString c key) = None" and v: "\<And>t. loader c key t = Inr v"
  obtains s' e where "run_state (GetOrLoad c key) s = (Return (Inr v), s')" "\<not> closed s'" "mem_ok h cap (l1_st s')" "clock_now s' = clock_now s"
    "mem_held h (l1_st s') (keyString c key) = Some e" "Fresh e (clock_now s)" "\<not> Expired e (clock_now s)" "\<not> Negative e" "Value e = v"
    "stats s' = loads_update (\<lambda>n. n + 1) (misses_update (\<lambda>n. n + 1) (stats s))"
proof -
  let ?k = "keyString c key"
  obtain d f err a where g: "mem_Get h (clock_now s) ?k (l1_st s) = ((d, f, err), a)" by (metis prod.collapse)
  have a: "\<not> f" "mem_ok h cap a" using mem_Get_law [OF s(2) g] s(3) by (auto split: if_splits)
  define e where "e = \<lparr>Value = v, Version = 0, StoredAt = clock_now s, FreshUntil = clock_now s + fresh c, StaleUntil = clock_now s + fresh c, Negative = False\<rparr>"
  obtain r b where b: "mem_Set h (clock_now s) ?k e a = (r, b)" by force
  have w: "run_state (window c (clock_now s)) t = ((clock_now s + fresh c, clock_now s + fresh c), t)" for t using c(5-8) by (simp add: window_def Let_def)
  show ?thesis
    by (rule that [of "s\<lparr>stats := loads_update (\<lambda>n. n + 1) (misses_update (\<lambda>n. n + 1) (stats s)), ticks := Suc (Suc (Suc (Suc (Suc (Suc (ticks s)))))), l1_st := b\<rparr>" e])
      (use mem_Set_law [OF a(2) b] g a b c(6) s(1) v in \<open>simp_all add: GetOrLoad_def run_alone [OF c(1)] c(2-4,9) memory_ops_def Let_def
        sf_Do_def sf_alone_def fill_def fill_local_def valueEntry_def w to_any_def e_def Fresh_def Expired_def\<close>)
qed

text \<open>
  The basic example loads once. The program returns and prints the value three times; the origin was
  asked once, on the first read, and the other two were answered from L1, as the printed statistics say.
\<close>

theorem basic_loads_once:
  fixes rt :: "(string, string, string memcache, 'b, 'x) runtime"
  assumes rt: "service_runtime h rt"
  shows "\<exists>st. basic_main rt b = Some (Done, replicate 3 ''value-for-user:42'', Some st)
    \<and> loads st = 1 \<and> misses st = 1 \<and> hits st = 2 \<and> loadErrors st = 0"
proof -
  obtain m :: "string memcache" where m: "mem_New [] = Some m" "rt_memory rt = Some (memory_ops h, m)"
    using memory_value_Some [of h] rt by (auto simp: service_runtime_def)
  define c where "c = new_cache rt basic_config basic_loader (memory_ops h)"
  define s where "s = new_state rt basic_config m b (new_refresher (basic_config :: (string, string, string memcache, 'b) config) (effective_timeout 0))"
  have "\<not> config_bad (basic_config :: (string, string, string memcache, 'b) config)"
    "cfg_l1 (basic_config :: (string, string, string memcache, 'b) config) = None"
    "cfg_loader (basic_config :: (string, string, string memcache, 'b) config) = Some basic_loader"
    "cfg_refreshTimeout (basic_config :: (string, string, string memcache, 'b) config) = 0"
    by (simp_all add: config_bad_guards basic_config_def Builder_TTL_def NewBuilder_def duration_defs)
  then have b: "Build rt b basic_config = Some (Inr (c, s))"
    using Build_outcome [OF m(2), of basic_config b] by (simp add: c_def s_def)
  have c: "env c = quiet" "l1 c = memory_ops h" "l2 c = None" "xsf_Do c = sf_alone" "jitter c = Fin 0" "0 < fresh c" "staleWindow c = 0" "maxTTL c = 0"
    "\<And>v. \<not> is_nil c v" "keyString c = id" "\<And>t. loader c ''user:42'' t = Inr ''value-for-user:42''"
    using rt by (simp_all add: c_def new_cache_def service_runtime_def basic_config_def Builder_TTL_def NewBuilder_def duration_defs basic_loader_def fun_eq_iff)
  have s: "\<not> closed s" "mem_ok h 625 (l1_st s)" "mem_held h (l1_st s) (keyString c ''user:42'') = None" "stats s = zero_counters" "\<not> closeDone s"
    using default_store [OF m(1), of h] by (simp_all add: s_def new_state_def)
  obtain s1 e where s1: "run_state (GetOrLoad c ''user:42'') s = (Return (Inr ''value-for-user:42''), s1)" "\<not> closed s1" "mem_ok h 625 (l1_st s1)"
    "clock_now s1 = clock_now s" "mem_held h (l1_st s1) (keyString c ''user:42'') = Some e" "stats s1 = loads_update (\<lambda>n. n + 1) (misses_update (\<lambda>n. n + 1) (stats s))"
    and e: "Fresh e (clock_now s)" "\<not> Expired e (clock_now s)" "\<not> Negative e" "Value e = ''value-for-user:42''"
    by (rule cold_read [OF c(1-9) s(1-3) c(11)])
  obtain s2 where s2: "run_state (GetOrLoad c ''user:42'') s1 = (Return (Inr (Value e)), s2)" "\<not> closed s2" "mem_ok h 625 (l1_st s2)" "clock_now s2 = clock_now s1"
    "mem_held h (l1_st s2) (keyString c ''user:42'') = Some e" "stats s2 = hits_update (\<lambda>n. n + 1) (stats s1)"
    by (rule warm_read [OF c(1,2) s1(2,3,5)]) (use e s1(4) in simp_all)
  obtain s3 where s3: "run_state (GetOrLoad c ''user:42'') s2 = (Return (Inr (Value e)), s3)" "stats s3 = hits_update (\<lambda>n. n + 1) (stats s2)"
    by (rule warm_read [OF c(1,2) s2(2,3,5)]) (use e s1(4) s2(4) in simp_all)
  have "run_state (basic_loop c 3) s = ((replicate 3 ''value-for-user:42'', Done), s3)"
    using s1(1) s2(1) s3(1) e(4) by (simp add: numeral_3_eq_3)
  then show ?thesis
    using b s(4) s1(6) s2(6) s3(2) by (auto simp: basic_main_def cache_Stats_def c(2) memory_ops_def run_alone [OF c(1)] counters.extend_def zero_counters_def split_beta)
qed

theorem basic_loads_once_witness:
  "\<exists>st. basic_main (demo_service_rt 0) vs_empty = Some (Done, replicate 3 ''value-for-user:42'', Some st) \<and> loads st = 1 \<and> hits st = 2"
  using basic_loads_once [OF demo_service_runtime, of 0 vs_empty] by blast

section \<open>The demo service\<close>

definition demo_env :: "(string \<Rightarrow> string) \<Rightarrow> string \<Rightarrow> string \<Rightarrow> string" where
  "demo_env getenv k dflt = (if getenv k \<noteq> [] then getenv k else dflt)"

definition orDefault :: "string \<Rightarrow> string \<Rightarrow> string" where
  "orDefault v dflt = (if v = [] then dflt else v)"

definition hostname :: "go_error + string \<Rightarrow> string" where
  "hostname os_Hostname = (case os_Hostname of Inl _ \<Rightarrow> ''unknown'' | Inr x \<Rightarrow> x)"

definition errStr :: "go_error option \<Rightarrow> string" where
  "errStr err = (case err of None \<Rightarrow> [] | Some e \<Rightarrow> Error e)"

definition demo_writeJSON :: "(string \<times> field) list \<Rightarrow> response" where
  "demo_writeJSON v = json_response v"

text \<open>\<open>stamp t\<close> is the formatted time of the load at tick \<open>t\<close>.\<close>

definition demo_loader :: "string \<Rightarrow> (nat \<Rightarrow> string) \<Rightarrow> string \<Rightarrow> nat \<Rightarrow> go_error + string" where
  "demo_loader inst stamp k t = Inr (''origin('' @ k @ '') loaded by '' @ inst @ '' at '' @ stamp t)"

record ('g, 'b) demo_world =
  dw_redis :: "string \<Rightarrow> go_error + ('b, string) l2_ops"
  dw_pubsub :: "string \<Rightarrow> go_error + 'g pubsub"
  dw_hostname :: "go_error + string"
  dw_stamp :: "nat \<Rightarrow> string"
  dw_random :: "8 word list"

text \<open>The bus: none without the emulator.\<close>

definition demo_new_bus ::
  "('g, 'b) demo_world \<Rightarrow> (string \<Rightarrow> string) \<Rightarrow> ('g, string + gcp_bus option) state" where
  "demo_new_bus w getenv = (if getenv ''PUBSUB_EMULATOR_HOST'' = [] then State_Monad.return (Inr None)
     else case dw_pubsub w (demo_env getenv ''PUBSUB_PROJECT_ID'' ''nimbus-demo'') of
         Inl err \<Rightarrow> State_Monad.return (Inl (''connect pubsub: '' @ Error err))
       | Inr psClient \<Rightarrow> do {
           r \<leftarrow> gcp_New psClient (dw_random w) (demo_env getenv ''PUBSUB_TOPIC'' ''nimbus-demo-invalidations'') [WithSubscriptionTTL 0];
           State_Monad.return (case r of
               Inl err \<Rightarrow> Inl (''create pubsub bus: '' @ Error err)
             | Inr b \<Rightarrow> Inr (Some b)) })"

definition demo_local_config ::
  "(('a, string) l1_ops \<times> 'a) option \<Rightarrow> ('b, string) l2_ops \<Rightarrow> (string \<Rightarrow> nat \<Rightarrow> go_error + string) \<Rightarrow> gcp_bus option \<Rightarrow>
    (string, string, 'a, 'b) config" where
  "demo_local_config mem L2 ld b =
     (let builder = Builder_TTL (30 * Second) (60 * Second) (Builder_L2 (Some L2) (Builder_L1 mem (NewBuilder (Some ld))))
      in case b of None \<Rightarrow> builder | Some _ \<Rightarrow> Builder_Bus RealBus builder)"

definition demo_local_start ::
  "('g, 'b) demo_world \<Rightarrow> (string \<Rightarrow> string) \<Rightarrow> (('a, string) l1_ops \<times> 'a) option \<Rightarrow> (string, string, 'a, 'b, 'x) runtime \<Rightarrow> 'b \<Rightarrow>
    ('g, (string + gcp_bus option \<times> string \<times> (string, string, 'a, 'b, string refresher_value) cache \<times> ('a, 'b, string refresher_value) cstate) option) state" where
  "demo_local_start w getenv mem rt b0 =
     (let inst = demo_env getenv ''INSTANCE_ID'' (hostname (dw_hostname w))
      in case dw_redis w (demo_env getenv ''REDIS_ADDR'' ''localhost:6379'') of
           Inl err \<Rightarrow> State_Monad.return (Some (Inl (''connect redis: '' @ Error err)))
         | Inr L2 \<Rightarrow> do {
             r \<leftarrow> demo_new_bus w getenv;
             State_Monad.return (case r of
                 Inl m \<Rightarrow> Some (Inl m)
               | Inr b \<Rightarrow> (case Build rt b0 (demo_local_config mem L2 (demo_loader inst (dw_stamp w)) b) of
                     None \<Rightarrow> None
                   | Some (Inl err) \<Rightarrow> Some (Inl (''build cache: '' @ Error err))
                   | Some (Inr (c, s)) \<Rightarrow> Some (Inr (b, inst, c, s)))) })"

text \<open>The handlers, on the query parameters of the request; the zero value comes with an error.\<close>

definition demo_get_handler ::
  "string \<Rightarrow> (string, string, 'a, 'b, 'r) cache \<Rightarrow> (string \<Rightarrow> string) \<Rightarrow> ('a, 'b, 'r, response option) prog" where
  "demo_get_handler inst c query = do {
     let k = orDefault (query ''key'') ''demo'';
     start \<leftarrow> Now c;
     r \<leftarrow> GetOrLoad c k;
     end_time \<leftarrow> Now c;
     State_Monad.return (case r of
         Panic \<Rightarrow> None
       | Return x \<Rightarrow> Some (demo_writeJSON [(''instance'', FString inst), (''key'', FString k),
           (''value'', FString (case x of Inl _ \<Rightarrow> [] | Inr v \<Rightarrow> v)),
           (''took_ms'', FInt (go_div (end_time - start) Millisecond)),
           (''error'', FString (errStr (case x of Inl err \<Rightarrow> Some err | Inr _ \<Rightarrow> None)))])) }"

definition demo_set_handler ::
  "string \<Rightarrow> (string, string, 'a, 'b, 'r) cache \<Rightarrow> (string \<Rightarrow> string) \<Rightarrow> ('a, 'b, 'r, response option) prog" where
  "demo_set_handler inst c query = do {
     let k = orDefault (query ''key'') ''demo'';
     let v = query ''value'';
     err \<leftarrow> cache_Set c k v [];
     State_Monad.return (Some (demo_writeJSON [(''instance'', FString inst), (''key'', FString k), (''set'', FString v), (''error'', FString (errStr err))])) }"

definition demo_invalidate_handler ::
  "string \<Rightarrow> (string, string, 'a, 'b, 'r) cache \<Rightarrow> (string \<Rightarrow> string) \<Rightarrow> ('a, 'b, 'r, response option) prog" where
  "demo_invalidate_handler inst c query = do {
     let k = orDefault (query ''key'') ''demo'';
     err \<leftarrow> Invalidate c k;
     State_Monad.return (Some (demo_writeJSON [(''instance'', FString inst), (''key'', FString k), (''invalidated'', FBool True), (''error'', FString (errStr err))])) }"

definition demo_stats_handler ::
  "string \<Rightarrow> (string, string, 'a, 'b, 'r) cache \<Rightarrow> ('a, 'b, 'r, response option) prog" where
  "demo_stats_handler inst c = do {
     st \<leftarrow> cache_Stats c;
     State_Monad.return (Some (demo_writeJSON [(''instance'', FString inst), (''stats'', FStats st)])) }"

definition demo_healthz_handler :: response where
  "demo_healthz_handler = http_Write ''ok''"

text \<open>The routes; \<open>query\<close> is \<open>r.URL.Query().Get\<close>, which is empty for a parameter that is not there.\<close>

definition demo_serve ::
  "string \<Rightarrow> (string, string, 'a, 'b, 'r) cache \<Rightarrow> (string \<Rightarrow> string) \<Rightarrow> http_request \<Rightarrow> ('a, 'b, 'r, response option) prog" where
  "demo_serve inst c query r =
     (if Segments r = [''get''] then (if is_get r then demo_get_handler inst c query else not_allowed)
      else if Segments r = [''set''] then (if Method r = ''POST'' then demo_set_handler inst c query else not_allowed)
      else if Segments r = [''invalidate''] then (if Method r = ''POST'' then demo_invalidate_handler inst c query else not_allowed)
      else if Segments r = [''stats''] then (if is_get r then demo_stats_handler inst c else not_allowed)
      else if Segments r = [''healthz''] then (if is_get r then State_Monad.return (Some demo_healthz_handler) else not_allowed)
      else State_Monad.return (Some http_NotFound))"

fun demo_serve_all ::
  "string \<Rightarrow> (string, string, 'a, 'b, 'r) cache \<Rightarrow> ((string \<Rightarrow> string) \<times> http_request) list \<Rightarrow> ('a, 'b, 'r, response option list) prog" where
  "demo_serve_all inst c [] = State_Monad.return []"
| "demo_serve_all inst c ((query, r) # rest) = do {
     x \<leftarrow> demo_serve inst c query r;
     xs \<leftarrow> demo_serve_all inst c rest;
     State_Monad.return (x # xs) }"

text \<open>
  The program: it serves the requests that come until \<open>ListenAndServe\<close> fails with \<open>err\<close>, and \<open>log.Fatal\<close> ends the
  process. With the exit and the responses goes the cache as it was left.
\<close>

definition demo_local_main ::
  "('g, 'b) demo_world \<Rightarrow> (string \<Rightarrow> string) \<Rightarrow> (('a, string) l1_ops \<times> 'a) option \<Rightarrow> (string, string, 'a, 'b, 'x) runtime \<Rightarrow> 'b \<Rightarrow>
    ((string \<Rightarrow> string) \<times> http_request) list \<Rightarrow> go_error \<Rightarrow>
    ('g, (exit \<times> response option list \<times> ('a, 'b, string refresher_value) cstate option) option) state" where
  "demo_local_main w getenv mem rt b0 reqs err = do {
     r \<leftarrow> demo_local_start w getenv mem rt b0;
     State_Monad.return (case r of
         None \<Rightarrow> None
       | Some (Inl m) \<Rightarrow> Some (Fatal m, [], None)
       | Some (Inr (b, inst, c, s)) \<Rightarrow>
           (case run_state (demo_serve_all inst c reqs) s of
              (answers, s') \<Rightarrow> Some (Fatal (Error err), answers, Some s'))) }"

text \<open>The subscription on the emulator asks for no expiration policy.\<close>

lemma demo_bus_never_expires:
  assumes "run_state (demo_new_bus w getenv) g = (Inr (Some b), g')"
  shows "ExpirationTtl (subscription_request cl b) = None"
  using assms by (auto simp: demo_new_bus_def gcp_New_def WithSubscriptionTTL_def subscription_request_def Let_def
      split: if_splits sum.splits option.splits prod.splits)

text \<open>The builder accepts the configuration; without the emulator the cache does not subscribe.\<close>

lemma demo_local_config_good: "tombstones_last L2 \<Longrightarrow> \<not> config_bad (demo_local_config mem L2 ld b)"
  by (auto simp: config_bad_guards demo_local_config_def Builder_TTL_def Builder_Bus_def Builder_L2_def Builder_L1_def NewBuilder_def
      tombstones_last_def effective_timeout_def duration_defs Let_def split: option.splits)

text \<open>The error field of a response is empty exactly if the cache succeeded (or failed with an empty text).\<close>

lemma errStr_empty: "errStr err = [] \<longleftrightarrow> err = None \<or> err = Some (ErrMsg [])"
proof -
  have "Error e = [] \<longleftrightarrow> e = ErrMsg []" for e by (cases e) simp_all
  then show ?thesis by (auto simp: errStr_def split: option.split)
qed

section \<open>The deferred calls of the demo service\<close>

lemma demo_serve_lives:
  assumes u: "undisturbed P c"
  shows "lives P (demo_serve inst c query r)"
  unfolding demo_serve_def demo_get_handler_def demo_set_handler_def demo_invalidate_handler_def demo_stats_handler_def not_allowed_def
  by (intro lives_rules lives_methods [OF u] lives_calls [OF u])

lemma demo_serve_all_lives: "undisturbed P c \<Longrightarrow> lives P (demo_serve_all inst c reqs)"
proof (induction reqs)
  case (Cons q reqs)
  then show ?case by (cases q) (auto intro!: lives_rules demo_serve_lives)
qed (auto intro: lives_rules)

lemma Build_lifecycle:
  assumes "service_runtime h rt" "Build rt b cfg = Some (Inr (c, s))"
  shows "undisturbed P c" "lifecycle s = (False, False, None, cfg_bus cfg \<notin> {NilBus, NopBus})"
  using assms by (auto simp: Build_def Let_def new_cache_def new_state_def lifecycle_def service_runtime_def quiet_undisturbed
      split: option.splits if_splits)

lemma demo_bus_chosen:
  assumes "run_state (demo_new_bus w getenv) g = (Inr b, g')"
  shows "b = None \<longleftrightarrow> getenv ''PUBSUB_EMULATOR_HOST'' = []"
  using assms by (auto simp: demo_new_bus_def split: if_splits sum.splits prod.splits)

text \<open>
  The demo service never closes its cache. However many requests it serves, when the server fails the
  program ends in \<open>log.Fatal\<close>, past the deferred calls: the cache is open, and with the emulator the subscription is
  still there.
\<close>

theorem demo_never_closes:
  assumes rt: "service_runtime h rt"
    and run: "run_state (demo_local_main w getenv mem rt b0 reqs err) g = (Some (x, answers, Some s), g')"
  shows "x = Fatal (Error err) \<and> length answers = length reqs
    \<and> lifecycle s = (False, False, None, getenv ''PUBSUB_EMULATOR_HOST'' \<noteq> [])"
proof -
  obtain b inst c s0 where start: "run_state (demo_local_start w getenv mem rt b0) g = (Some (Inr (b, inst, c, s0)), g')"
    and served: "run_state (demo_serve_all inst c reqs) s0 = (answers, s)" and x: "x = Fatal (Error err)"
    using run by (auto simp: demo_local_main_def split: prod.splits option.splits sum.splits)
  then obtain L2 ld where bus: "run_state (demo_new_bus w getenv) g = (Inr b, g')"
    and built: "Build rt b0 (demo_local_config mem L2 ld b) = Some (Inr (c, s0))"
    by (auto simp: demo_local_start_def Let_def split: prod.splits option.splits sum.splits)
  have "cfg_bus (demo_local_config mem L2 ld b) = (if b = None then NilBus else RealBus)"
    by (simp add: demo_local_config_def Builder_TTL_def Builder_Bus_def Builder_L2_def Builder_L1_def NewBuilder_def Let_def split: option.split)
  then have s0: "lifecycle s0 = (False, False, None, getenv ''PUBSUB_EMULATOR_HOST'' \<noteq> [])"
    using Build_lifecycle(2) [OF rt built] demo_bus_chosen [OF bus] by simp
  then have "lifecycle s = (False, False, None, getenv ''PUBSUB_EMULATOR_HOST'' \<noteq> [])"
    using hoareD [OF demo_serve_all_lives [OF Build_lifecycle(1) [OF rt built, of "(=) (lifecycle s0)"]] _ served] by simp
  moreover have "length (fst (run_state (demo_serve_all inst c reqs) s0)) = length reqs" for s0
    by (induction reqs arbitrary: s0) (auto simp: split_beta)
  ultimately show ?thesis using x served by (metis fst_conv)
qed

end
