(* ===== verification/Spec2Isabelle.thy ===== *)
theory Spec2Isabelle
  imports Fleet_Loads_Redis Cloudrun_Redis Redis_Pubsub Cloudrun_Exit Redisbus_Redis Demo_Services
begin

text \<open>
  Nimbus is a two-tier cache library for Go: an in-process L1 in front of a shared, versioned L2, kept coherent
  between instances by a bus that broadcasts invalidations. This development models the whole library and the
  programs that come with it, and proves the properties that make its parts, and their composition, correct.

  \<^bold>\<open>The program.\<close> A \<open>Cache\<close> (cache.go), put together by a \<open>Builder\<close>
  (builder.go), answers \<open>GetOrLoad\<close> from L1 (store/memory) while the entry is fresh or stale; a stale
  hit hands a revalidation to a refresher (refresh/). A miss goes through singleflight (internal/singleflight) to
  \<open>fill\<close>, which asks the L2 (redisstore), then the loader, and writes back by compare-and-swap on the
  version it read first, so that a fill never overwrites a later write. \<open>Set\<close>,
  \<open>Invalidate\<close> and \<open>InvalidateTag\<close> write to the L2 unconditionally and publish an event on
  the bus (invalidation/: in process, Redis Pub/Sub, Google Pub/Sub by pull or push), and every other instance drops
  the keys of the event from its L1 (\<open>onEvent\<close>). Counters are exported through OpenTelemetry
  (metrics/). Four programs use the library: a service for Cloud Run (examples/cloudrun), two instances over one
  Redis (examples/redisbus), the smallest example (examples/basic) and a demo service (demo/local).

  \<^bold>\<open>How code becomes a definition.\<close> A method that only touches its own data is a function on a
  record (theory \<open>Nimbus_Prelude\<close> says how Go's types are read; its collections and lemmas are shared
  by all). A method that threads state through many calls is a program of the state monad (\<open>Go_Monad\<close>,
  with a small program logic). Goroutines are step relations with one step per statement or critical section
  (\<open>Refresh\<close>, \<open>Invalidation\<close>). Concurrency of the cache is interference: before every call
  that \<open>cache.go\<close> makes on a tier, the clock, the loader or the refresher, the state passes through the
  parameter \<open>env\<close>. Doubles are rationals with explicit rounding (\<open>Go_Float\<close>), decimal
  conversions are the loops of strconv on 64-bit words (\<open>Go_Strconv\<close>). Every error return is a value, a
  panic is \<open>Panic\<close>, and a loop that may not end is a partial function into an option.

  \<^bold>\<open>The theories.\<close>
  \<^item> \<open>Store_Entry\<close>: store/entry.go, errors, internal/clock. \<open>Store_Interfaces\<close>: the
    interfaces of store/store.go as records of operations, and the locale \<open>l1_tier\<close> of what an L1
    promises. \<open>Versioned_Spec\<close>: the abstract store behind \<open>VersionedStore\<close>.
  \<^item> \<open>Lru_Spec\<close>, \<open>Lru_Shard\<close>, \<open>Memory_Store\<close>: store/memory. A shard is
    modelled pointer by pointer over an explicit heap and refines a list with the most recent entry first; the
    sharded store with its options interprets \<open>l1_tier\<close>.
  \<^item> \<open>Redis_Store\<close>: redisstore/redis.go with the codec of store/codec.go, the Lua scripts and
    every method, with commands that the network may lose before or after the server acts and with other clients in
    between. \<open>Redis_Versions\<close>: the locale \<open>redis_server\<close> of documented server behaviour,
    what the scripts do, and the life of a key as an inductive relation. \<open>Redis_Reference\<close>: an
    executable server that satisfies the locale. \<open>Redis_Ops\<close>, \<open>Redis_Tags\<close>: the methods,
    with the locales \<open>redis_scan\<close>, \<open>redis_client\<close> and \<open>redis_quiet\<close> built on
    it.
  \<^item> \<open>Refresh\<close>: the worker pool and the request-bound refresher; both interpret the locale
    \<open>scheduler\<close>.
  \<^item> \<open>Invalidation\<close>: events, the ring of seen IDs, the in-process bus.
    \<open>Redis_Pubsub\<close>, \<open>Gcp_Pubsub\<close>, \<open>Push_Auth\<close>: the buses over a network and
    the authentication of the push endpoint, with the locales \<open>redis_channel\<close> and
    \<open>pubsub_service\<close> for the services.
  \<^item> \<open>Cache_Core\<close>: every method of cache.go over any tiers, bus and refresher.
    \<open>Cache_Fill\<close>, \<open>Cache_Ops\<close>, \<open>Cache_Inval\<close>: what they keep and do.
    \<open>Cache_Lifecycle\<close>: only \<open>Close\<close> ends the life of a cache.
  \<^item> \<open>Builder\<close>: builder.go and loader.go. \<open>Metrics_Export\<close>: metrics/metrics.go.
  \<^item> \<open>Fleet_Node\<close>, \<open>Fleet\<close>, \<open>Fleet_Reads\<close>: no code of their own but the
    composition of the rest, any number of instances over one versioned store and one bus, as an inductive step
    relation: what a method of cache.go does to the shared store, the instance and the bus; the coherence of the
    fleet; what the others read.
  \<^item> \<open>Cache_Sim\<close>, \<open>Redis_Sim\<close>, \<open>Fleet_Redis\<close>: the layers joined. A
    relational logic for the same cache over two stores, with the locale \<open>l2_simulation\<close> of what makes
    one stand for the other; the Redis store on a documented server as an instance of it (locale
    \<open>redis_shared\<close>); and the fleet over Redis, whose steps are simulated by those of the fleet over the
    abstract store.
  \<^item> \<open>Service_Http\<close>: what the programs use of net/http, and fleets of instances built by the
    \<open>Builder\<close>. \<open>Cloudrun\<close>: examples/cloudrun/main.go, start-up, routes and handlers.
    \<open>Cloudrun_Redis\<close>: the service over the Redis store, from the request to the scripts.
    \<open>Cloudrun_Exit\<close>: its shutdown, with requests in flight. \<open>Redisbus\<close>:
    examples/redisbus/main.go, the whole program on a fleet. \<open>Demo_Services\<close>: examples/basic/main.go
    and demo/local/main.go.
  \<^item> This theory: properties that span components.

  \<^bold>\<open>What is shown.\<close>
  \<^item> Coherence: under any interference that keeps it, whatever L1 holds was served, stored or tombstoned by
    the L2 with that value and version (\<open>fill_invariant\<close>). The Redis store refines the abstract
    versioned store (\<open>redis_refines_versioned_spec\<close>), its compare-and-swap is one, versions grow over
    the life of a key across expiries, and a superseded fill is refused; composed with the cache, a fill that lost
    the race caches its value nowhere (\<open>lost_race_adopts_winner\<close>). An invalidation on one instance
    evicts the key on another (\<open>invalidation_reaches_peer\<close>).
  \<^item> Fleets: with methods as steps, a fresh positive entry of an open instance is the entry of the shared
    store or an event that evicts it is under way (\<open>fleet_coherent\<close>), and a write is read by the others
    once its event has arrived (\<open>write_reaches_peer\<close>). Within a method this fails: an eviction that
    arrives between the write and the install of a fill is lost (\<open>late_install\<close>).
  \<^item> Over Redis: a cache over the Redis store does what it does over the abstract store
    (\<open>redis_cache_refines\<close>), so that the coherence of a fleet holds of what Redis returns to a
    \<open>Load\<close> (\<open>redis_fleet_coherent\<close>).
  \<^item> Programs: the Redis bus example ends with its success message if the bus is prompt
    (\<open>redisbus_converges\<close>); an item put on one instance of the Cloud Run service is got on another,
    through Redis (\<open>cloudrun_put_get_redis\<close>); its push endpoint admits only the configured account
    (\<open>cloudrun_push_guarded\<close>); the basic example loads once. Two programs end badly: a signal may cut
    off the requests of the Cloud Run service (\<open>shutdown_not_awaited\<close>;
    \<open>shutdown_may_complete\<close> says that it need not), and the demo service never closes its cache
    (\<open>demo_never_closes\<close>).
  \<^item> Data structures: the shards refine the list, the ring of IDs is a window of the last ones, both
    refreshers run no key twice at a time and stay within their bounds, closing the pool ends and runs what was
    launched, and the deadline of a refresh comes before the end of a tombstone it races with
    (\<open>refresh_within_tombstone\<close>).
  \<^item> Errors: an L2 outage degrades to the loader, a fault of the network between two commands leaves a typed
    keyspace, a tag that cannot be added is reported after the write, a nil interface value panics.
  \<^item> Bounds, termination and round trips: windows of entries, sizes of the store, ack deadlines, rounding of
    the shard count, the scan of a tag, values written and read back, bearer tokens, rendered keys.

  \<^bold>\<open>Bounds and parameters.\<close> No fuel is used. \<open>pow2_loop\<close>, \<open>tag_scan\<close>
  and \<open>evict_loop\<close> are partial functions; the first returns exactly for arguments up to \<open>2 ^
  62\<close>, the second whenever the iteration of the server ends, by its rank in \<open>redis_scan\<close>, the
  third whenever sleeping takes time (\<open>evict_loop_total\<close>). Versions are exact in Lua's doubles below
  \<open>2 ^ 53\<close>, which for the seed of the clock means before the year 2248; the statements carry that
  bound. Code outside the repository is a parameter of the definitions: the Redis server, Pub/Sub,
  \<open>idtoken.Validate\<close>, encoding/json, x/sync/singleflight, crypto/rand and math/rand, maphash, the order
  of a map's iteration, fmt.Sprint, the OpenTelemetry meter, and the loader. What is relied on of them is the
  locales above or a hypothesis of the theorem, and each is satisfied by a concrete instance in a witness.

  \<^bold>\<open>Not modelled.\<close> Cancellation of contexts (a receive loop gets the list of messages it sees
  until then, a refresh the deadline only); the system clock; logging; doc.go, which is a comment. Of net/http the
  routing, the responses and the order of events at a shutdown are modelled, connections are not. The Redis bus
  example runs over the abstract versioned store, for which the Redis store stands by
  \<open>redis_cache_refines\<close>. The simulation leaves out \<open>InvalidateTag\<close>, which takes the keys
  in the order of the server's scan, where the abstract store has one order; its behaviour on Redis is that of
  \<open>redis_tag_invalidated\<close> and of \<open>tag_invalidated\<close> for any order. In the fleets methods
  are not interrupted. The mutexes of the stores are not explicit: each critical section is one step.
\<close>

section \<open>An invalidation reaches the other instances\<close>

lemma Invalidate_publishes:
  assumes "env c = quiet" "bus c" "run_state (Invalidate c key) s = (None, s')"
  shows "\<exists>v t. outbox s' = outbox s @ [key_event c (keyString c key) v t (EncodeToString (crand c (id_draws s)))]"
  using assms by (auto simp: Invalidate_def run_alone [OF assms(1)] Let_def intro!: exI split: if_splits option.splits prod.splits)

text \<open>Hexadecimal IDs are ASCII.\<close>

lemma hex_valid: "to_valid_utf8 (EncodeToString bs) = EncodeToString bs"
proof -
  have "of_char c < (128 :: nat)" if "c \<in> set hextable" for c using that by (auto simp: hextable_def)
  moreover have "set (EncodeToString bs) \<subseteq> set hextable"
  proof -
    have "unat b div 16 < 16" for b :: "8 word" using unsigned_less [of b, where ?'a = nat] by simp
    moreover have "length hextable = 16" by (simp add: hextable_def)
    ultimately have "hextable ! (unat b div 16) \<in> set hextable" "hextable ! (unat b mod 16) \<in> set hextable" for b :: "8 word"
      by (simp_all add: nth_mem)
    then show ?thesis by (auto simp: EncodeToString_def nibbles)
  qed
  ultimately show ?thesis unfolding to_valid_utf8_same by (intro valid_ascii) blast
qed

text \<open>
  C13: An invalidation reaches the other instances. Instance A invalidates a key, successfully; the event
  it hands to its bus is published on Redis without an error and received by instance B, which is
  subscribed with its \<open>onEvent\<close>. Then what B drops from its L1 is the key as encoding/json returns it, and
  nothing else, and the eviction is counted. That is the key itself if and only if the key is valid UTF-8;
  of a key that is not, B keeps its entry. (B must not have seen an event of that ID before. The IDs of events
  and instances are hexadecimal, so JSON leaves them alone.)
\<close>

theorem invalidation_reaches_peer:
  assumes A: "env cA = quiet" "bus cA" "outbox sA = []" "run_state (Invalidate cA key) sA = (None, sA')" "originID cA = EncodeToString idA"
    and wire: "redis_channel cl sent_on" "sent_on g (channel b) = []" "run_state (publish_all cl b (outbox sA')) g = ([None], g')"
    and B: "env cB = quiet" "l1 cB = memory_ops h" "mem_ok h cap (l1_st sB)" "\<not> cstate.closed sB" "originID cB \<noteq> originID cA"
      "dedupe_st sB = Some d" "\<not> fst (Seen (EncodeToString (crand cA (id_draws sA))) d)"
  shows "\<exists>sB'. run_state (redis_Subscribe cl b (onEvent cB) (sent_on g' (channel b)) recvErr) sB = (recvErr, sB')
    \<and> mem_held h (l1_st sB') = (mem_held h (l1_st sB))(to_valid_utf8 (keyString cA key) := None)
    \<and> (to_valid_utf8 (keyString cA key) = keyString cA key \<longleftrightarrow> valid_utf8 (keyString cA key))
    \<and> busEvicts (stats sB') = busEvicts (stats sB) + 1"
proof -
  obtain v t where out: "outbox sA' = [key_event cA (keyString cA key) v t (EncodeToString (crand cA (id_draws sA)))]" (is "_ = [?raw]")
    using Invalidate_publishes [OF A(1,2,4)] A(3) by auto
  let ?ev = "json_event ?raw"
  have ev: "ID ?ev = EncodeToString (crand cA (id_draws sA))" "Keys ?ev = [to_valid_utf8 (keyString cA key)]" "OriginID ?ev = originID cA"
    using hex_valid A(5) by (simp_all add: json_event_def key_event_def)
  obtain d' where d': "Seen (ID ?ev) d = (False, d')" using B(7) ev(1) by (cases "Seen (ID ?ev) d") simp
  obtain a n where run: "run_state (onEvent cB ?ev) sB = ((), sB\<lparr>l1_st := a, ticks := n, dedupe_st := Some d',
      stats := busEvicts_update (\<lambda>x. x + of_nat (length (Keys ?ev))) (stats sB)\<rparr>)"
    "mem_held h a = mem_held h (l1_st sB) |` (- set (Keys ?ev))"
    using onEvent_run [OF B(1,2,3,6) d'] B(4,5) ev(3) by auto
  obtain ms out where ms: "sent_on g' (channel b) = ms" "map (rp_Unmarshal cl) ms = map (Inr \<circ> json_event) out"
    "subseq out [?raw]" "subseq [?raw] out"
    using redis_channel.publish_all_sent [OF wire(1,3)] wire(2) by (auto simp: out)
  have "out = [?raw]" by (rule subseq_order.antisym [OF ms(3,4)])
  have "run_state (redis_Subscribe cl b (onEvent cB) ms recvErr) sB = (recvErr, snd (run_state (onEvent cB ?ev) sB))"
    using concat_decoded [OF ms(2)] \<open>out = [?raw]\<close> by (simp add: redis_Subscribe_def run_for_each_callbacks split_beta)
  then show ?thesis using ms(1) run ev(2) to_valid_utf8_same by (auto simp: restrict_map_def fun_eq_iff)
qed

text \<open>Two instances without an L2 on one Redis channel; the other one, B, holds the key \<open>k\<close>.\<close>

definition demo_peer :: "(string, int, int memcache, int vstore, gokey list) cache" where
  "demo_peer = demo_local\<lparr>originID := ''B''\<rparr>"

theorem invalidation_reaches_peer_witness:
  "\<exists>evs g' sB'. run_state (publish_all ref_pubsub (redis_bus_New ''c'') evs) (\<lambda>_. []) = ([None], g')
     \<and> run_state (redis_Subscribe ref_pubsub (redis_bus_New ''c'') (onEvent demo_peer) (g' ''c'') None)
         ((demo_state vs_empty)\<lparr>l1_st := demo_held 7\<rparr>) = (None, sB')
     \<and> mem_held demo_hash (l1_st sB') ''k'' = None \<and> mem_held demo_hash (demo_held 7) ''k'' \<noteq> None"
proof -
  let ?cA = "demo_local\<lparr>originID := EncodeToString [5]\<rparr>"
  let ?sA = "demo_state vs_empty :: (int memcache, int vstore, gokey list) cstate"
  let ?sB = "?sA\<lparr>l1_st := demo_held 7\<rparr>"
  have a: "env ?cA = quiet" "bus ?cA" "outbox ?sA = []" "originID demo_peer \<noteq> originID ?cA" "keyString ?cA ''k'' = ''k''" "originID ?cA = EncodeToString [5]"
    by (simp_all add: demo_local_def demo_state_def demo_peer_def EncodeToString_def)
  have "fst (run_state (Invalidate ?cA ''k'') ?sA) = None"
    using a(1) by (simp add: Invalidate_def run_alone demo_local_def demo_state_def Let_def split_beta)
  then obtain sA' where inv: "run_state (Invalidate ?cA ''k'') ?sA = (None, sA')" by (metis prod.collapse)
  obtain ev where "outbox sA' = [ev]" using Invalidate_publishes [OF a(1,2) inv] a(3) by auto
  then obtain g' where g': "run_state (publish_all ref_pubsub (redis_bus_New ''c'') (outbox sA')) (\<lambda>_. []) = ([None], g')"
    using ref_publish_all [of "redis_bus_New ''c''" "outbox sA'" "\<lambda>_. []"] by (cases "run_state (publish_all ref_pubsub (redis_bus_New ''c'') (outbox sA')) (\<lambda>_. [])") (simp add: redis_bus_New_def)
  have b: "env demo_peer = quiet" "l1 demo_peer = memory_ops demo_hash" "mem_ok demo_hash 1 (l1_st ?sB)" "\<not> cstate.closed ?sB"
    "dedupe_st ?sB = Some (NewDedupe 4)" "\<not> fst (Seen i (NewDedupe 4))" for i
    by (simp_all add: demo_peer_def demo_local_def demo_held_ok demo_state_def NewDedupe_def Seen_def Let_def)
  have held: "mem_held demo_hash (demo_held 7) ''k'' \<noteq> None"
    using mem_Set_law [OF demo_store_ok [THEN conjunct1] prod.collapse [symmetric]] by (simp add: demo_held_def)
  have k: "valid_utf8 ''k''" by (rule valid_ascii) auto
  obtain sB' where "run_state (redis_Subscribe ref_pubsub (redis_bus_New ''c'') (onEvent demo_peer) (g' ''c'') None) ?sB = (None, sB')"
    "mem_held demo_hash (l1_st sB') ''k'' = None"
    using invalidation_reaches_peer [OF a(1-3) inv a(6) reference_channel.redis_channel_axioms _ g' b(1-4) a(4) b(5,6), of None] a(5) k
    by (auto simp: redis_bus_New_def)
  then show ?thesis using g' held by blast
qed

section \<open>A fill that lost the race\<close>

text \<open>The calls of a fill on the Redis store.\<close>

lemma redis_ops_calls [simp]:
  "l2_Load (redis_ops rc) = (\<lambda>k. run_state (redis_Load rc k))"
  "l2_SetCAS (redis_ops rc) = (\<lambda>k v x fu su ts. run_state (redis_SetCAS rc k v x fu su ts))"
  by (simp_all add: redis_ops_def)

text \<open>
  C6: A fill that lost the race. A cache over the memory store and the Redis store misses, loads its
  value, and finds at the write that the key's version has moved on. Whatever happened to the key, the
  loaded value enters neither tier and Redis is left as the others left it. There are three outcomes. If
  Redis holds a live entry by then, the fill serves that, and L1 holds it afterwards, unless L1 already
  had an unexpired entry of the same or a greater version, in which case L1 is left alone. If Redis holds
  a tombstone or nothing, the fill reports not-found and L1 is left alone. If the second read returns an
  error (a stored value that does not decode), the caller gets the loaded value, which is cached nowhere.
\<close>

theorem lost_race_adopts_winner:
  fixes c :: "('k, 'v::zero, 'v memcache, 'r l2state, 'f) cache"
  assumes server: "redis_server (client rc) obj micros"
    and c: "env c = quiet" "l1 c = memory_ops hf" "l2 c = Some (redis_ops rc)" "mem_ok hf cap (l1_st s)"
    and n: "N = sent (l2_st s)" "net rc N = Reached" "net rc (Suc N) = Reached" "net rc (Suc (Suc N)) = Reached"
    and r: "r0 = world rc N (server (l2_st s))" "r1 = world rc (Suc N) r0" "r2 = world rc (Suc (Suc N)) r1"
    and h0: "as_hash (obj r0 (store_k rc ks)) = Some h0" "versioned h0" "stored_version h0 < 2 ^ 53"
    and h1: "as_hash (obj r1 (store_k rc ks)) = Some h1" "versioned h1" "stored_version h1 < 2 ^ 53"
    and h2: "as_hash (obj r2 (store_k rc ks)) = Some h2"
    and moved: "stored_version h1 \<noteq> stored_version h0"
    and miss: "read_fields (codec rc) h0 = (e0, found0, err0)" "\<not> (found0 \<and> Fresh e0 (clock_now s))"
    and val: "loader c key (ticks s + 3) = Inr val" "Encode (codec rc) val = Inr bs"
    and run: "run_state (fill c key ks) s = (res, s')"
  shows "server (l2_st s') = r2 \<and>
    (case read_fields (codec rc) h2 of (e2, found2, err2) \<Rightarrow>
       if found2 then res = Inr (Value e2)
         \<and> (if \<exists>d. mem_held hf (l1_st s) ks = Some d \<and> \<not> Expired d (clock_now s) \<and> Version e2 \<le> Version d
            then l1_st s' = l1_st s else mem_held hf (l1_st s') ks = Some e2)
         \<and> (\<forall>k d. mem_held hf (l1_st s') k = Some d \<longrightarrow> mem_held hf (l1_st s) k = Some d \<or> k = ks \<and> d = e2)
       else l1_st s' = l1_st s \<and> res = (if err2 = None then Inl ErrNotFound else Inr val))"
proof -
  let ?b = "l2_st s"
  have load0: "run_state (redis_Load rc ks) ?b = ((e0, found0, err0), ?b\<lparr>sent := Suc N, server := r0\<rparr>)"
    using redis_server.read_run [OF server refl n(2) [unfolded n(1)] r(1) [unfolded n(1)] h0(1)] miss(1) n(1) by (simp add: redis_Load_def)
  let ?b0 = "?b\<lparr>sent := Suc N, server := r0\<rparr>"
  have v0: "unat (Version e0) = stored_version h0" "Version e0 \<noteq> ForceVersion"
    using read_version [OF h0(2), of "codec rc"] miss(1) version_roundtrip [OF less_imp_le [OF h0(3)]] not_Force [OF less_imp_le [OF h0(3)]] by auto
  let ?t = "s\<lparr>l2_st := ?b0, stats := loads_update (\<lambda>n. n + 1) (stats s), ticks := ticks s + 4\<rparr>"
  have slow: "run_state (fill c key ks) s = run_state (fill_value c (redis_ops rc) ks (Version e0) (clock_now s) val) ?t"
    using val(1) miss(2) by (auto simp: fill_def c(3) run_alone [OF c(1)] load0 Let_def numeral_eq_Suc)
  obtain fu su j where w: "run_state (window c (clock_now s)) ?t = ((fu, su), ?t\<lparr>jitter_draws := j\<rparr>)"
    using run_window_frame [of c "clock_now s" ?t] by auto
  obtain res1 b1 where cas: "run_state (redis_SetCAS rc ks val (Version e0) fu su []) ?b0 = (res1, b1)" by fastforce
  have b1: "res1 = Inl ErrVersionConflict" "server b1 = r1"
    using redis_server.SetCAS_spec [OF server refl _ _ val(2) h1, of ?b0 "Version e0" fu su res1 b1] cas n(3) r(2) v0 moved by auto
  have sent: "sent b1 = Suc (Suc N)" using SetCAS_sent [OF val(2), of ks "Version e0" fu su ?b0] cas by simp
  obtain e2 found2 err2 where e2: "read_fields (codec rc) h2 = (e2, found2, err2)" by (metis prod.collapse)
  have load2: "run_state (redis_Load rc ks) b1 = ((e2, found2, err2), b1\<lparr>sent := Suc (sent b1), server := r2\<rparr>)"
    using redis_server.read_run [OF server refl _ _ h2, of b1] n(4) r(3) b1(2) sent e2 by (simp add: redis_Load_def)
  obtain ok err a where ins: "mem_SetIfNewer hf (clock_now s) ks e2 (l1_st s) = ((ok, err), a)" by (metis prod.collapse)
  have held: "\<forall>k d. mem_held hf a k = Some d \<longrightarrow> mem_held hf (l1_st s) k = Some d \<or> k = ks \<and> d = e2"
    using mem_SetIfNewer_law [OF c(4) ins] by (cases ok) (auto simp: map_le_def dom_def split: if_splits, metis option.discI option.inject)
  have installed: "if \<exists>d. mem_held hf (l1_st s) ks = Some d \<and> \<not> Expired d (clock_now s) \<and> Version e2 \<le> Version d
      then a = l1_st s else mem_held hf a ks = Some e2"
    using mem_SetIfNewer_law [OF c(4) ins] by (cases ok) (auto simp: not_le)
  have "server (l2_st s') = r2 \<and> (if found2 then res = Inr (Value e2) \<and> l1_st s' = a
      else l1_st s' = l1_st s \<and> res = (if err2 = None then Inl ErrNotFound else Inr val))"
    using run slow ins
    by (cases found2; cases err2)
      (auto simp: fill_value_def run_alone [OF c(1)] w cas b1 load2 installL1_def c(2) memory_ops_def)
  then show ?thesis using held installed e2 by (cases found2) simp_all
qed

theorem lost_race_adopts_winner_witness:
  "let c = demo_cache (\<lambda>_ _. Inr 8) (memory_ops demo_hash) (Some (redis_ops demo_raced)) quiet; s = demo_state demo_l2
   in case run_state (fill c ''b'' ''b'') s of (res, s') \<Rightarrow>
     res = Inl ErrNotFound \<and> l1_st s' = l1_st s \<and> ref_obj (server (l2_st s')) ''rc:k:b'' = Hash (tomb_hash 6)"
proof -
  let ?c = "demo_cache (\<lambda>_ _. Inr 8) (memory_ops demo_hash) (Some (redis_ops demo_raced)) quiet"
  let ?s = "demo_state demo_l2 :: (int memcache, ref_server l2state, gokey list) cstate"
  let ?r1 = "ref_put ''rc:k:b'' (RHash [(''ver'', dec 6), (''del'', ''1'')]) demo_server"
  obtain res s' where run: "run_state (fill ?c ''b'' ''b'') ?s = (res, s')" by fastforce
  have server: "redis_server (client demo_raced) ref_obj ref_micros" using reference.redis_server_axioms by simp
  have r: "demo_server = world demo_raced 0 (server (l2_st ?s))" "?r1 = world demo_raced (Suc 0) demo_server"
    "?r1 = world demo_raced (Suc (Suc 0)) ?r1" "0 = sent (l2_st ?s)"
    by (simp_all add: demo_state_def) (simp add: demo_raced_def)
  have h0: "as_hash (ref_obj demo_server (store_k demo_raced ''b'')) = Some demo_b_hash" using demo_b(1) by simp
  have h1: "as_hash (ref_obj ?r1 (store_k demo_raced ''b'')) = Some (tomb_hash 6)" "versioned (tomb_hash 6)"
    "stored_version (tomb_hash 6) < 2 ^ 53" "stored_version (tomb_hash 6) \<noteq> stored_version demo_b_hash"
    by (auto simp: ref_obj_put versioned_def stored_version_def dec_inj demo_b_hash_def)
  have e: "read_fields (codec demo_raced) demo_b_hash =
      (\<lparr>Value = 7, Version = 5, StoredAt = 0, FreshUntil = 10, StaleUntil = 20, Negative = False\<rparr>, True, None)"
    by (simp add: demo_b_hash_def read_fields_def demo_codec_def demo_parse nano_field_def msg_of_def parseUnixNano_def zero_entry_def)
  have stale: "\<not> (True \<and> Fresh \<lparr>Value = 7, Version = 5, StoredAt = 0, FreshUntil = 10, StaleUntil = 20, Negative = False\<rparr> (clock_now ?s))"
    by (simp add: Fresh_def demo_state_def)
  have c: "env ?c = quiet" "l1 ?c = memory_ops demo_hash" "l2 ?c = Some (redis_ops demo_raced)" "mem_ok demo_hash 1 (l1_st ?s)"
    "loader ?c ''b'' (ticks ?s + 3) = Inr 8" "Encode (codec demo_raced) 8 = Inr ''8''"
    using demo_store_ok demo_encode by (simp_all add: demo_state_def)
  have "server (l2_st s') = ?r1 \<and>
    (case read_fields (codec demo_raced) (tomb_hash 6) of (e2, found2, err2) \<Rightarrow>
       if found2 then res = Inr (Value e2)
         \<and> (if \<exists>d. mem_held demo_hash (l1_st ?s) ''b'' = Some d \<and> \<not> Expired d (clock_now ?s) \<and> Version e2 \<le> Version d
            then l1_st s' = l1_st ?s else mem_held demo_hash (l1_st s') ''b'' = Some e2)
         \<and> (\<forall>k d. mem_held demo_hash (l1_st s') k = Some d \<longrightarrow> mem_held demo_hash (l1_st ?s) k = Some d \<or> k = ''b'' \<and> d = e2)
       else l1_st s' = l1_st ?s \<and> res = (if err2 = None then Inl ErrNotFound else Inr 8))"
    by (rule lost_race_adopts_winner [OF server c(1-4) r(4) _ _ _ r(1-3) h0 demo_b(2,3) h1(1-3) h1(1,4) e stale c(5,6) run]) simp_all
  then show ?thesis using run read_tomb_hash [of 6 "codec demo_raced"] by (simp add: ref_obj_put)
qed

section \<open>A nil value\<close>

text \<open>
  C39: A nil value panics. In a cache whose value type is an interface, a loader that returns a nil
  value without an error makes \<open>GetOrLoad\<close> panic on a miss: the typed wrapper asserts the type of the
  value that comes back from \<open>singleflight\<close>, and a nil interface has none. (Here without an L2, and with
  no other caller in flight.)
\<close>

theorem nil_value_panics:
  assumes "env c = quiet" "l2 c = None" "xsf_Do c = sf_alone" "\<not> cstate.closed s"
    and "l1_Get (l1 c) (clock_now s) (keyString c key) (l1_st s) = ((e, False, err), a)"
    and "loader c key (ticks s + 4) = Inr v" "is_nil c v"
  shows "fst (run_state (GetOrLoad c key) s) = Panic"
proof -
  obtain W J where w: "run_state (window c (clock_now s)) t = (W t, t\<lparr>jitter_draws := J t\<rparr>)" for t
    using run_window_frame [of c "clock_now s"] by metis
  show ?thesis
    using assms(2-) by (simp add: GetOrLoad_def run_alone [OF assms(1)] Let_def sf_Do_def sf_alone_def fill_def fill_local_def
        valueEntry_def w to_any_def split_beta numeral_eq_Suc)
qed

theorem nil_value_panics_witness:
  "fst (run_state (GetOrLoad (demo_local\<lparr>is_nil := (\<lambda>v. v = 8)\<rparr>) ''k'') (demo_state vs_empty)) = Panic"
proof -
  let ?c = "demo_local\<lparr>is_nil := (\<lambda>v. v = 8)\<rparr>" and ?s = "demo_state vs_empty :: (int memcache, int vstore, gokey list) cstate"
  obtain e ok err a where get: "l1_Get (l1 ?c) (clock_now ?s) (keyString ?c ''k'') (l1_st ?s) = ((e, ok, err), a)" by (metis prod.collapse)
  have "\<not> ok"
    using get mem_Get_law [OF demo_store_ok [THEN conjunct1], of 1000 "''k''" e ok err a] demo_store_ok
    by (auto simp: demo_local_def demo_state_def memory_ops_def split: if_splits)
  then show ?thesis
    using nil_value_panics [of ?c ?s "''k''" e err a 8] get by (simp add: demo_local_def demo_state_def)
qed

end
